(* ===== verification/Prelude.thy ===== *)
theory Prelude
  imports Main "HOL-Library.Word" "HOL-Library.Signed_Division"
begin

unbundle bit_operations_syntax

text \<open>
  Shared vocabulary of the development: how the C++ ends abnormally, the conversions between
  its integer types, and the transition systems the concurrent components are stated in.

  A C++ computation that may not return normally has a result of type \<open>'a cxx\<close>: \<open>Inr\<close> of
  the value, or \<open>Inl\<close> of the way it stopped. The library is built without \<open>NDEBUG\<close>
  (CMakeLists.txt leaves that definition out), so \<open>assert\<close> is on.
\<close>

section \<open>Abnormal ends of a C++ computation\<close>

text \<open>
  \<^item> \<open>Undefined_Behaviour\<close>: a null or out-of-range access the language leaves undefined;
  \<^item> \<open>Assertion_Failed\<close>: a failing \<open>assert\<close>;
  \<^item> \<open>Terminated\<close>: \<open>std::terminate\<close>, which a failing \<open>CHECK\<close> reaches because the destructor
    of \<open>LogMessageFatal\<close> throws while destructors are implicitly \<open>noexcept\<close>;
  \<^item> \<open>Exception\<close>: a \<open>std::runtime_error\<close> with its message;
  \<^item> \<open>Process_Exit\<close>: \<open>::err\<close>, which prints its message and exits.
\<close>

datatype cxx_error =
    Undefined_Behaviour
  | Assertion_Failed
  | Terminated
  | Exception string
  | Process_Exit string

type_synonym 'a cxx = "cxx_error + 'a"

definition cxx_bind :: "'a cxx \<Rightarrow> ('a \<Rightarrow> 'b cxx) \<Rightarrow> 'b cxx" where
  "cxx_bind m f = (case m of Inl e \<Rightarrow> Inl e | Inr a \<Rightarrow> f a)"

lemma cxx_bind_simps [simp]:
  "cxx_bind (Inl e) f = Inl e"
  "cxx_bind (Inr a) f = f a"
  by (simp_all add: cxx_bind_def)

lemma cxx_bind_eq_Inr:
  "cxx_bind m f = Inr b \<longleftrightarrow> (\<exists>a. m = Inr a \<and> f a = Inr b)"
  by (cases m) simp_all

fun is_error :: "'a cxx \<Rightarrow> bool" where
  "is_error (Inl _) = True"
| "is_error (Inr _) = False"

text \<open>What holds of the result if the computation returns; the rules follow the code's structure.\<close>

definition ensures :: "'a cxx \<Rightarrow> ('a \<Rightarrow> bool) \<Rightarrow> bool" where
  "ensures m Q \<longleftrightarrow> (\<forall>a. m = Inr a \<longrightarrow> Q a)"

lemma ensures_simps [simp]:
  "ensures (Inl e) Q"
  "ensures (Inr a) Q \<longleftrightarrow> Q a"
  by (simp_all add: ensures_def)

lemma ensuresD: "ensures m Q \<Longrightarrow> m = Inr a \<Longrightarrow> Q a"
  by (simp add: ensures_def)

lemma ensures_bind: "ensures m P \<Longrightarrow> (\<And>a. P a \<Longrightarrow> ensures (f a) Q) \<Longrightarrow> ensures (cxx_bind m f) Q"
  by (cases m) simp_all

lemma ensures_if: "(c \<Longrightarrow> ensures m Q) \<Longrightarrow> (\<not> c \<Longrightarrow> ensures n Q) \<Longrightarrow> ensures (if c then m else n) Q"
  by simp

lemma ensures_mono: "ensures m P \<Longrightarrow> (\<And>a. P a \<Longrightarrow> Q a) \<Longrightarrow> ensures m Q"
  by (simp add: ensures_def)

section \<open>Integer conversions\<close>

text \<open>
  \<open>int\<close> is 32 bits, \<open>long\<close>, \<open>off_t\<close>, \<open>time_t\<close> and \<open>size_t\<close> are 64 bits, as on the
  platforms the build supports. A value that the code narrows is wrapped explicitly;
  the other integers are mathematical integers whose range is stated where it matters.
\<close>

definition to_int32 :: "int \<Rightarrow> int" where
  "to_int32 i = (i + 2 ^ 31) mod 2 ^ 32 - 2 ^ 31"

definition to_uint64 :: "int \<Rightarrow> nat" where
  "to_uint64 i = nat (i mod 2 ^ 64)"

lemma to_int32_id [simp]: "- (2 ^ 31) \<le> i \<Longrightarrow> i < 2 ^ 31 \<Longrightarrow> to_int32 i = i"
  by (simp add: to_int32_def)

lemma to_int32_range: "- (2 ^ 31) \<le> to_int32 i \<and> to_int32 i < 2 ^ 31"
  by (simp add: to_int32_def)

lemma to_int32_cong: "i mod 2 ^ 32 = j mod 2 ^ 32 \<Longrightarrow> to_int32 i = to_int32 j"
  unfolding to_int32_def using mod_add_cong [of i "2 ^ 32" j "2 ^ 31" "2 ^ 31"] by simp

lemma to_int32_mod: "to_int32 i mod 2 ^ 32 = i mod 2 ^ 32"
  by (simp add: to_int32_def mod_diff_left_eq)

lemma to_uint64_of_nat [simp]: "n < 2 ^ 64 \<Longrightarrow> to_uint64 (int n) = n"
  by (simp add: to_uint64_def flip: of_nat_mod)

text \<open>On non-negative operands the truncating division of C is \<open>div\<close>.\<close>

lemma sdiv_nonneg: "0 \<le> (a::int) \<Longrightarrow> 0 < b \<Longrightarrow> a sdiv b = a div b"
  by (cases "a = 0") (simp_all add: signed_divide_int_def)

lemma smod_nonneg: "0 \<le> (a::int) \<Longrightarrow> 0 < b \<Longrightarrow> a smod b = a mod b"
  by (cases "a = 0") (simp_all add: signed_modulo_int_def)

section \<open>Transition systems\<close>

text \<open>
  The reachable states of a system with initial states \<open>init\<close> and steps \<open>step\<close>. Components with threads give one rule of \<open>step\<close> for each atomic
  section of a thread, so a run is an interleaving of the threads.
\<close>

inductive reach :: "('s \<Rightarrow> bool) \<Rightarrow> ('s \<Rightarrow> 's \<Rightarrow> bool) \<Rightarrow> 's \<Rightarrow> bool"
  for init :: "'s \<Rightarrow> bool" and step :: "'s \<Rightarrow> 's \<Rightarrow> bool" where
  reach_init: "init s \<Longrightarrow> reach init step s"
| reach_step: "reach init step s \<Longrightarrow> step s t \<Longrightarrow> reach init step t"

lemma reach_steps: "step\<^sup>*\<^sup>* s t \<Longrightarrow> reach init step s \<Longrightarrow> reach init step t"
  by (induction rule: rtranclp_induct) (auto intro: reach.reach_step)

text \<open>
  A scheduler turns a list of events into a run; an event that is not possible is skipped. The
  concrete runs of the development are computed this way.
\<close>

lemma reach_foldl:
  assumes "\<And>s e. step s (f s e) \<or> f s e = s" and "reach init step s"
  shows "reach init step (foldl f s es)"
  using assms(2)
proof (induction es arbitrary: s)
  case (Cons e es)
  then have "reach init step (f s e)" using assms(1) [of s e] by (metis reach_step)
  then show ?case by (simp add: Cons.IH)
qed simp

text \<open>An inductive invariant: the contract by which every concurrent component is proved.\<close>

locale inductive_invariant =
  fixes init :: "'s \<Rightarrow> bool"
    and step :: "'s \<Rightarrow> 's \<Rightarrow> bool"
    and inv :: "'s \<Rightarrow> bool"
  assumes initially: "init s \<Longrightarrow> inv s"
    and preserved: "inv s \<Longrightarrow> step s t \<Longrightarrow> inv t"
begin

lemma reachable_inv: "reach init step s \<Longrightarrow> inv s"
  by (induction rule: reach.induct) (auto intro: initially preserved)

end

text \<open>
  A refinement mapping: every step of the component is a finite sequence of steps of its abstract
  specification, none for a step the specification does not see. So every reachable state of the
  component shows, through \<open>abs\<close>, a reachable state of the specification.
\<close>

locale refinement_mapping = inductive_invariant init step inv
  for init :: "'s \<Rightarrow> bool" and step :: "'s \<Rightarrow> 's \<Rightarrow> bool" and inv :: "'s \<Rightarrow> bool" +
  fixes spec_init :: "'a \<Rightarrow> bool"
    and spec_step :: "'a \<Rightarrow> 'a \<Rightarrow> bool"
    and abs :: "'s \<Rightarrow> 'a"
  assumes abs_init: "init s \<Longrightarrow> spec_init (abs s)"
    and abs_step: "inv s \<Longrightarrow> step s t \<Longrightarrow> spec_step\<^sup>*\<^sup>* (abs s) (abs t)"
begin

lemma refines: "reach init step s \<Longrightarrow> reach spec_init spec_step (abs s)"
proof (induction rule: reach.induct)
  case (reach_init s)
  then show ?case by (intro reach.reach_init abs_init)
next
  case (reach_step s t)
  have "spec_step\<^sup>*\<^sup>* (abs s) (abs t)"
    using reach_step.hyps by (intro abs_step reachable_inv)
  then show ?case using reach_step.IH by (rule reach_steps)
qed

end

section \<open>Lists and strings\<close>

abbreviation newline :: char where
  "newline \<equiv> CHR 0x0A"

abbreviation NUL :: char where
  "NUL \<equiv> CHR 0x00"

text \<open>The string a \<open>char*\<close> denotes: the characters before the first NUL.\<close>

definition c_str :: "string \<Rightarrow> string" where
  "c_str s = takeWhile (\<lambda>c. c \<noteq> NUL) s"

lemma c_str_id: "NUL \<notin> set s \<Longrightarrow> c_str s = s"
  by (auto simp: c_str_def takeWhile_eq_all_conv)

lemma set_update_cases: "x \<in> set (xs[i := y]) \<Longrightarrow> x = y \<or> x \<in> set xs"
  using set_update_subset_insert [of xs i y] by blast

lemma replicate_2: "replicate 2 x = [x, x]"
  by (simp add: numeral_2_eq_2)

lemma takeWhile_append_stop:
  "\<forall>x \<in> set xs. P x \<Longrightarrow> \<not> P y \<Longrightarrow> takeWhile P (xs @ y # ys) = xs"
  by (induction xs) auto

lemma append_stop_inject:
  assumes "\<forall>x \<in> set xs. P x" "\<not> P y" "\<forall>x \<in> set xs'. P x" "xs @ y # ys = xs' @ y # ys'"
  shows "xs = xs' \<and> ys = ys'"
proof -
  have "xs = xs'"
    using assms takeWhile_append_stop [of xs P y ys] takeWhile_append_stop [of xs' P y ys'] by simp
  with assms(4) show ?thesis by simp
qed

end
