(* ===== verification/Status.thy ===== *)
theory Status
  imports Decimal
begin

text \<open>
  The result type of the library: \<open>Status\<close> of base/status.h and base/status.cc, and the
  constructors and predicates that base/errors.h generates for each code.

  \<open>Status::state_\<close> is a \<open>std::unique_ptr<State>\<close>, null for success; it is an option here,
  since every copy of a status owns a copy of its state and no two objects share one.
\<close>

text \<open>
  The enumeration has no fixed underlying type, so an object may hold the values 5 to 7 that
  no enumerator names; they are the \<open>Code_value\<close> constructor and take the \<open>default\<close> branch.
\<close>

datatype Code =
    OK
  | INVALID_ARGUMENT
  | NOT_FOUND
  | OUT_OF_RANGE
  | UNKNOWN
  | Code_value int

record State =
  code :: Code
  msg :: string

record Status =
  state :: "State option"

definition Status_default :: Status where
  "Status_default = \<lparr>state = None\<rparr>"

definition Status_OK :: Status where
  "Status_OK = Status_default"

definition Status_new :: "Code \<Rightarrow> string \<Rightarrow> Status cxx" where
  "Status_new c m = (if c \<noteq> OK then Inr \<lparr>state = Some \<lparr>code = c, msg = m\<rparr>\<rparr>
                     else Inl Assertion_Failed)"

definition Status_copy :: "Status \<Rightarrow> Status" where
  "Status_copy s = (case state s of None \<Rightarrow> \<lparr>state = None\<rparr> | Some st \<Rightarrow> \<lparr>state = Some st\<rparr>)"

definition SlowCopyFrom :: "Status \<Rightarrow> State option \<Rightarrow> Status" where
  "SlowCopyFrom this src = (case src of None \<Rightarrow> this\<lparr>state := None\<rparr>
                            | Some st \<Rightarrow> this\<lparr>state := Some st\<rparr>)"

text \<open>
  The pointers of two different objects are equal exactly when both are null. (For an object
  compared with itself both branches below give the same result.)
\<close>

definition same_pointer :: "Status \<Rightarrow> Status \<Rightarrow> bool" where
  "same_pointer s t \<longleftrightarrow> state s = None \<and> state t = None"

definition Status_assign :: "Status \<Rightarrow> Status \<Rightarrow> Status" where
  "Status_assign this s = (if \<not> same_pointer this s then SlowCopyFrom this (state s) else this)"

definition ok :: "Status \<Rightarrow> bool" where
  "ok s \<longleftrightarrow> state s = None"

definition Status_code :: "Status \<Rightarrow> Code" where
  "Status_code s = (case state s of None \<Rightarrow> OK | Some st \<Rightarrow> code st)"

definition error_message :: "Status \<Rightarrow> string" where
  "error_message s = (case state s of None \<Rightarrow> ''not error message'' | Some st \<Rightarrow> msg st)"

fun error_name :: "Code \<Rightarrow> string" where
  "error_name OK = ''OK''"
| "error_name INVALID_ARGUMENT = ''INVALID_ARGUMENT''"
| "error_name NOT_FOUND = ''NOT_FOUND''"
| "error_name OUT_OF_RANGE = ''OUT_OF_RANGE''"
| "error_name UNKNOWN = ''UNKNOWN''"
| "error_name (Code_value n) = snprintf 30 (''Unknown code('' @ dec_int n @ '')'')"

definition ToString :: "Status \<Rightarrow> string" where
  "ToString s = (case state s of None \<Rightarrow> ''OK''
                 | Some st \<Rightarrow> error_name (Status_code s) @ '': '' @ msg st)"

definition Status_eq :: "Status \<Rightarrow> Status \<Rightarrow> bool" where
  "Status_eq s t \<longleftrightarrow> same_pointer s t \<or> ToString s = ToString t"

definition Status_neq :: "Status \<Rightarrow> Status \<Rightarrow> bool" where
  "Status_neq s t \<longleftrightarrow> \<not> Status_eq s t"

definition Update :: "Status \<Rightarrow> Status \<Rightarrow> Status" where
  "Update this new_status = (if ok this then Status_assign this new_status else this)"

section \<open>The error constructors and predicates of base/errors.h\<close>

definition InvalidArgument :: "string \<Rightarrow> Status cxx" where
  "InvalidArgument m = Status_new INVALID_ARGUMENT m"

definition IsInvalidArgument :: "Status \<Rightarrow> bool" where
  "IsInvalidArgument s \<longleftrightarrow> Status_code s = INVALID_ARGUMENT"

definition NotFound :: "string \<Rightarrow> Status cxx" where
  "NotFound m = Status_new NOT_FOUND m"

definition IsNotFound :: "Status \<Rightarrow> bool" where
  "IsNotFound s \<longleftrightarrow> Status_code s = NOT_FOUND"

definition OutOfRange :: "string \<Rightarrow> Status cxx" where
  "OutOfRange m = Status_new OUT_OF_RANGE m"

definition IsOutOfRange :: "Status \<Rightarrow> bool" where
  "IsOutOfRange s \<longleftrightarrow> Status_code s = OUT_OF_RANGE"

lemmas status_defs = Status_default_def Status_OK_def Status_new_def Status_copy_def
  SlowCopyFrom_def same_pointer_def Status_assign_def ok_def Status_code_def error_message_def
  Update_def

lemmas errors_defs = InvalidArgument_def IsInvalidArgument_def NotFound_def IsNotFound_def
  OutOfRange_def IsOutOfRange_def

section \<open>Copies, assignment and update\<close>

lemma Status_copy_id [simp]: "Status_copy s = s"
  by (cases s) (simp add: Status_copy_def split: option.split)

lemma Status_assign_value [simp]: "Status_assign s t = t"
  by (cases s; cases t) (simp add: status_defs split: option.split)

lemma Update_ok: "ok s \<Longrightarrow> Update s t = t"
  by (simp add: Update_def)

lemma Update_error: "\<not> ok s \<Longrightarrow> Update s t = s"
  by (simp add: Update_def)

text \<open>
  Collecting statuses with \<open>Update\<close> keeps the first error and ignores every later status;
  without an error the result is success.
\<close>

lemma Update_keeps_first_error:
  "foldl Update Status_OK ss = (case filter (\<lambda>s. \<not> ok s) ss of [] \<Rightarrow> Status_OK | e # _ \<Rightarrow> e)"
proof -
  have err: "foldl Update e ss = e" if "\<not> ok e" for e and ss :: "Status list"
    using that by (induction ss) (simp_all add: Update_error)
  have unit: "s = Status_OK" if "ok s" for s :: Status
    using that by (cases s) (simp add: status_defs)
  have "ok Status_OK" by (simp add: status_defs)
  then show ?thesis
  proof (induction ss)
    case Nil
    then show ?case by simp
  next
    case (Cons s ss)
    show ?case
    proof (cases "ok s")
      case True
      then have "Update Status_OK s = Status_OK" using Cons.prems unit by (simp add: Update_ok)
      with Cons True show ?thesis by simp
    next
      case False
      with Cons.prems show ?thesis by (simp add: Update_ok err)
    qed
  qed
qed

section \<open>Equality of statuses\<close>

text \<open>The values an object of the enumeration can hold (C++11, 7.2 [dcl.enum]).\<close>

definition code_in_range :: "Code \<Rightarrow> bool" where
  "code_in_range c \<longleftrightarrow> (case c of Code_value n \<Rightarrow> 5 \<le> n \<and> n \<le> 7 | _ \<Rightarrow> True)"

definition status_in_range :: "Status \<Rightarrow> bool" where
  "status_in_range s \<longleftrightarrow> (case state s of None \<Rightarrow> True | Some st \<Rightarrow> code_in_range (code st))"

lemma error_name_values:
  "error_name (Code_value 5) = ''Unknown code(5)''"
  "error_name (Code_value 6) = ''Unknown code(6)''"
  "error_name (Code_value 7) = ''Unknown code(7)''"
  by code_simp+

lemma code_in_range_cases:
  assumes "code_in_range c"
  obtains "c = OK" | "c = INVALID_ARGUMENT" | "c = NOT_FOUND" | "c = OUT_OF_RANGE"
    | "c = UNKNOWN" | "c = Code_value 5" | "c = Code_value 6" | "c = Code_value 7"
proof (cases c)
  case (Code_value n)
  with assms have "n = 5 \<or> n = 6 \<or> n = 7" by (auto simp: code_in_range_def)
  with Code_value that show thesis by blast
qed (use that in auto)

lemma error_name_no_colon: "code_in_range c \<Longrightarrow> \<forall>x \<in> set (error_name c). x \<noteq> CHR '':''"
  by (erule code_in_range_cases) (simp_all add: error_name_values del: error_name.simps(6))

lemma error_name_inject:
  "code_in_range c \<Longrightarrow> code_in_range d \<Longrightarrow> error_name c = error_name d \<Longrightarrow> c = d"
  by (erule code_in_range_cases; erule code_in_range_cases)
    (simp_all add: error_name_values del: error_name.simps(6))

text \<open>
  For statuses whose codes are values of the enumeration, the printed form that
  \<open>operator==\<close> compares determines the status: equality is equality of code and message,
  and success equals success only.
\<close>

lemma Status_eq_iff:
  assumes "status_in_range s" "status_in_range t"
  shows "Status_eq s t \<longleftrightarrow> state s = state t"
proof
  assume "state s = state t"
  then show "Status_eq s t"
    by (cases "state t") (simp_all add: Status_eq_def ToString_def same_pointer_def Status_code_def)
next
  assume eq: "Status_eq s t"
  have no_ok: "''OK'' \<noteq> error_name c @ '': '' @ m" if "code_in_range c" for c m
  proof
    assume "''OK'' = error_name c @ '': '' @ m"
    then have "CHR '':'' \<in> set ''OK''" by (simp only: set_append) simp
    then show False by simp
  qed
  show "state s = state t"
  proof (cases "state s"; cases "state t")
    fix a b
    assume a: "state s = Some a" and b: "state t = Some b"
    with eq have str: "error_name (code a) @ CHR '':'' # '' '' @ msg a =
        error_name (code b) @ CHR '':'' # '' '' @ msg b"
      by (simp add: Status_eq_def ToString_def same_pointer_def Status_code_def)
    from assms a b have r: "code_in_range (code a)" "code_in_range (code b)"
      by (simp_all add: status_in_range_def)
    from append_stop_inject [OF error_name_no_colon [OF r(1)] _ error_name_no_colon [OF r(2)] str]
    have "error_name (code a) = error_name (code b)" "msg a = msg b" by simp_all
    with r a b show ?thesis by (auto dest: error_name_inject)
  qed (use eq assms no_ok no_ok [symmetric] in \<open>auto simp: Status_eq_def ToString_def same_pointer_def
      Status_code_def status_in_range_def\<close>)
qed

lemma Status_eq_iff_witness:
  "\<not> Status_eq \<lparr>state = Some \<lparr>code = NOT_FOUND, msg = ''a''\<rparr>\<rparr>
               \<lparr>state = Some \<lparr>code = Code_value 6, msg = ''a''\<rparr>\<rparr>"
  by (subst Status_eq_iff) (simp_all add: status_in_range_def code_in_range_def)

section \<open>The constructors of errors.h\<close>

text \<open>Each constructor is recognised by its own predicate and by no other.\<close>

lemma InvalidArgument_classified:
  "\<exists>s. InvalidArgument m = Inr s \<and> IsInvalidArgument s \<and> \<not> IsNotFound s \<and> \<not> IsOutOfRange s
     \<and> \<not> ok s \<and> error_message s = m \<and> ToString s = ''INVALID_ARGUMENT: '' @ m"
  by (simp add: errors_defs status_defs ToString_def)

lemma NotFound_classified:
  "\<exists>s. NotFound m = Inr s \<and> IsNotFound s \<and> \<not> IsInvalidArgument s \<and> \<not> IsOutOfRange s
     \<and> \<not> ok s \<and> error_message s = m \<and> ToString s = ''NOT_FOUND: '' @ m"
  by (simp add: errors_defs status_defs ToString_def)

lemma OutOfRange_classified:
  "\<exists>s. OutOfRange m = Inr s \<and> IsOutOfRange s \<and> \<not> IsInvalidArgument s \<and> \<not> IsNotFound s
     \<and> \<not> ok s \<and> error_message s = m \<and> ToString s = ''OUT_OF_RANGE: '' @ m"
  by (simp add: errors_defs status_defs ToString_def)

end
