(* ===== verification/Bit_Op.thy ===== *)
theory Bit_Op
  imports Prelude
begin

text \<open>
  Packing of a node index and a row index into one feature id: base/bit_op.h. The signed
  arguments are words read in two's complement (\<open>sint\<close>); the conversions the C++ leaves
  implicit (\<open>int\<close> to \<open>int64_t\<close>, \<open>uint64_t\<close> to \<open>int\<close>) are \<open>scast\<close> and \<open>ucast\<close>.
\<close>

definition NODE_BITS :: nat where
  "NODE_BITS = 20"

definition GetFid :: "64 word \<Rightarrow> 32 word \<Rightarrow> 64 word" where
  "GetFid node_idx row_idx = push_bit NODE_BITS node_idx + scast row_idx"

definition GetNodeIdx :: "64 word \<Rightarrow> 32 word" where
  "GetNodeIdx fid = ucast (drop_bit NODE_BITS fid)"

definition GetRowIdx :: "64 word \<Rightarrow> 32 word" where
  "GetRowIdx fid = ucast (fid AND (push_bit NODE_BITS 1 - 1))"

lemma unat_scast_nonneg:
  assumes "unat (r :: 32 word) < 2 ^ 31"
  shows "unat (scast r :: 64 word) = unat r"
proof -
  have "int (unat r) < int (2 ^ 31)" using assms by (simp only: of_nat_less_iff)
  then have "uint r < 2 ^ 31" by simp
  moreover have "- (2 ^ 31) \<le> uint r"
    by (rule order_trans [OF _ uint_ge_0]) simp
  ultimately have "signed_take_bit 31 (uint r) = uint r"
    by (intro signed_take_bit_int_eq_self)
  then have "sint r = uint r"
    by (subst sint_uint) simp
  then have "(scast r :: 64 word) = ucast r"
    by (simp only: scast_eq ucast_eq)
  moreover have "unat (ucast r :: 64 word) = take_bit 64 (unat r)"
    by (subst unsigned_ucast_eq) simp
  moreover have "take_bit 64 (unat r) = unat r"
    using assms by (intro take_bit_nat_eq_self) simp
  ultimately show ?thesis by simp
qed

lemma unat_GetFid:
  assumes "unat node < 2 ^ 31" "unat row < 2 ^ 20"
  shows "unat (GetFid node row) = unat node * 2 ^ 20 + unat row"
proof -
  have r: "unat (scast row :: 64 word) = unat row"
    using assms(2) by (intro unat_scast_nonneg) simp
  have n: "unat (push_bit 20 node) = unat node * 2 ^ 20"
    using assms(1) by (simp add: push_bit_eq_mult unat_word_ariths)
  have "unat (push_bit 20 node) + unat (scast row :: 64 word) < 2 ^ 64"
    using assms by (simp add: r n)
  then show ?thesis
    by (simp add: GetFid_def NODE_BITS_def unat_add_lem [THEN iffD1] r n)
qed

lemma unat_GetRowIdx: "unat (GetRowIdx fid) = unat fid mod 2 ^ 20"
proof -
  have m: "(push_bit NODE_BITS 1 - 1 :: 64 word) = mask 20"
    by (simp add: NODE_BITS_def mask_eq_exp_minus_1)
  have "unat (fid AND mask 20) = unat fid mod 2 ^ 20"
    by (simp add: take_bit_eq_mod unat_mod_distrib flip: take_bit_eq_mask)
  then show ?thesis
    unfolding GetRowIdx_def m by (simp add: unsigned_ucast_eq take_bit_eq_mod)
qed

lemma unat_GetNodeIdx: "unat (GetNodeIdx fid) = unat fid div 2 ^ 20 mod 2 ^ 32"
  by (simp add: GetNodeIdx_def NODE_BITS_def unsigned_ucast_eq drop_bit_eq_div take_bit_eq_mod
      unat_div_distrib)

text \<open>
  A node index below 2^31 and a row index below 2^20 come back unchanged from the id that
  packs them, so distinct pairs have distinct ids.
\<close>

lemma fid_roundtrip:
  assumes "unat node < 2 ^ 31" "unat row < 2 ^ 20"
  shows "unat (GetNodeIdx (GetFid node row)) = unat node \<and> GetRowIdx (GetFid node row) = row"
proof
  show "unat (GetNodeIdx (GetFid node row)) = unat node"
    using assms by (simp add: unat_GetNodeIdx unat_GetFid)
  have "unat (GetRowIdx (GetFid node row)) = unat row"
    using assms by (simp add: unat_GetRowIdx unat_GetFid)
  then show "GetRowIdx (GetFid node row) = row" by (simp add: word_unat_eq_iff)
qed

lemma fid_roundtrip_witness:
  "unat (GetNodeIdx (GetFid 3 1048575)) = 3 \<and> GetRowIdx (GetFid 3 1048575) = 1048575"
  using fid_roundtrip [of 3 1048575] by simp

text \<open>
  The row index is not checked: one that needs more than 20 bits carries into the node
  index, and row 2^20 of a node has the id of row 0 of the next node.
\<close>

lemma fid_row_overflow_collides: "GetFid node 1048576 = GetFid (node + 1) 0"
  by (simp add: GetFid_def NODE_BITS_def push_bit_eq_mult algebra_simps)

text \<open>A fid below 2^51 is recovered from its two indices.\<close>

lemma fid_unpack_pack:
  assumes "unat fid < 2 ^ 51"
  shows "GetFid (ucast (GetNodeIdx fid)) (GetRowIdx fid) = fid"
proof -
  have n: "unat (ucast (GetNodeIdx fid) :: 64 word) = unat fid div 2 ^ 20"
    using assms by (simp add: unsigned_ucast_eq unat_GetNodeIdx take_bit_eq_mod)
  have "unat (GetFid (ucast (GetNodeIdx fid)) (GetRowIdx fid)) = unat fid"
    using assms by (subst unat_GetFid) (simp_all add: n unat_GetRowIdx)
  then show ?thesis by (simp add: word_unat_eq_iff)
qed

end
