(* ===== verification/Text_Util.thy ===== *)
theory Text_Util
  imports Decimal
begin

text \<open>
  String utilities: \<open>Split\<close> of base/dstring.h, the stream conversions of
  base/type_conversion.h and the line reader \<open>Exec\<close> of base/shell_util.h. The standard
  streams are modelled by what they still have to deliver.
\<close>

section \<open>Lines of an input stream\<close>

text \<open>
  \<open>std::getline(is, item, delimeter)\<close> on a stream with the characters \<open>s\<close> left: it fails at
  the end of the input, and otherwise extracts up to the delimiter, which it drops.
\<close>

definition getline :: "char \<Rightarrow> string \<Rightarrow> (string \<times> string) option" where
  "getline d s = (if s = [] then None
                  else Some (takeWhile (\<lambda>c. c \<noteq> d) s, drop 1 (dropWhile (\<lambda>c. c \<noteq> d) s)))"

lemma getline_shrinks [termination_simp]: "getline d s = Some (item, rest) \<Longrightarrow> length rest < length s"
proof -
  assume g: "getline d s = Some (item, rest)"
  have "length (dropWhile (\<lambda>c. c \<noteq> d) s) \<le> length s" by (rule length_dropWhile_le)
  with g show ?thesis by (cases s) (auto simp: getline_def split: if_splits)
qed

text \<open>\<open>Split\<close>: the loop over \<open>getline\<close> with the result vector as accumulator.\<close>

function split_loop :: "char \<Rightarrow> bool \<Rightarrow> string \<Rightarrow> string list \<Rightarrow> string list" where
  "split_loop d trim is ret =
     (case getline d is of
        None \<Rightarrow> ret
      | Some (item, rest) \<Rightarrow>
          if trim \<and> length item = 0 then split_loop d trim rest ret
          else split_loop d trim rest (ret @ [item]))"
  by pat_completeness auto
termination
  by (relation "measure (\<lambda>(d, trim, is, ret). length is)") (auto dest: getline_shrinks)

declare split_loop.simps [simp del]

definition Split :: "string \<Rightarrow> char \<Rightarrow> bool \<Rightarrow> string list" where
  "Split str d trim = split_loop d trim str []"

lemma split_loop_acc: "split_loop d trim s ret = ret @ split_loop d trim s []"
proof (induction s arbitrary: ret rule: measure_induct_rule [where f = length])
  case (less s)
  show ?case
  proof (cases "getline d s")
    case None
    then show ?thesis by (simp add: split_loop.simps [of d trim s])
  next
    case (Some p)
    then obtain item rest where g: "getline d s = Some (item, rest)" by (cases p) auto
    note IH = less [OF getline_shrinks [OF g]]
    show ?thesis
    proof (cases "trim \<and> item = []")
      case True
      with g have step: "split_loop d trim s r = split_loop d trim rest r" for r
        by (subst split_loop.simps) simp
      show ?thesis unfolding step by (rule IH)
    next
      case False
      with g have step: "split_loop d trim s r = split_loop d trim rest (r @ [item])" for r
        by (subst split_loop.simps) auto
      show ?thesis
        unfolding step using IH [of "ret @ [item]"] IH [of "[item]"] by simp
    qed
  qed
qed

lemma getline_piece: "d \<notin> set x \<Longrightarrow> getline d (x @ d # y) = Some (x, y)"
  by (induction x) (auto simp: getline_def split: if_splits)

lemma getline_last: "d \<notin> set s \<Longrightarrow> s \<noteq> [] \<Longrightarrow> getline d s = Some (s, [])"
proof -
  assume "d \<notin> set s" "s \<noteq> []"
  then have tw: "takeWhile (\<lambda>c. c \<noteq> d) s = s" and dw: "dropWhile (\<lambda>c. c \<noteq> d) s = []" by auto
  show ?thesis unfolding getline_def tw dw using \<open>s \<noteq> []\<close> by simp
qed

lemma split_loop_Nil: "split_loop d trim [] ret = ret"
  by (simp add: split_loop.simps [of d trim "[]"] getline_def)

lemma Split_Nil [simp]: "Split [] d trim = []"
  by (simp add: Split_def split_loop_Nil)

lemma Split_piece:
  "d \<notin> set x \<Longrightarrow> Split (x @ d # y) d trim = (if trim \<and> x = [] then [] else [x]) @ Split y d trim"
  unfolding Split_def
  by (subst split_loop.simps) (simp add: getline_piece split_loop_acc [of d trim y "[x]"])

lemma Split_last: "d \<notin> set s \<Longrightarrow> s \<noteq> [] \<Longrightarrow> Split s d trim = [s]"
  unfolding Split_def
  by (subst split_loop.simps) (simp add: getline_last split_loop_Nil)

text \<open>Induction along the pieces of the input.\<close>

lemma split_induct [case_names Nil Last Piece]:
  assumes "P []"
    and "\<And>s. d \<notin> set s \<Longrightarrow> s \<noteq> [] \<Longrightarrow> P s"
    and "\<And>x y. d \<notin> set x \<Longrightarrow> P y \<Longrightarrow> P (x @ d # y)"
  shows "P s"
proof (induction s rule: measure_induct_rule [where f = length])
  case (less s)
  show ?case
  proof (cases "d \<in> set s")
    case True
    then obtain x y where s: "s = x @ d # y" and "d \<notin> set x" by (meson split_list_first)
    then show ?thesis using less [of y] assms(3) by simp
  next
    case False
    then show ?thesis using assms(1,2) by (cases "s = []") auto
  qed
qed

lemma Split_no_delimeter: "x \<in> set (Split s d trim) \<Longrightarrow> d \<notin> set x"
  by (induction s rule: split_induct [of _ d]) (auto simp: Split_piece Split_last split: if_splits)

text \<open>
  C34. \<open>Split\<close> loses nothing but a missing final delimiter: its pieces hold no delimiter, and
  ending each with one gives back the input, with a delimiter added if it did not end in one.
\<close>

theorem Split_join:
  "(\<forall>x \<in> set (Split str d False). d \<notin> set x) \<and>
   concat (map (\<lambda>x. x @ [d]) (Split str d False)) =
     (if str = [] \<or> last str = d then str else str @ [d])"
proof
  show "\<forall>x \<in> set (Split str d False). d \<notin> set x"
    by (simp add: Split_no_delimeter)
  show "concat (map (\<lambda>x. x @ [d]) (Split str d False)) =
     (if str = [] \<or> last str = d then str else str @ [d])"
    by (induction str rule: split_induct [of _ d]) (auto simp: Split_piece Split_last)
qed

lemma Split_join_witness:
  "list_all (\<lambda>x. CHR '';'' \<notin> set x) (Split ''a;b'' (CHR '';'') False)
    \<and> concat (map (\<lambda>x. x @ '';'') (Split ''a;b'' (CHR '';'') False)) = ''a;b;''"
  using Split_join [of "''a;b''" "CHR '';''"] by (simp add: list_all_iff)

text \<open>Trimming drops exactly the empty pieces.\<close>

lemma Split_trim: "Split str d True = filter (\<lambda>x. x \<noteq> []) (Split str d False)"
  by (induction str rule: split_induct [of _ d]) (auto simp: Split_piece Split_last)

section \<open>Numbers and strings\<close>

text \<open>
  \<open>NumToString\<close> and \<open>StringToNum\<close> at a signed integer type with the values \<open>lo\<close> to \<open>hi\<close>. The
  extraction skips white space, reads an optional sign and digits, stores 0 when there is no
  digit and the nearest bound when the value does not fit. If nothing is left after the white
  space the stream never stores, and the function returns its uninitialised variable.
\<close>

definition is_space :: "char \<Rightarrow> bool" where
  "is_space c \<longleftrightarrow> c = CHR '' '' \<or> (9 \<le> (of_char c :: nat) \<and> (of_char c :: nat) \<le> 13)"

definition NumToString :: "int \<Rightarrow> string" where
  "NumToString value = dec_int value"

definition StringToNum :: "int \<Rightarrow> int \<Rightarrow> string \<Rightarrow> int cxx" where
  "StringToNum lo hi str =
     (let buffer = dropWhile is_space str in
      case buffer of
        [] \<Rightarrow> Inl Undefined_Behaviour
      | c # cs \<Rightarrow>
          let rest = (if c = CHR ''-'' \<or> c = CHR ''+'' then cs else buffer);
              ds = takeWhile is_digit rest;
              v = (if c = CHR ''-'' then - int (undec ds) else int (undec ds))
          in if ds = [] then Inr 0 else Inr (max lo (min hi v)))"

lemma is_digit_not_space: "is_digit c \<Longrightarrow> \<not> is_space c"
  by (auto simp: is_digit_def is_space_def)

lemma takeWhile_dec_nat: "takeWhile is_digit (dec_nat n) = dec_nat n"
  by (simp add: takeWhile_eq_all_conv dec_nat_digits)

text \<open>
  Every value of a signed integer type survives printing and reading back, also after
  leading white space.
\<close>

lemma num_string_roundtrip:
  assumes "lo \<le> v" "v \<le> hi" "\<forall>c \<in> set ws. is_space c"
  shows "StringToNum lo hi (ws @ NumToString v) = Inr v"
proof -
  have drop: "dropWhile is_space (ws @ s) = dropWhile is_space s" for s
    using assms(3) by (induction ws) auto
  show ?thesis
  proof (cases "v < 0")
    case True
    then show ?thesis
      using assms(1,2) drop
      by (simp add: StringToNum_def NumToString_def dec_int_def takeWhile_dec_nat is_space_def)
  next
    case False
    obtain c cs where d: "dec_nat (nat v) = c # cs"
      by (cases "dec_nat (nat v)") auto
    then have c: "is_digit c" using dec_nat_digits [of c "nat v"] by simp
    then have "c \<noteq> CHR ''-''" "c \<noteq> CHR ''+''" by (auto simp: is_digit_def)
    moreover have tw: "takeWhile is_digit (c # cs) = c # cs" and "undec (c # cs) = nat v"
      using takeWhile_dec_nat [of "nat v"] undec_dec_nat [of "nat v"] d by simp_all
    ultimately show ?thesis
      using False c assms(1,2)
      by (simp add: StringToNum_def NumToString_def dec_int_def d is_digit_not_space drop tw
          del: takeWhile.simps)
  qed
qed

lemma num_string_roundtrip_witness:
  "StringToNum (-2147483648) 2147483647 ('' '' @ NumToString (-160114099)) = Inr (-160114099)"
  by (rule num_string_roundtrip) (simp_all add: is_space_def)

lemma StringToNum_empty: "\<forall>c \<in> set ws. is_space c \<Longrightarrow> StringToNum lo hi ws = Inl Undefined_Behaviour"
  by (induction ws) (simp_all add: StringToNum_def)

section \<open>The output lines of a shell command\<close>

text \<open>
  \<open>fgets\<close> with a buffer of \<open>n + 1\<close> characters: up to \<open>n\<close> characters, the newline included.
  \<open>Exec\<close> takes the output of the command (\<open>None\<close> when \<open>popen\<close> fails) and appends its lines to
  \<open>out\<close>. The line buffer is read up to its first NUL, and \<open>line[strlen(line) - 1]\<close> of a line
  that begins with a NUL is an access before the buffer.
\<close>

fun fgets :: "nat \<Rightarrow> string \<Rightarrow> string \<times> string" where
  "fgets 0 s = ([], s)"
| "fgets (Suc n) [] = ([], [])"
| "fgets (Suc n) (c # s) =
     (if c = newline then ([c], s) else let (l, r) = fgets n s in (c # l, r))"

definition line_size :: nat where
  "line_size = 1024 * 8"

lemma fgets_append: "fgets n s = (l, r) \<Longrightarrow> s = l @ r"
  by (induction n s arbitrary: l r rule: fgets.induct) (auto split: if_splits prod.splits)

lemma fgets_nonempty: "s \<noteq> [] \<Longrightarrow> fst (fgets (Suc n) s) \<noteq> []"
  by (cases s) (auto split: prod.splits)

lemma fgets_rest_shrinks: "s \<noteq> [] \<Longrightarrow> length (snd (fgets (Suc n) s)) < length s"
proof -
  assume "s \<noteq> []"
  obtain l r where f: "fgets (Suc n) s = (l, r)" by (cases "fgets (Suc n) s")
  then have "s = l @ r" "l \<noteq> []" using fgets_append fgets_nonempty [OF \<open>s \<noteq> []\<close>, of n] by auto
  with f show ?thesis by simp
qed

function exec_loop :: "string \<Rightarrow> string list \<Rightarrow> string list cxx" where
  "exec_loop s out =
     (if s = [] then Inr out
      else let (l, r) = fgets (line_size - 1) s; line = c_str l in
           if line = [] then Inl Undefined_Behaviour
           else if last line = newline then exec_loop r (out @ [butlast line])
           else exec_loop r (out @ [line]))"
  by pat_completeness auto
termination
proof (relation "measure (\<lambda>(s, out). length s)", goal_cases)
  case (2 s out x l r)
  then show ?case
    using fgets_rest_shrinks [of s 8190] by (simp add: line_size_def) (metis snd_conv)
next
  case (3 s out x l r)
  then show ?case
    using fgets_rest_shrinks [of s 8190] by (simp add: line_size_def) (metis snd_conv)
qed simp

declare exec_loop.simps [simp del]

definition Exec :: "string option \<Rightarrow> string list \<Rightarrow> (int \<times> string list) cxx" where
  "Exec popen_output out =
     (case popen_output of
        None \<Rightarrow> Inr (-1, out)
      | Some s \<Rightarrow> cxx_bind (exec_loop s out) (\<lambda>out'. Inr (0, out')))"

lemma fgets_line:
  "newline \<notin> set x \<Longrightarrow> length x < n \<Longrightarrow> fgets n (x @ newline # y) = (x @ [newline], y)"
  by (induction x arbitrary: n) (case_tac n; auto)+

lemma fgets_last_line: "newline \<notin> set x \<Longrightarrow> length x \<le> n \<Longrightarrow> fgets n x = (x, [])"
  by (induction x arbitrary: n) (case_tac n; auto)+

text \<open>
  On output without NUL characters whose lines fit the buffer, \<open>Exec\<close> returns 0 and
  appends exactly the lines of the output, in order.
\<close>

lemma Exec_lines:
  assumes "NUL \<notin> set s" "\<forall>x \<in> set (Split s newline False). length x < line_size - 1"
  shows "Exec (Some s) out = Inr (0, out @ Split s newline False)"
proof -
  have "exec_loop s out = Inr (out @ Split s newline False)"
    using assms
  proof (induction s arbitrary: out rule: split_induct [of _ newline])
    case Nil
    then show ?case by (simp add: exec_loop.simps)
  next
    case (Last s)
    then show ?case
      by (subst exec_loop.simps)
        (auto simp: fgets_last_line Split_last c_str_id exec_loop.simps dest: last_in_set)
  next
    case (Piece x y)
    then have "fgets (line_size - 1) (x @ newline # y) = (x @ [newline], y)"
      by (intro fgets_line) (auto simp: Split_piece)
    with Piece show ?case
      by (subst exec_loop.simps) (simp add: Split_piece c_str_id butlast_append)
  qed
  then show ?thesis by (simp add: Exec_def)
qed

lemma Exec_lines_witness:
  "Exec (Some (''ab'' @ [newline] @ ''c'')) [''x''] = Inr (0, [''x'', ''ab'', ''c''])"
proof -
  have "Split (''ab'' @ newline # ''c'') newline False = [''ab'', ''c'']"
    by (subst Split_piece) (simp_all add: Split_last)
  then show ?thesis
    using Exec_lines [of "''ab'' @ newline # ''c''" "[''x'']"] by (simp add: line_size_def)
qed

text \<open>
  An output line that begins with a NUL character makes \<open>Exec\<close> read and write before
  its line buffer.
\<close>

lemma Exec_NUL_line_undefined: "Exec (Some (NUL # s)) out = Inl Undefined_Behaviour"
proof -
  obtain l r where f: "fgets (line_size - 1) (NUL # s) = (NUL # l, r)"
    by (cases "fgets 8190 s") (simp add: line_size_def fgets.simps(3) [of 8190, simplified])
  then show ?thesis
    by (simp add: Exec_def exec_loop.simps [of "NUL # s"] c_str_def)
qed

end
