(* ===== verification/Hash_Murmur3.thy ===== *)
theory Hash_Murmur3
  imports Prelude
begin

text \<open>
  The hash functions of base/hash_murmur3.cc and base/hash_murmur3.h. A key is the list of its
  bytes and \<open>len\<close> is its length. \<open>uint64_t\<close> and \<open>uint32_t\<close> blocks are read through a pointer
  cast, so they are little-endian, as on the platforms the build supports.
\<close>

type_synonym u8 = "8 word"
type_synonym u32 = "32 word"
type_synonym u64 = "64 word"

section \<open>Blocks and rotations\<close>

fun le_word :: "u8 list \<Rightarrow> 'a::len word" where
  "le_word [] = 0"
| "le_word (b # bs) = ucast b OR push_bit 8 (le_word bs)"

definition rotl32 :: "u32 \<Rightarrow> nat \<Rightarrow> u32" where
  "rotl32 x r = push_bit r x OR drop_bit (32 - r) x"

definition rotl64 :: "u64 \<Rightarrow> nat \<Rightarrow> u64" where
  "rotl64 x r = push_bit r x OR drop_bit (64 - r) x"

definition getblock64 :: "u8 list \<Rightarrow> nat \<Rightarrow> u64" where
  "getblock64 p i = le_word (take 8 (drop (8 * i) p))"

definition getblock32 :: "u8 list \<Rightarrow> nat \<Rightarrow> u32" where
  "getblock32 p i = le_word (take 4 (drop (4 * i) p))"

section \<open>The 128-bit hash\<close>

definition c1_128 :: u64 where "c1_128 = 0x87c37b91114253d5"
definition c2_128 :: u64 where "c2_128 = 0x4cf5ad432745937f"
definition c3_128 :: u32 where "c3_128 = 0x52dce729"
definition c4_128 :: u32 where "c4_128 = 0x38495ab5"
definition c5_128 :: u64 where "c5_128 = 0xff51afd7ed558ccd"
definition c6_128 :: u64 where "c6_128 = 0xc4ceb9fe1a85ec53"

text \<open>
  One iteration of the body. The state is \<open>(h1, h2, k2)\<close>: \<open>k2\<close> lives across iterations
  because the code never assigns it a block.
\<close>

definition hash128_round :: "u8 list \<Rightarrow> u64 \<times> u64 \<times> u64 \<Rightarrow> nat \<Rightarrow> u64 \<times> u64 \<times> u64" where
  "hash128_round blocks = (\<lambda>(h1, h2, k2) i.
     let k1 = getblock64 blocks (i * 2 + 0);
         k1 = getblock64 blocks (i * 2 + 1);
         k1 = k1 * c1_128; k1 = rotl64 k1 31; k1 = k1 * c2_128;
         h1 = h1 XOR k1; h1 = rotl64 h1 27; h1 = h1 + h2; h1 = h1 * 5 + ucast c3_128;
         k2 = k2 * c2_128; k2 = rotl64 k2 33; k2 = k2 * c1_128;
         h2 = h2 XOR k2; h2 = rotl64 h2 31; h2 = h2 + h1; h2 = h1 * 5 + ucast c4_128
     in (h1, h2, k2))"

text \<open>The fall-through cases of the tail: case \<open>j + 1\<close> runs when at least that many bytes are left.\<close>

definition tail_byte :: "u8 list \<Rightarrow> nat \<Rightarrow> nat \<Rightarrow> 'a::len word \<Rightarrow> 'a word" where
  "tail_byte tail j s k = (if j < length tail then k XOR push_bit s (ucast (tail ! j)) else k)"

definition hash128_tail :: "u8 list \<Rightarrow> u64 \<times> u64 \<Rightarrow> u64 \<times> u64" where
  "hash128_tail tail = (\<lambda>(h1, h2).
     let k1 = 0; k2 = 0;
         k2 = tail_byte tail 14 48 k2;
         k2 = tail_byte tail 13 40 k2;
         k2 = tail_byte tail 12 32 k2;
         k2 = tail_byte tail 11 24 k2;
         k2 = tail_byte tail 10 16 k2;
         k2 = tail_byte tail 9 8 k2;
         k2 = tail_byte tail 8 0 k2;
         h2 = (if 9 \<le> length tail
               then h2 XOR (rotl64 (k2 * c2_128) 33 * c1_128) else h2);
         k1 = tail_byte tail 7 56 k1;
         k1 = tail_byte tail 6 48 k1;
         k1 = tail_byte tail 5 40 k1;
         k1 = tail_byte tail 4 32 k1;
         k1 = tail_byte tail 3 24 k1;
         k1 = tail_byte tail 2 16 k1;
         k1 = tail_byte tail 1 8 k1;
         k1 = tail_byte tail 0 0 k1;
         h1 = (if 1 \<le> length tail
               then h1 XOR (rotl64 (k1 * c1_128) 31 * c2_128) else h1)
     in (h1, h2))"

definition fmix64 :: "u64 \<Rightarrow> u64" where
  "fmix64 h =
     (let h = h XOR drop_bit 33 h; h = h * c5_128; h = h XOR drop_bit 33 h; h = h * c6_128
      in h XOR drop_bit 33 h)"

definition hash128_final :: "nat \<Rightarrow> u64 \<times> u64 \<Rightarrow> u64 \<times> u64" where
  "hash128_final len = (\<lambda>(h1, h2).
     let h1 = h1 XOR of_nat len; h2 = h2 XOR of_nat len;
         h1 = h1 + h2; h2 = h2 + h1;
         h1 = fmix64 h1; h2 = fmix64 h2;
         h1 = h1 + h2; h2 = h2 + h1
     in (h1, h2))"

text \<open>
  \<open>uninit\<close> is the value the uninitialised local \<open>k2\<close> happens to have at the first iteration.
\<close>

definition hash128 :: "u8 list \<Rightarrow> u32 \<Rightarrow> u64 \<Rightarrow> u64 \<times> u64" where
  "hash128 key seed uninit =
     (let len = length key; n = len div 16;
          (h1, h2, k2) = foldl (hash128_round key) (ucast seed, ucast seed, uninit) [0..<n]
      in hash128_final len (hash128_tail (drop (n * 16) key) (h1, h2)))"

text \<open>The overload with one output pointer stores the two halves next to each other.\<close>

definition hash128_one :: "u8 list \<Rightarrow> u32 \<Rightarrow> u64 \<Rightarrow> u64 list" where
  "hash128_one key seed uninit = (let (h1, h2) = hash128 key seed uninit in [h1, h2])"

definition MMHash64 :: "u8 list \<Rightarrow> u32 \<Rightarrow> u64 \<Rightarrow> u64" where
  "MMHash64 key seed uninit = (let (hash, hash2) = hash128 key seed uninit in hash)"

section \<open>The 32-bit hash\<close>

definition c1_32 :: u32 where "c1_32 = 0xcc9e2d51"
definition c2_32 :: u32 where "c2_32 = 0x1b873593"
definition c3_32 :: u32 where "c3_32 = 0xe6546b64"
definition c4_32 :: u32 where "c4_32 = 0x85ebca6b"
definition c5_32 :: u32 where "c5_32 = 0xc2b2ae35"

definition hash32_mix :: "u32 \<Rightarrow> u32" where
  "hash32_mix k = (let k = k * c1_32; k = rotl32 k 15 in k * c2_32)"

definition hash32_round :: "u32 \<Rightarrow> u32 \<Rightarrow> u32" where
  "hash32_round h k = (let h = h XOR hash32_mix k; h = rotl32 h 13 in h * 5 + c3_32)"

definition hash32_tail :: "u8 list \<Rightarrow> u32 \<Rightarrow> u32" where
  "hash32_tail tail h =
     (let k = 0;
          k = tail_byte tail 2 16 k;
          k = tail_byte tail 1 8 k;
          k = tail_byte tail 0 0 k
      in if 1 \<le> length tail then h XOR hash32_mix k else h)"

definition hash32_final :: "nat \<Rightarrow> u32 \<Rightarrow> u32" where
  "hash32_final len h =
     (let h = h XOR of_nat len;
          h = h XOR drop_bit 16 h; h = h * c4_32; h = h XOR drop_bit 13 h; h = h * c5_32
      in h XOR drop_bit 16 h)"

definition hash32 :: "u8 list \<Rightarrow> u32 \<Rightarrow> u32" where
  "hash32 key seed =
     (let len = length key; n = len div 4;
          h = foldl hash32_round seed (map (getblock32 key) [0..<n])
      in hash32_final len (hash32_tail (drop (n * 4) key) h))"

section \<open>Invertible word operations\<close>

lemma bit_rotl32:
  assumes "0 < r" "r < 32" "n < 32"
  shows "bit (rotl32 x r) n \<longleftrightarrow> bit x (if r \<le> n then n - r else n + 32 - r)"
proof -
  have high: "\<not> bit x m" if "32 \<le> m" for m
    using bit_imp_le_length [of x m] that by auto
  show ?thesis
    using assms
    by (cases "r \<le> n") (simp_all add: rotl32_def bit_or_iff bit_push_bit_iff bit_drop_bit_eq high
        add.commute)
qed

lemma rotl32_inject:
  assumes "0 < r" "r < 32" "rotl32 x r = rotl32 y r"
  shows "x = y"
proof (rule bit_word_eqI)
  fix n
  assume "n < LENGTH(32)"
  then have n: "n < 32" by simp
  define m where "m = (if n + r < 32 then n + r else n + r - 32)"
  have m: "m < 32" and pos: "(if r \<le> m then m - r else m + 32 - r) = n"
    using assms(1,2) n by (auto simp: m_def)
  from assms(3) have "bit (rotl32 x r) m = bit (rotl32 y r) m" by simp
  then show "bit x n = bit y n"
    by (simp only: bit_rotl32 [OF assms(1,2) m] pos)
qed

lemma xor_shift_inject:
  fixes x y :: "'a::len word"
  assumes "0 < s" "x XOR drop_bit s x = y XOR drop_bit s y"
  shows "x = y"
proof -
  have "bit x n = bit y n" for n
  proof (induction "LENGTH('a) - n" arbitrary: n rule: less_induct)
    case less
    show ?case
    proof (cases "n < LENGTH('a)")
      case True
      with assms(1) have IH: "bit x (s + n) = bit y (s + n)"
        by (intro less) auto
      from assms(2) have "bit (x XOR drop_bit s x) n = bit (y XOR drop_bit s y) n" by simp
      with IH show ?thesis by (auto simp: bit_xor_iff bit_drop_bit_eq)
    next
      case False
      then show ?thesis using bit_imp_le_length [of x n] bit_imp_le_length [of y n] by auto
    qed
  qed
  then show ?thesis by (intro bit_eqI) simp
qed

lemma mult_inject:
  fixes x y c d :: "'a::len word"
  assumes "c * d = 1" "x * c = y * c"
  shows "x = y"
proof -
  have "x = x * c * d" "y = y * c * d" by (simp_all add: assms(1) mult.assoc)
  with assms(2) show ?thesis by simp
qed

lemma xor_right_inject: "(x :: 'a::len word) XOR z = y XOR z \<longleftrightarrow> x = y"
  by (metis bit.xor_self xor.assoc xor.right_neutral xor_self_eq)

lemma xor_left_inject: "(z :: 'a::len word) XOR x = z XOR y \<longleftrightarrow> x = y"
  by (metis xor.commute xor_right_inject)

lemma c_32_inverses:
  "c1_32 * 3739302833 = 1" "c2_32 * 1458385051 = 1" "c4_32 * 2781581891 = 1"
  "c5_32 * 2127672349 = 1" "(5 :: u32) * 3435973837 = 1"
  by (simp_all add: c1_32_def c2_32_def c4_32_def c5_32_def)

lemma hash32_mix_inject: "hash32_mix k = hash32_mix l \<longleftrightarrow> k = l"
proof
  assume "hash32_mix k = hash32_mix l"
  then have "rotl32 (k * c1_32) 15 * c2_32 = rotl32 (l * c1_32) 15 * c2_32"
    by (simp add: hash32_mix_def Let_def)
  then have "rotl32 (k * c1_32) 15 = rotl32 (l * c1_32) 15"
    by (rule mult_inject [OF c_32_inverses(2)])
  then have "k * c1_32 = l * c1_32"
    by (rule rotl32_inject [rotated 2]) simp_all
  then show "k = l" by (rule mult_inject [OF c_32_inverses(1)])
qed simp

lemma hash32_round_inject_state: "hash32_round h k = hash32_round h' k \<longleftrightarrow> h = h'"
proof
  assume "hash32_round h k = hash32_round h' k"
  then have "rotl32 (h XOR hash32_mix k) 13 * 5 = rotl32 (h' XOR hash32_mix k) 13 * 5"
    by (simp add: hash32_round_def Let_def)
  then have "rotl32 (h XOR hash32_mix k) 13 = rotl32 (h' XOR hash32_mix k) 13"
    by (rule mult_inject [OF c_32_inverses(5)])
  then have "h XOR hash32_mix k = h' XOR hash32_mix k"
    by (rule rotl32_inject [rotated 2]) simp_all
  then show "h = h'" by (simp add: xor_right_inject)
qed simp

lemma hash32_round_inject_block: "hash32_round h k = hash32_round h k' \<longleftrightarrow> k = k'"
proof
  assume "hash32_round h k = hash32_round h k'"
  then have "rotl32 (h XOR hash32_mix k) 13 * 5 = rotl32 (h XOR hash32_mix k') 13 * 5"
    by (simp add: hash32_round_def Let_def)
  then have "rotl32 (h XOR hash32_mix k) 13 = rotl32 (h XOR hash32_mix k') 13"
    by (rule mult_inject [OF c_32_inverses(5)])
  then have "h XOR hash32_mix k = h XOR hash32_mix k'"
    by (rule rotl32_inject [rotated 2]) simp_all
  then show "k = k'" by (simp add: xor_left_inject hash32_mix_inject)
qed simp

lemma hash32_rounds_inject: "foldl hash32_round h ks = foldl hash32_round h' ks \<longleftrightarrow> h = h'"
  by (induction ks arbitrary: h h') (simp_all add: hash32_round_inject_state)

lemma hash32_final_inject: "hash32_final n h = hash32_final n h' \<longleftrightarrow> h = h'"
proof
  assume eq: "hash32_final n h = hash32_final n h'"
  define f where "f = (\<lambda>x :: u32. (x XOR drop_bit 16 x) * c4_32)"
  define g where "g = (\<lambda>x :: u32. (x XOR drop_bit 13 x) * c5_32)"
  have f: "f x = f y \<Longrightarrow> x = y" for x y
    unfolding f_def by (rule xor_shift_inject [of 16], simp) (rule mult_inject [OF c_32_inverses(3)])
  have g: "g x = g y \<Longrightarrow> x = y" for x y
    unfolding g_def by (rule xor_shift_inject [of 13], simp) (rule mult_inject [OF c_32_inverses(4)])
  from eq have "g (f (h XOR of_nat n)) XOR drop_bit 16 (g (f (h XOR of_nat n))) =
      g (f (h' XOR of_nat n)) XOR drop_bit 16 (g (f (h' XOR of_nat n)))"
    by (simp add: hash32_final_def Let_def f_def g_def)
  then have "g (f (h XOR of_nat n)) = g (f (h' XOR of_nat n))"
    by (rule xor_shift_inject [rotated]) simp
  then show "h = h'" by (auto dest!: f g simp: xor_right_inject)
qed simp

section \<open>Blocks determine their bytes\<close>

lemma bit_le_word:
  assumes "i < length bs" "j < 8" "8 * length bs \<le> LENGTH('a)"
  shows "bit (le_word bs :: 'a::len word) (8 * i + j) \<longleftrightarrow> bit (bs ! i) j"
  using assms
proof (induction bs arbitrary: i)
  case Nil
  then show ?case by simp
next
  case (Cons b bs)
  show ?case
  proof (cases i)
    case 0
    with Cons.prems show ?thesis
      by (auto simp: bit_or_iff bit_ucast_iff bit_push_bit_iff)
  next
    case (Suc m)
    have "\<not> bit b (8 * i + j)" using Suc bit_imp_le_length [of b "8 * i + j"] by auto
    moreover have "8 * i + j - 8 = 8 * m + j" "8 \<le> 8 * i + j" "8 * i + j < LENGTH('a)"
      using Suc Cons.prems by auto
    ultimately show ?thesis
      using Cons.IH [of m] Cons.prems Suc
      by (auto simp: bit_or_iff bit_ucast_iff bit_push_bit_iff)
  qed
qed

lemma le_word_inject:
  assumes "length bs = length bs'" "8 * length bs \<le> LENGTH('a)"
    and eq: "(le_word bs :: 'a::len word) = le_word bs'"
  shows "bs = bs'"
proof (rule nth_equalityI [OF assms(1)])
  fix i
  assume i: "i < length bs"
  show "bs ! i = bs' ! i"
  proof (rule bit_word_eqI)
    fix j
    assume "j < LENGTH(8)"
    then have j: "j < 8" by simp
    show "bit (bs ! i) j = bit (bs' ! i) j"
      using bit_le_word [OF i j assms(2)] bit_le_word [of i bs' j, where 'a = 'a] assms i j eq
      by simp
  qed
qed

text \<open>The tail word of one to three bytes is their little-endian word.\<close>

lemma tail32_word:
  assumes "length t < 4"
  shows "tail_byte t 0 0 (tail_byte t 1 8 (tail_byte t 2 16 (0 :: u32))) = le_word t"
proof (rule bit_word_eqI)
  fix n
  assume "n < LENGTH(32)"
  then have n: "n < 32" by simp
  have "length t = 0 \<or> length t = 1 \<or> length t = 2 \<or> length t = 3"
    using assms by linarith
  then have t: "t = [] \<or> (\<exists>a. t = [a]) \<or> (\<exists>a b. t = [a, b]) \<or> (\<exists>a b c. t = [a, b, c])"
    by (auto simp: length_Suc_conv numeral_eq_Suc)
  have high: "\<not> bit a m" if "8 \<le> m" for a :: u8 and m
    using bit_imp_le_length [of a m] that by auto
  note bits = tail_byte_def bit_or_iff bit_xor_iff bit_ucast_iff bit_push_bit_iff high
  consider "n < 8" | "8 \<le> n" "n < 16" | "16 \<le> n" by linarith
  then show "bit (tail_byte t 0 0 (tail_byte t 1 8 (tail_byte t 2 16 (0 :: u32)))) n =
      bit (le_word t :: u32) n"
  proof cases
    case 1
    then show ?thesis using t n by (elim disjE exE) (simp_all add: bits)
  next
    case 2
    then show ?thesis using t n by (elim disjE exE) (simp_all add: bits)
  next
    case 3
    then show ?thesis using t n by (elim disjE exE) (simp_all add: bits)
  qed
qed

lemma hash32_tail_inject_state: "hash32_tail t h = hash32_tail t h' \<longleftrightarrow> h = h'"
  by (simp add: hash32_tail_def Let_def xor_right_inject)

lemma hash32_tail_inject_bytes:
  assumes "length t = length t'" "length t < 4" "hash32_tail t h = hash32_tail t' h"
  shows "t = t'"
proof (cases "1 \<le> length t")
  case True
  with assms have "tail_byte t 0 0 (tail_byte t 1 8 (tail_byte t 2 16 (0 :: u32))) =
      tail_byte t' 0 0 (tail_byte t' 1 8 (tail_byte t' 2 16 0))"
    by (simp add: hash32_tail_def Let_def xor_left_inject hash32_mix_inject)
  then have "(le_word t :: u32) = le_word t'"
    using assms(1,2) by (simp only: tail32_word)
  with assms show ?thesis by (intro le_word_inject) simp_all
next
  case False
  with assms(1) show ?thesis by (cases t; cases t') simp_all
qed

section \<open>Properties of the 32-bit hash\<close>

text \<open>
  For a fixed key the 32-bit hash is injective in the seed.
\<close>

lemma hash32_seed_inject: "hash32 key seed = hash32 key seed' \<longleftrightarrow> seed = seed'"
  by (simp add: hash32_def Let_def hash32_final_inject hash32_tail_inject_state
      hash32_rounds_inject)

lemma foldl_hash32_differ:
  assumes "length ks = length ks'" "i < length ks" "ks ! i \<noteq> ks' ! i"
    and "\<And>j. j < length ks \<Longrightarrow> j \<noteq> i \<Longrightarrow> ks ! j = ks' ! j"
  shows "foldl hash32_round h ks \<noteq> foldl hash32_round h ks'"
proof -
  have pre: "take i ks = take i ks'"
    using assms by (intro nth_equalityI) auto
  have post: "drop (Suc i) ks = drop (Suc i) ks'"
    using assms by (intro nth_equalityI) auto
  have split: "xs = take i xs @ xs ! i # drop (Suc i) xs" if "i < length xs" for xs :: "u32 list"
    using that by (simp add: id_take_nth_drop)
  define a where "a = foldl hash32_round h (take i ks)"
  have "foldl hash32_round h ks = foldl hash32_round (hash32_round a (ks ! i)) (drop (Suc i) ks)"
    using assms(2) unfolding a_def by (subst split [of ks]) simp_all
  moreover have "foldl hash32_round h ks' =
      foldl hash32_round (hash32_round a (ks' ! i)) (drop (Suc i) ks)"
    using assms(1,2) unfolding a_def pre post by (subst split [of ks']) simp_all
  ultimately show ?thesis
    using assms(3) by (simp add: hash32_rounds_inject hash32_round_inject_block)
qed

text \<open>Equal blocks have equal bytes; keys that agree outside one block differ in it or in the tail.\<close>

lemma getblock32_eq_iff:
  assumes "length key = length key'" "j < length key div 4"
  shows "getblock32 key j = getblock32 key' j \<longleftrightarrow> (\<forall>l < 4. key ! (4 * j + l) = key' ! (4 * j + l))"
proof -
  have n: "4 * j + l < length key" if "l < 4" for l
    using that assms(2) by presburger
  then have "length (take 4 (drop (4 * j) key)) = 4" "length (take 4 (drop (4 * j) key')) = 4"
    using assms by auto
  moreover have "getblock32 key j = getblock32 key' j \<longleftrightarrow>
      take 4 (drop (4 * j) key) = take 4 (drop (4 * j) key')"
    unfolding getblock32_def
    using le_word_inject [of "take 4 (drop (4 * j) key)" "take 4 (drop (4 * j) key')",
        where 'a = 32] assms(1) by auto
  ultimately show ?thesis
    using n assms(1) by (simp add: list_eq_iff_nth_eq less_imp_le)
qed

lemma differing_block:
  assumes "length key = length key'" "key \<noteq> key'" "\<forall>j < length key. j div 4 \<noteq> i \<longrightarrow> key ! j = key' ! j"
  obtains l where "l < 4" "4 * i + l < length key" "key ! (4 * i + l) \<noteq> key' ! (4 * i + l)"
proof -
  obtain j where j: "j < length key" "key ! j \<noteq> key' ! j"
    using assms(1,2) nth_equalityI by blast
  with assms(3) have "j div 4 = i" by blast
  then have "4 * i + j mod 4 = j" by (metis mult_div_mod_eq)
  with j that [of "j mod 4"] show thesis by simp
qed

lemma hash32_blocks_tail:
  "hash32 key seed = hash32_final (length key) (hash32_tail (drop (length key div 4 * 4) key)
     (foldl hash32_round seed (map (getblock32 key) [0..<length key div 4])))"
  by (simp add: hash32_def Let_def)

text \<open>
  C32. Two keys of the same length that differ, and differ only within one group of four bytes
  (a block, or the tail), have different 32-bit hashes under every seed. In particular the
  hash is injective on keys of at most four bytes of one length.
\<close>

theorem hash32_one_block_differs:
  assumes len: "length key = length key'" and "key \<noteq> key'"
    and same: "\<forall>j < length key. j div 4 \<noteq> i \<longrightarrow> key ! j = key' ! j"
  shows "hash32 key seed \<noteq> hash32 key' seed"
proof -
  let ?n = "length key div 4"
  let ?ks = "map (getblock32 key) [0..<?n]" and ?ks' = "map (getblock32 key') [0..<?n]"
  let ?t = "drop (?n * 4) key" and ?t' = "drop (?n * 4) key'"
  obtain l where l: "l < 4" "4 * i + l < length key" "key ! (4 * i + l) \<noteq> key' ! (4 * i + l)"
    using differing_block [OF assms] .
  have same_block: "getblock32 key j = getblock32 key' j" if "j < ?n" "j \<noteq> i" for j
  proof -
    have "4 * j + l < length key" if "l < 4" for l using that \<open>j < ?n\<close> by presburger
    with same \<open>j \<noteq> i\<close> show ?thesis by (simp add: getblock32_eq_iff [OF len \<open>j < ?n\<close>])
  qed
  have h: "hash32 key seed = hash32_final (length key) (hash32_tail ?t (foldl hash32_round seed ?ks))"
    "hash32 key' seed = hash32_final (length key) (hash32_tail ?t' (foldl hash32_round seed ?ks'))"
    using hash32_blocks_tail [of key] hash32_blocks_tail [of key'] by (simp_all add: len)
  show ?thesis
  proof (cases "i < ?n")
    case True
    have "?t = ?t'"
      using len same True by (intro nth_equalityI) auto
    moreover have "getblock32 key i \<noteq> getblock32 key' i"
      using l by (auto simp: getblock32_eq_iff [OF len True])
    then have "foldl hash32_round seed ?ks \<noteq> foldl hash32_round seed ?ks'"
      using True same_block by (intro foldl_hash32_differ [of _ _ i]) auto
    ultimately show ?thesis
      by (simp add: h hash32_final_inject hash32_tail_inject_state)
  next
    case False
    have ks: "?ks = ?ks'" using same_block False by auto
    have "?n * 4 \<le> 4 * i + l" using False by linarith
    then have "?t ! (4 * i + l - ?n * 4) \<noteq> ?t' ! (4 * i + l - ?n * 4)"
      using l len by simp
    then have "?t \<noteq> ?t'" by metis
    moreover have "length ?t = length ?t'" "length ?t < 4"
      using len by (simp_all add: minus_div_mult_eq_mod)
    ultimately have "hash32_tail ?t (foldl hash32_round seed ?ks) \<noteq> hash32_tail ?t' (foldl hash32_round seed ?ks)"
      using hash32_tail_inject_bytes by blast
    then show ?thesis
      unfolding h ks hash32_final_inject .
  qed
qed

lemma hash32_one_block_differs_witness: "hash32 [1, 2, 3, 4, 5] 9 \<noteq> hash32 [1, 2, 3, 4, 0] 9"
proof (rule hash32_one_block_differs [where i = 1])
  show "\<forall>j < length [1, 2, 3, 4, 5 :: u8]. j div 4 \<noteq> 1 \<longrightarrow>
      [1, 2, 3, 4, 5 :: u8] ! j = [1, 2, 3, 4, 0] ! j"
  proof (intro allI impI)
    fix j
    assume "j < length [1, 2, 3, 4, 5 :: u8]" "j div 4 \<noteq> 1"
    then have "j = 0 \<or> j = 1 \<or> j = 2 \<or> j = 3" by simp presburger
    then show "[1, 2, 3, 4, 5 :: u8] ! j = [1, 2, 3, 4, 0] ! j" by auto
  qed
qed simp_all

section \<open>Properties of the 128-bit hash\<close>

text \<open>The accumulators after a round do not depend on \<open>k2\<close> or on the first half of the block.\<close>

lemma hash128_round_irrelevant:
  assumes "getblock64 key (i * 2 + 1) = getblock64 key' (i * 2 + 1)"
  shows "\<exists>a b k l. hash128_round key (h1, h2, k2) i = (a, b, k)
           \<and> hash128_round key' (h1, h2, l2) i = (a, b, l)"
  using assms by (simp add: hash128_round_def Let_def)

lemma hash128_rounds_irrelevant:
  assumes "\<And>i. i < n \<Longrightarrow> getblock64 key (i * 2 + 1) = getblock64 key' (i * 2 + 1)"
  shows "\<exists>a b k l. foldl (hash128_round key) (h1, h2, k2) [0..<n] = (a, b, k)
           \<and> foldl (hash128_round key') (h1, h2, l2) [0..<n] = (a, b, l)"
  using assms
proof (induction n)
  case 0
  then show ?case by simp
next
  case (Suc n)
  then obtain a b k l where
    "foldl (hash128_round key) (h1, h2, k2) [0..<n] = (a, b, k)"
    "foldl (hash128_round key') (h1, h2, l2) [0..<n] = (a, b, l)"
    by (metis less_SucI)
  moreover obtain a' b' k' l' where
    "hash128_round key (a, b, k) n = (a', b', k')" "hash128_round key' (a, b, l) n = (a', b', l')"
    using hash128_round_irrelevant [of key n key' a b k l] Suc.prems by blast
  ultimately show ?case by simp
qed

text \<open>
  C33. The 128-bit hash reads only the second half of every 16-byte block: two keys of the same
  length that agree on those halves and on the tail have the same hash, whatever the first
  halves are. The value of the uninitialised \<open>k2\<close> never reaches the result either.
\<close>

theorem hash128_ignores_even_words:
  assumes len: "length key = length key'"
    and same: "\<forall>j < length key. j < length key div 16 * 16 \<and> j mod 16 < 8 \<or> key ! j = key' ! j"
  shows "hash128 key seed uninit = hash128 key' seed uninit'"
proof -
  define n where "n = length key div 16"
  have blocks: "getblock64 key (i * 2 + 1) = getblock64 key' (i * 2 + 1)" if "i < n" for i
  proof -
    have "take 8 (drop (8 * (i * 2 + 1)) key) = take 8 (drop (8 * (i * 2 + 1)) key')"
    proof (rule nth_equalityI)
      fix l
      assume l: "l < length (take 8 (drop (8 * (i * 2 + 1)) key))"
      have e: "8 * (i * 2 + 1) = 16 * i + 8" by simp
      have "\<not> (16 * i + 8 + l) mod 16 < 8"
        using l by (simp add: mod_simps add.assoc)
      moreover have lt: "16 * i + 8 + l < length key" using l by simp arith
      ultimately have "key ! (16 * i + 8 + l) = key' ! (16 * i + 8 + l)"
        using same by blast
      with l lt len show
        "take 8 (drop (8 * (i * 2 + 1)) key) ! l = take 8 (drop (8 * (i * 2 + 1)) key') ! l"
        unfolding e by simp
    qed (use len in simp)
    then show ?thesis by (simp add: getblock64_def)
  qed
  have tail: "drop (n * 16) key = drop (n * 16) key'"
  proof (rule nth_equalityI)
    fix l
    assume "l < length (drop (n * 16) key)"
    then have lt: "n * 16 + l < length key" by simp
    with same have "key ! (n * 16 + l) = key' ! (n * 16 + l)" by (auto simp: n_def)
    with lt len show "drop (n * 16) key ! l = drop (n * 16) key' ! l" by simp
  qed (use len in simp)
  obtain a b k l where
    "foldl (hash128_round key) (ucast seed, ucast seed, uninit) [0..<n] = (a, b, k)"
    "foldl (hash128_round key') (ucast seed, ucast seed, uninit') [0..<n] = (a, b, l)"
    using hash128_rounds_irrelevant blocks by metis
  then show ?thesis
    using len tail by (simp add: hash128_def Let_def n_def)
qed

lemma hash128_ignores_even_words_witness:
  "hash128 (1 # replicate 16 0) 42 0 = hash128 (2 # replicate 16 0) 42 7"
  by (rule hash128_ignores_even_words) (auto simp: nth_Cons')

text \<open>The 64-bit hash is the first half of the 128-bit hash of the same key and seed.\<close>

lemma MMHash64_fst: "MMHash64 key seed uninit = fst (hash128 key seed uninit)"
  by (simp add: MMHash64_def split: prod.split)

end
