(* ===== verification/Calendar.thy ===== *)
theory Calendar
  imports Prelude
begin

text \<open>
  Dates: the \<open>Date\<close> class of base/date.h and the \<open>internal::Date\<close> class of base/logging.h and
  base/logging.cc. Both turn the seconds since 1970 into a Beijing-time date with the same
  arithmetic. They differ in when they recompute a field (date.h skips a field unless the
  clock stands on its boundary) and in the month table (date.h has a fresh local one, logging.cc
  has one static table that it changes and never restores).

  The clock is a parameter: \<open>tv\<close> is the pair \<open>gettimeofday\<close> delivers. C division and remainder
  truncate (\<open>sdiv\<close>, \<open>smod\<close>).
\<close>

definition BJTIME :: int where "BJTIME = 8"
definition DAY :: int where "DAY = 86400"
definition YEARFIRST :: int where "YEARFIRST = 2001"
definition YEARSTART :: int where "YEARSTART = 365 * (YEARFIRST - 1970) + 8"
definition YEAR400 :: int where "YEAR400 = 164097"
definition YEAR100 :: int where "YEAR100 = 36524"
definition YEAR004 :: int where "YEAR004 = 1461"
definition YEAR001 :: int where "YEAR001 = 365"

lemmas date_consts = BJTIME_def DAY_def YEARFIRST_def YEARSTART_def YEAR400_def YEAR100_def
  YEAR004_def YEAR001_def

record DateInfo =
  year :: int
  month :: int
  day :: int
  hour :: int
  minute :: int
  second :: int
  usecond :: int

definition DateInfo_new :: DateInfo where
  "DateInfo_new = \<lparr>year = 0, month = 0, day = 0, hour = -1, minute = -1, second = 0, usecond = 0\<rparr>"

definition month_table :: "int list" where
  "month_table = [31, 28, 31, 30, 31, 30, 31, 31, 30, 31, 30, 31]"

text \<open>The \<open>for\<close> loop over the months, from \<open>i = 1\<close>.\<close>

function month_loop :: "int list \<Rightarrow> nat \<Rightarrow> int \<Rightarrow> nat \<times> int" where
  "month_loop m i dd =
     (if i < 12 then (if dd - m ! i < 0 then (i, dd) else month_loop m (i + 1) (dd - m ! i))
      else (i, dd))"
  by pat_completeness auto
termination
  by (relation "measure (\<lambda>(m, i, dd). 12 - i)") auto

declare month_loop.simps [simp del]

definition set_leap :: "int list \<Rightarrow> int \<Rightarrow> int list" where
  "set_leap m yy =
     (if yy smod 1000 = 0 then (if (yy sdiv 1000) smod 4 = 0 then m[1 := 29] else m)
      else (if yy smod 4 = 0 then m[1 := 29] else m))"

text \<open>
  \<open>ComputeYearMonthDay\<close> with the month table as an argument and a result; \<open>m\<close> is the local
  array in date.h and the static array in logging.cc.
\<close>

definition ComputeYearMonthDay :: "int list \<Rightarrow> int \<Rightarrow> DateInfo \<Rightarrow> int list \<times> DateInfo" where
  "ComputeYearMonthDay m sec date =
     (let ad = sec sdiv DAY;
          ad = ad - YEARSTART;
          y400 = ad sdiv YEAR400;
          y100 = (ad - y400 * YEAR400) sdiv YEAR100;
          y004 = (ad - y400 * YEAR400 - y100 * YEAR100) sdiv YEAR004;
          y001 = (ad - y400 * YEAR400 - y100 * YEAR100 - y004 * YEAR004) sdiv YEAR001;
          yy = y400 * 4 * 100 + y100 * 100 + y004 * 4 + y001 * 1 + YEARFIRST;
          date = date\<lparr>year := yy\<rparr>;
          dd = (ad - y400 * YEAR400 - y100 * YEAR100 - y004 * YEAR004) smod YEAR001;
          m = set_leap m yy;
          (i, dd) = month_loop m 1 dd
      in (m, date\<lparr>month := int i, day := dd + 1\<rparr>))"

definition ComputeHour :: "int \<Rightarrow> DateInfo \<Rightarrow> DateInfo" where
  "ComputeHour sec date = date\<lparr>hour := (sec sdiv 3600) smod 24\<rparr>"

definition ComputeMinute :: "int \<Rightarrow> DateInfo \<Rightarrow> DateInfo" where
  "ComputeMinute sec date = date\<lparr>minute := sec sdiv 60 - sec sdiv 3600 * 60\<rparr>"

definition ComputeSecond :: "int \<Rightarrow> DateInfo \<Rightarrow> DateInfo" where
  "ComputeSecond sec date = date\<lparr>second := (sec - sec sdiv 3600 * 3600) smod 60\<rparr>"

text \<open>
  \<open>int sec = tv.tv_sec\<close> narrows, and adding eight hours may overflow, which is undefined.
\<close>

definition beijing_sec :: "int \<Rightarrow> int cxx" where
  "beijing_sec tv_sec =
     (let sec = to_int32 tv_sec in
      if sec + 3600 * BJTIME < 2 ^ 31 then Inr (sec + 3600 * BJTIME) else Inl Undefined_Behaviour)"

text \<open>\<open>internal::Date::HumanDate\<close> of logging.cc: every field is recomputed, the table \<open>m\<close> is static.\<close>

definition HumanDate :: "int \<times> int \<Rightarrow> int list \<Rightarrow> DateInfo \<Rightarrow> (int list \<times> DateInfo) cxx" where
  "HumanDate tv m date =
     cxx_bind (beijing_sec (fst tv)) (\<lambda>sec.
       let date = date\<lparr>usecond := snd tv\<rparr>;
           (m, date) = ComputeYearMonthDay m sec date;
           date = ComputeHour sec date;
           date = ComputeMinute sec date;
           date = ComputeSecond sec date
       in Inr (m, date))"

text \<open>\<open>Date::HumanDate\<close> of date.h: a field is recomputed on its boundary or when it is unset.\<close>

definition HumanDate_lazy :: "int \<times> int \<Rightarrow> DateInfo \<Rightarrow> DateInfo cxx" where
  "HumanDate_lazy tv date =
     cxx_bind (beijing_sec (fst tv)) (\<lambda>sec.
       let date = date\<lparr>usecond := snd tv\<rparr>;
           date = (if sec smod DAY = 0 \<or> year date = 0
                   then snd (ComputeYearMonthDay month_table sec date) else date);
           date = (if sec smod 3600 = 0 \<or> hour date = -1 then ComputeHour sec date else date);
           date = (if sec smod 60 = 0 \<or> minute date = -1 then ComputeMinute sec date else date)
       in Inr (ComputeSecond sec date))"

section \<open>The time of day\<close>

lemma compute_hour_nonneg: "0 \<le> sec \<Longrightarrow> hour (ComputeHour sec d) = sec div 3600 mod 24"
  by (simp add: ComputeHour_def sdiv_nonneg smod_nonneg)

lemma div_3600: "(sec::int) div 3600 = sec div 60 div 60"
  by (simp flip: zdiv_zmult2_eq)

lemma compute_minute_nonneg: "0 \<le> sec \<Longrightarrow> minute (ComputeMinute sec d) = sec div 60 mod 60"
  by (simp add: ComputeMinute_def sdiv_nonneg div_3600 minus_div_mult_eq_mod)

lemma compute_second_nonneg: "0 \<le> sec \<Longrightarrow> second (ComputeSecond sec d) = sec mod 60"
proof -
  assume s: "0 \<le> sec"
  have "second (ComputeSecond sec d) = sec mod 3600 smod 60"
    using s by (simp add: ComputeSecond_def sdiv_nonneg minus_div_mult_eq_mod)
  also have "\<dots> = sec mod 3600 mod 60" by (simp add: smod_nonneg)
  also have "\<dots> = sec mod 60" by (rule mod_mod_cancel) simp
  finally show ?thesis .
qed

text \<open>The time of day a date shows, in seconds since midnight.\<close>

definition time_of_day :: "DateInfo \<Rightarrow> int" where
  "time_of_day d = hour d * 3600 + minute d * 60 + second d"

definition hms_valid :: "DateInfo \<Rightarrow> bool" where
  "hms_valid d \<longleftrightarrow> 0 \<le> hour d \<and> hour d < 24 \<and> 0 \<le> minute d \<and> minute d < 60 \<and> 0 \<le> second d \<and> second d < 60"

lemma ComputeYearMonthDay_frame:
  "hour (snd (ComputeYearMonthDay m sec d)) = hour d"
  "minute (snd (ComputeYearMonthDay m sec d)) = minute d"
  "second (snd (ComputeYearMonthDay m sec d)) = second d"
  "usecond (snd (ComputeYearMonthDay m sec d)) = usecond d"
  by (simp_all add: ComputeYearMonthDay_def Let_def split: prod.split)

lemma hms_arith:
  "sec div 3600 mod 24 * 3600 + sec div 60 mod 60 * 60 + sec mod 60 = sec mod (86400::int)"
proof -
  define q where "q = sec div 60"
  have "sec div 3600 = q div 60" by (simp add: q_def div_3600)
  moreover have "sec mod 86400 = sec mod 60 + 60 * (q mod 1440)"
    using zmod_zmult2_eq [of 1440 sec 60] by (simp add: q_def)
  moreover have "q mod 1440 = q mod 60 + 60 * (q div 60 mod 24)"
    using zmod_zmult2_eq [of 24 q 60] by simp
  ultimately show ?thesis by (simp flip: q_def)
qed

text \<open>
  The date that logging.cc computes shows the Beijing time of day exactly: valid hour,
  minute and second, together the seconds since local midnight.
\<close>

lemma HumanDate_time_of_day:
  assumes "0 \<le> t" "t + 28800 < 2 ^ 31"
  shows "\<exists>m' d'. HumanDate (t, us) m d = Inr (m', d') \<and> hms_valid d' \<and> usecond d' = us
     \<and> time_of_day d' = (t + 28800) mod 86400"
proof -
  define sec where "sec = t + 28800"
  have s: "0 \<le> sec" using assms(1) by (simp add: sec_def)
  have b: "beijing_sec t = Inr sec"
    using assms by (simp add: beijing_sec_def BJTIME_def sec_def)
  obtain m' d1 where c: "ComputeYearMonthDay m sec (d\<lparr>usecond := us\<rparr>) = (m', d1)"
    by (cases "ComputeYearMonthDay m sec (d\<lparr>usecond := us\<rparr>)")
  have u: "usecond d1 = us"
    using ComputeYearMonthDay_frame(4) [of m sec "d\<lparr>usecond := us\<rparr>"] c by simp
  define d' where "d' = ComputeSecond sec (ComputeMinute sec (ComputeHour sec d1))"
  have h: "HumanDate (t, us) m d = Inr (m', d')"
    by (simp add: HumanDate_def b c d'_def)
  have f: "hour d' = sec div 3600 mod 24" "minute d' = sec div 60 mod 60"
    "second d' = sec mod 60" "usecond d' = us"
    using compute_hour_nonneg [OF s, of d1] compute_minute_nonneg [OF s, of "ComputeHour sec d1"]
      compute_second_nonneg [OF s, of "ComputeMinute sec (ComputeHour sec d1)"] u
    by (simp_all add: d'_def ComputeSecond_def ComputeMinute_def ComputeHour_def)
  then have "hms_valid d'" "time_of_day d' = sec mod 86400"
    by (simp_all add: hms_valid_def time_of_day_def hms_arith)
  with h f(4) show ?thesis unfolding sec_def by blast
qed

lemma HumanDate_time_of_day_witness:
  "\<exists>m' d'. HumanDate (1000000000, 5) month_table DateInfo_new = Inr (m', d') \<and> hms_valid d'
     \<and> usecond d' = 5 \<and> time_of_day d' = (1000000000 + 28800) mod 86400"
  by (rule HumanDate_time_of_day) simp_all

section \<open>The reference calendar\<close>

definition leap :: "int \<Rightarrow> bool" where
  "leap y \<longleftrightarrow> y mod 4 = 0 \<and> (y mod 100 \<noteq> 0 \<or> y mod 400 = 0)"

definition year_len :: "int \<Rightarrow> int" where
  "year_len y = (if leap y then 366 else 365)"

text \<open>The days from 1 January 2001 to 1 January of year \<open>2001 + n\<close>.\<close>

fun days_since_2001 :: "nat \<Rightarrow> int" where
  "days_since_2001 0 = 0"
| "days_since_2001 (Suc n) = days_since_2001 n + year_len (2001 + int n)"

definition month_lens :: "int \<Rightarrow> int list" where
  "month_lens y = [31, if leap y then 29 else 28, 31, 30, 31, 30, 31, 31, 30, 31, 30, 31]"

text \<open>Month and day of a 0-based day of the year, walking along the month lengths.\<close>

fun civil_from :: "int list \<Rightarrow> int \<Rightarrow> int \<Rightarrow> int \<times> int" where
  "civil_from [] mo d = (mo, d + 1)"
| "civil_from (l # ls) mo d = (if d < l then (mo, d + 1) else civil_from ls (mo + 1) (d - l))"

definition civil :: "int \<Rightarrow> int \<Rightarrow> int \<times> int" where
  "civil y doy = civil_from (month_lens y) 1 doy"

text \<open>The local second \<open>tod\<close> of day \<open>doy\<close> of the year \<open>2001 + n\<close>.\<close>

definition local_sec :: "nat \<Rightarrow> int \<Rightarrow> int \<Rightarrow> int" where
  "local_sec n doy tod = (11323 + days_since_2001 n + doy) * 86400 + tod"

lemma days_since_2001_ge: "365 * int n \<le> days_since_2001 n"
  by (induction n) (simp_all add: year_len_def)

lemma leap_before_2100: "n < 99 \<Longrightarrow> leap (2001 + int n) \<longleftrightarrow> n mod 4 = 3"
proof -
  assume "n < 99"
  then have "(2001 + int n) mod 100 \<noteq> 0" by presburger
  moreover have "(2001 + int n) mod 4 = 0 \<longleftrightarrow> n mod 4 = 3" by presburger
  ultimately show ?thesis by (simp add: leap_def)
qed

lemma days_since_2001_eq: "n \<le> 99 \<Longrightarrow> days_since_2001 n = 365 * int n + int (n div 4)"
proof (induction n)
  case (Suc n)
  then show ?case by (simp add: year_len_def leap_before_2100) presburger
qed simp

section \<open>What the code computes\<close>

text \<open>The loop walks along the month lengths from the second one on: it skips January.\<close>

lemma month_loop_civil:
  "length m = 12 \<Longrightarrow> i \<le> 12 \<Longrightarrow> month_loop m i dd = (mo, r) \<Longrightarrow>
    civil_from (drop i m) (int i) dd = (int mo, r + 1)"
proof (induction m i dd rule: month_loop.induct)
  case (1 m i dd)
  show ?case
  proof (cases "i < 12")
    case True
    then have "drop i m = m ! i # drop (Suc i) m"
      using 1 by (simp add: Cons_nth_drop_Suc)
    with True 1 show ?thesis
      by (cases "dd - m ! i < 0") (simp_all add: month_loop.simps [of m i] add.commute)
  next
    case False
    then have "month_loop m i dd = (i, dd)" by (subst month_loop.simps) simp
    with False 1 show ?thesis by simp
  qed
qed

lemma ComputeYearMonthDay_day:
  assumes "sec div 86400 = 11323 + ad" "0 \<le> ad" "ad < 36524" "length m = 12"
  defines "yy \<equiv> ad div 1461 * 4 + ad mod 1461 div 365 + 2001"
  shows "\<exists>d'. ComputeYearMonthDay m sec d = (set_leap m yy, d') \<and> year d' = yy
    \<and> (month d', day d') = civil_from (drop 1 (set_leap m yy)) 1 (ad mod 1461 mod 365)"
proof -
  have "0 \<le> sec" using assms(1,2) by (smt (verit) div_neg_pos_less0)
  then have a: "sec sdiv 86400 = 11323 + ad" using assms(1) by (simp add: sdiv_nonneg)
  have y4: "ad sdiv 164097 = 0" using assms(2,3) by (simp add: sdiv_nonneg)
  have y1: "ad sdiv 36524 = 0" using assms(2,3) by (simp add: sdiv_nonneg)
  have y004: "ad sdiv 1461 = ad div 1461" using assms(2) by (simp add: sdiv_nonneg)
  have rem: "ad - ad div 1461 * 1461 = ad mod 1461" by (simp add: minus_div_mult_eq_mod)
  have y001: "ad mod 1461 sdiv 365 = ad mod 1461 div 365" by (simp add: sdiv_nonneg)
  have dd: "ad mod 1461 smod 365 = ad mod 1461 mod 365" by (simp add: smod_nonneg)
  obtain i r where l: "month_loop (set_leap m yy) 1 (ad mod 1461 mod 365) = (i, r)"
    by (cases "month_loop (set_leap m yy) 1 (ad mod 1461 mod 365)")
  have len: "length (set_leap m yy) = 12" using assms(4) by (simp add: set_leap_def)
  have "ComputeYearMonthDay m sec d =
      (set_leap m yy, d\<lparr>year := yy, month := int i, day := r + 1\<rparr>)"
    using l unfolding yy_def
    by (simp add: ComputeYearMonthDay_def Let_def date_consts a y4 y1 y004 rem y001 dd)
  with month_loop_civil [OF len _ l] show ?thesis by simp
qed

lemma year_of_day:
  assumes "n < 99" "0 \<le> doy" "doy < year_len (2001 + int n)"
  defines "ad \<equiv> days_since_2001 n + doy"
  shows "ad div 1461 * 4 + ad mod 1461 div 365 + 2001 = 2001 + int n + (if doy = 365 then 1 else 0)"
    and "ad mod 1461 mod 365 = (if doy = 365 then 0 else doy)"
proof -
  define a b where "a = int (n div 4)" and "b = int (n mod 4)"
  have n: "int n = 4 * a + b" "0 \<le> b" "b \<le> 3" unfolding a_def b_def by presburger+
  have leap: "leap (2001 + int n) \<longleftrightarrow> b = 3"
    using leap_before_2100 [OF assms(1)] unfolding b_def by auto
  have ad: "ad = 1461 * a + (365 * b + doy)"
    using days_since_2001_eq [of n] assms(1) n(1) by (simp add: ad_def a_def)
  have r: "0 \<le> 365 * b + doy" "365 * b + doy < 1461"
    using assms(2,3) n(2,3) leap by (auto simp: year_len_def split: if_splits)
  have d: "ad div 1461 = a" "ad mod 1461 = 365 * b + doy"
    using r by (simp_all add: ad)
  have x: "doy < 365 \<or> doy = 365 \<and> b = 3"
    using assms(3) leap by (auto simp: year_len_def split: if_splits)
  show "ad div 1461 * 4 + ad mod 1461 div 365 + 2001 = 2001 + int n + (if doy = 365 then 1 else 0)"
    using x assms(2) by (auto simp: d n(1))
  show "ad mod 1461 mod 365 = (if doy = 365 then 0 else doy)"
    using x assms(2) by (auto simp: d)
qed

lemma local_sec_bounds:
  assumes "0 \<le> doy" "0 \<le> tod" "tod < 86400" "local_sec n doy tod < 2 ^ 31"
  shows "local_sec n doy tod div 86400 = 11323 + (days_since_2001 n + doy)"
    and "0 \<le> days_since_2001 n + doy" "days_since_2001 n + doy < 13533" "n < 99"
proof -
  have "tod div 86400 = 0" using assms(2,3) by (rule div_pos_pos_trivial)
  moreover have "(x * 86400 + tod) div 86400 = x + tod div 86400" for x :: int
    by (rule div_mult_self3) simp
  ultimately have "(x * 86400 + tod) div 86400 = x" for x :: int
    by (simp only: add_0_right)
  then show "local_sec n doy tod div 86400 = 11323 + (days_since_2001 n + doy)"
    by (simp only: local_sec_def add.assoc)
  show "0 \<le> days_since_2001 n + doy" using days_since_2001_ge [of n] assms(1) by simp
  show b: "days_since_2001 n + doy < 13533"
    using assms(2,4) unfolding local_sec_def by simp
  show "n < 99" using b days_since_2001_ge [of n] assms(1) by simp
qed

lemma set_leap_table:
  assumes "2001 \<le> y" "y < 2100"
  shows "set_leap month_table y = month_lens y"
proof -
  have y: "y = (y - 2000) + 2 * 1000" "y = (y - 2000) + 20 * 100" by simp_all
  have "y mod 1000 = (y - 2000) mod 1000" "y mod 100 = (y - 2000) mod 100"
    by (subst y(1), rule mod_mult_self1) (subst y(2), rule mod_mult_self1)
  then have "y mod 1000 \<noteq> 0" "y mod 100 \<noteq> 0" using assms by simp_all
  with assms show ?thesis
    by (simp add: set_leap_def month_lens_def leap_def month_table_def smod_nonneg)
qed

text \<open>The days whose month and day the code gets right: see the next theorem.\<close>

definition shown_right :: "int \<Rightarrow> int \<times> int \<Rightarrow> bool" where
  "shown_right y = (\<lambda>(mo, d). mo \<in> {1, 3, 5, 7, 8, 10, 12} \<and> (mo = 12 \<or> d \<le> month_lens y ! nat mo))"

lemma skip_january:
  assumes "0 \<le> doy" "doy < 365"
  shows "civil_from (drop 1 (month_lens y)) 1 doy = civil y doy \<longleftrightarrow> shown_right y (civil y doy)"
  using assms by (auto simp: civil_def month_lens_def shown_right_def)

text \<open>
  The year that \<open>ComputeYearMonthDay\<close> computes for a local second from 2001 to the end of
  the 32-bit range is the Gregorian year, except on the last day of a leap year, where it is
  already the next one.
\<close>

lemma year_correct:
  assumes "0 \<le> doy" "doy < year_len (2001 + int n)" "0 \<le> tod" "tod < 86400"
    and "local_sec n doy tod < 2 ^ 31" and "length m = 12"
  shows "year (snd (ComputeYearMonthDay m (local_sec n doy tod) d)) =
    2001 + int n + (if doy = 365 then 1 else 0)"
proof -
  note b = local_sec_bounds [OF assms(1,3,4,5)]
  show ?thesis
    using ComputeYearMonthDay_day [OF b(1,2) _ assms(6), of d] b(3) year_of_day(1) [OF b(4) assms(1,2)]
    by auto
qed

lemma year_correct_witness:
  "year (snd (ComputeYearMonthDay month_table (local_sec 3 365 0) DateInfo_new)) = 2005"
  by (subst year_correct) (simp_all add: year_len_def leap_def local_sec_def eval_nat_numeral
      month_table_def)

text \<open>
  C31. With the initial month table the shown date is the Gregorian date exactly on the days
  of January, March, May, July, August, October and December up to the length of the following
  month (and not on the last day of a leap year): the loop over the months starts at the second
  entry of the table, so it walks along the lengths of the wrong months.
\<close>

theorem date_correct_iff:
  assumes "0 \<le> doy" "doy < year_len (2001 + int n)" "0 \<le> tod" "tod < 86400"
    and "local_sec n doy tod < 2 ^ 31"
  shows "(let d' = snd (ComputeYearMonthDay month_table (local_sec n doy tod) d) in
      year d' = 2001 + int n \<and> (month d', day d') = civil (2001 + int n) doy) \<longleftrightarrow>
    doy < 365 \<and> shown_right (2001 + int n) (civil (2001 + int n) doy)"
proof -
  note b = local_sec_bounds [OF assms(1,3,4,5)]
  have len: "length month_table = 12" by (simp add: month_table_def)
  note y = year_of_day [OF b(4) assms(1,2)]
  show ?thesis
  proof (cases "doy = 365")
    case True
    then show ?thesis using year_correct [OF assms len, of d] by simp
  next
    case False
    then have lt: "doy < 365" using assms(2) by (auto simp: year_len_def split: if_splits)
    have tab: "set_leap month_table (2001 + int n) = month_lens (2001 + int n)"
      using b(4) by (intro set_leap_table) simp_all
    have "\<exists>d'. ComputeYearMonthDay month_table (local_sec n doy tod) d = (month_lens (2001 + int n), d')
      \<and> year d' = 2001 + int n \<and> (month d', day d') = civil_from (drop 1 (month_lens (2001 + int n))) 1 doy"
      using ComputeYearMonthDay_day [OF b(1,2) _ len, of d] b(3) y False tab by simp
    with skip_january [OF assms(1) lt, of "2001 + int n"] lt show ?thesis by (auto simp: Let_def)
  qed
qed

lemma date_correct_iff_witness:
  "(let d' = snd (ComputeYearMonthDay month_table (local_sec 17 90 0) DateInfo_new) in
      year d' = 2018 \<and> (month d', day d') = civil 2018 90) \<longleftrightarrow>
    (90::int) < 365 \<and> shown_right 2018 (civil 2018 90)"
  using date_correct_iff [of 90 17 0 DateInfo_new]
  by (simp add: year_len_def leap_def local_sec_def eval_nat_numeral)

text \<open>
  The static month table of logging.cc keeps the leap-day entry once a date of a leap year
  has been computed. From then on 1 March of a common year is shown as 31 February.
\<close>

lemma static_table_sticks:
  assumes "0 \<le> doy" "doy < 365" "leap (2001 + int l)" "0 \<le> tod" "tod < 86400"
    and "local_sec l doy tod < 2 ^ 31"
    and "\<not> leap (2001 + int n)" "0 \<le> tod'" "tod' < 86400" "local_sec n 59 tod' < 2 ^ 31"
  shows "let m = fst (ComputeYearMonthDay month_table (local_sec l doy tod) d);
             d' = snd (ComputeYearMonthDay m (local_sec n 59 tod') d)
         in civil (2001 + int n) 59 = (3, 1) \<and> (month d', day d') = (2, 31)"
proof -
  define t where "t = month_table[1 := 29]"
  have len: "length month_table = 12" "length t = 12" by (simp_all add: month_table_def t_def)
  have d1: "doy < year_len (2001 + int l)" using assms(2) by (simp add: year_len_def)
  note b = local_sec_bounds [OF assms(1,4,5,6)]
  have "fst (ComputeYearMonthDay month_table (local_sec l doy tod) d) =
      set_leap month_table (2001 + int l)"
    using ComputeYearMonthDay_day [OF b(1,2) _ len(1), of d] b(3) year_of_day [OF b(4) assms(1) d1]
      assms(2) by auto
  also have "\<dots> = month_lens (2001 + int l)" using b(4) by (intro set_leap_table) simp_all
  also have "\<dots> = t" using assms(3) by (simp add: t_def month_lens_def month_table_def)
  finally have m: "fst (ComputeYearMonthDay month_table (local_sec l doy tod) d) = t" .
  have d2: "(59::int) < year_len (2001 + int n)" by (simp add: year_len_def)
  have "0 \<le> (59::int)" by simp
  note b' = local_sec_bounds [OF this assms(8,9,10)]
  have keep: "set_leap t y = t" for y by (simp add: set_leap_def t_def)
  have "(month d', day d') = (2, 31)"
    if "d' = snd (ComputeYearMonthDay t (local_sec n 59 tod') d)" for d'
    using ComputeYearMonthDay_day [OF b'(1,2) _ len(2), of d] b'(3) keep that
      year_of_day [OF b'(4) _ d2]
    by (auto simp: t_def month_table_def)
  moreover have "civil (2001 + int n) 59 = (3, 1)"
    using assms(7) by (simp add: civil_def month_lens_def)
  ultimately show ?thesis by (simp add: Let_def m)
qed

lemma static_table_sticks_witness:
  "let m = fst (ComputeYearMonthDay month_table (local_sec 15 0 0) DateInfo_new);
       d' = snd (ComputeYearMonthDay m (local_sec 16 59 7) DateInfo_new)
   in civil 2017 59 = (3, 1) \<and> (month d', day d') = (2, 31)"
  using static_table_sticks [of 0 15 0 16 7 DateInfo_new]
  by (simp add: year_len_def leap_def local_sec_def eval_nat_numeral)

section \<open>The lazy update of base/date.h\<close>

text \<open>
  When a date of date.h has been filled once, a later call that does not fall on a full
  minute changes only the seconds and microseconds: the shown minute, hour and day stay those
  of the earlier call, however long ago it was.
\<close>

lemma HumanDate_lazy_stale:
  assumes "year d \<noteq> 0" "hour d \<noteq> -1" "minute d \<noteq> -1"
    and "0 \<le> t" "t + 28800 < 2 ^ 31" "t mod 60 \<noteq> 0"
  shows "HumanDate_lazy (t, us) d = Inr (d\<lparr>usecond := us, second := t mod 60\<rparr>)"
proof -
  define sec where "sec = t + 28800"
  have s: "0 \<le> sec" using assms(4) by (simp add: sec_def)
  have b: "beijing_sec t = Inr sec"
    using assms by (simp add: beijing_sec_def BJTIME_def sec_def)
  have m: "sec mod 60 = t mod 60"
  proof -
    have "sec = t + 480 * 60" by (simp add: sec_def)
    then show ?thesis by (simp only: mod_mult_self1)
  qed
  have div: "sec mod 60 = 0" if "sec mod k = 0" "60 dvd k" for k
    using that by (metis mod_0 mod_mod_cancel)
  have "sec smod DAY \<noteq> 0" "sec smod 3600 \<noteq> 0" "sec smod 60 \<noteq> 0"
    using s m assms(6) div [of 86400] div [of 3600]
    by (auto simp: smod_nonneg DAY_def)
  moreover have "ComputeSecond sec x = x\<lparr>second := t mod 60\<rparr>" for x
    using compute_second_nonneg [OF s, of x] m by (simp add: ComputeSecond_def)
  ultimately show ?thesis
    using assms(1-3) by (simp add: HumanDate_lazy_def b)
qed

lemma HumanDate_lazy_stale_witness:
  "HumanDate_lazy (86399, 0) (DateInfo_new\<lparr>year := 2001, hour := 8, minute := 0\<rparr>) =
    Inr (DateInfo_new\<lparr>year := 2001, hour := 8, minute := 0, usecond := 0, second := 59\<rparr>)"
  by (subst HumanDate_lazy_stale) simp_all

end
