(* ===== verification/Shared_Array.thy ===== *)
theory Shared_Array
  imports Decimal
begin

text \<open>
  The zero-copy array \<open>SArray\<close> of base/sarray.h. The model has an explicit store, because what
  matters is the aliasing: a block of memory is a list of cells (a cell that was never written
  holds \<open>None\<close>), an \<open>SArray\<close> object is a pointer into a block with a size and a capacity, and the
  operations take the names of the objects they are called on, so that \<open>a.append(a)\<close> and
  \<open>a.append(b)\<close> with \<open>b\<close> sharing \<open>a\<close>'s memory are two different calls.

  \<open>shared_ptr\<close> keeps a block alive while an object that owns it points into it, so an object never
  points into a released block, and blocks are not reused here; a reference to an element can
  outlive its block. Reading or writing outside a block, or through a null pointer, is undefined, and
  so is a \<open>memcpy\<close> between overlapping ranges; a \<open>memcpy\<close> or \<open>memset\<close> of no element is
  a no-operation. The arguments of the operations are of type \<open>size_t\<close>, and what the code computes
  from them wraps around as there.

  \<open>owner\<close>: the deleter of the pointer releases the block (arrays made from the caller's memory need
  not own it). The names of all objects are below \<open>n_objs\<close>.
\<close>

record sarray =
  ptr :: "(nat \<times> nat) option"
  size_of :: nat
  capacity :: nat
  owner :: bool

record 'v store =
  blocks :: "nat \<Rightarrow> 'v option list"
  fresh :: nat
  objs :: "nat \<Rightarrow> sarray"
  n_objs :: nat

definition empty_array :: sarray where
  "empty_array = \<lparr>ptr = None, size_of = 0, capacity = 0, owner = False\<rparr>"

section \<open>Memory\<close>

definition set_obj :: "'v store \<Rightarrow> nat \<Rightarrow> sarray \<Rightarrow> 'v store" where
  "set_obj st i a = st\<lparr>objs := (objs st)(i := a)\<rparr>"

text \<open>\<open>new V[n]\<close>: more elements than any address space has room for are refused.\<close>

definition new_block :: "'v store \<Rightarrow> nat \<Rightarrow> ('v store \<times> nat) cxx" where
  "new_block st n =
     (if n < 2 ^ 62
      then Inr (st\<lparr>blocks := (blocks st)(fresh st := replicate n None), fresh := fresh st + 1\<rparr>, fresh st)
      else Inl (Exception ''std::bad_alloc''))"

definition read_cells :: "'v store \<Rightarrow> (nat \<times> nat) option \<Rightarrow> nat \<Rightarrow> 'v option list cxx" where
  "read_cells st p n =
     (if n = 0 then Inr []
      else case p of
        None \<Rightarrow> Inl Undefined_Behaviour
      | Some (b, off) \<Rightarrow>
          if off + n \<le> length (blocks st b) then Inr (take n (drop off (blocks st b)))
          else Inl Undefined_Behaviour)"

definition overwrite :: "'a list \<Rightarrow> nat \<Rightarrow> 'a list \<Rightarrow> 'a list" where
  "overwrite xs off ys = take off xs @ ys @ drop (off + length ys) xs"

definition write_cells :: "'v store \<Rightarrow> (nat \<times> nat) option \<Rightarrow> 'v option list \<Rightarrow> 'v store cxx" where
  "write_cells st p vs =
     (if vs = [] then Inr st
      else case p of
        None \<Rightarrow> Inl Undefined_Behaviour
      | Some (b, off) \<Rightarrow>
          if off + length vs \<le> length (blocks st b)
          then Inr (st\<lparr>blocks := (blocks st)(b := overwrite (blocks st b) off vs)\<rparr>)
          else Inl Undefined_Behaviour)"

definition shift :: "(nat \<times> nat) option \<Rightarrow> nat \<Rightarrow> (nat \<times> nat) option" where
  "shift p k = map_option (\<lambda>(b, off). (b, off + k)) p"

definition overlap :: "(nat \<times> nat) option \<Rightarrow> (nat \<times> nat) option \<Rightarrow> nat \<Rightarrow> bool" where
  "overlap p q n = (case (p, q) of
     (Some (b, i), Some (c, j)) \<Rightarrow> b = c \<and> i < j + n \<and> j < i + n
   | _ \<Rightarrow> False)"

definition memcpy :: "'v store \<Rightarrow> (nat \<times> nat) option \<Rightarrow> (nat \<times> nat) option \<Rightarrow> nat \<Rightarrow> 'v store cxx" where
  "memcpy st dest src n =
     cxx_bind (read_cells st src n) (\<lambda>vs.
       if n \<noteq> 0 \<and> overlap dest src n then Inl Undefined_Behaviour else write_cells st dest vs)"

section \<open>Operations\<close>

text \<open>\<open>reset(data, size, del)\<close>; \<open>del\<close>: whether the deleter releases the block.\<close>

definition reset :: "'v store \<Rightarrow> nat \<Rightarrow> (nat \<times> nat) option \<Rightarrow> nat \<Rightarrow> bool \<Rightarrow> 'v store" where
  "reset st i data n del = set_obj st i \<lparr>ptr = data, size_of = n, capacity = n, owner = del\<rparr>"

text \<open>\<open>val == 0\<close> fills with \<open>memset\<close>, any other value with a loop.\<close>

definition fill :: "'v store \<Rightarrow> (nat \<times> nat) option \<Rightarrow> nat \<Rightarrow> 'v::zero \<Rightarrow> 'v store cxx" where
  "fill st p n val =
     (if val = 0 then write_cells st p (replicate n (Some 0))
      else write_cells st p (replicate n (Some val)))"

definition resize :: "'v::zero store \<Rightarrow> nat \<Rightarrow> nat \<Rightarrow> 'v \<Rightarrow> 'v store cxx" where
  "resize st i n val =
     (let a = objs st i; cur_n = size_of a in
      cxx_bind
        (if n \<le> capacity a then Inr (set_obj st i (a\<lparr>size_of := n\<rparr>))
         else cxx_bind (new_block st (to_uint64 (int (n + 5)))) (\<lambda>(st1, b).
              cxx_bind (memcpy st1 (Some (b, 0)) (ptr a) (size_of a)) (\<lambda>st2.
                Inr (reset st2 i (Some (b, 0)) n True))))
        (\<lambda>st'. if n \<le> cur_n then Inr st'
               else fill st' (shift (ptr (objs st' i)) cur_n) (n - cur_n) val))"

definition reserve :: "'v::zero store \<Rightarrow> nat \<Rightarrow> nat \<Rightarrow> 'v store cxx" where
  "reserve st i n =
     (if n \<le> capacity (objs st i) then Inr st
      else let old_size = size_of (objs st i) in
           cxx_bind (resize st i n 0) (\<lambda>st'.
             Inr (set_obj st' i ((objs st' i)\<lparr>size_of := old_size\<rparr>))))"

definition clear :: "'v store \<Rightarrow> nat \<Rightarrow> 'v store" where
  "clear st i = reset st i None 0 False"

text \<open>
  \<open>push_back\<close> takes a reference: to a temporary, or to a cell, which is read only after the array has
  grown. If the cell was in the block that the array had and no other object owns that, it is gone.
\<close>

datatype 'v reference = Temporary 'v | Cell nat nat

fun referenced :: "'v store \<Rightarrow> 'v reference \<Rightarrow> 'v option cxx" where
  "referenced st (Temporary v) = Inr (Some v)"
| "referenced st (Cell b off) = cxx_bind (read_cells st (Some (b, off)) 1) (\<lambda>vs. Inr (hd vs))"

definition owns :: "sarray \<Rightarrow> nat \<Rightarrow> bool" where
  "owns a b \<longleftrightarrow> owner a \<and> map_option fst (ptr a) = Some b"

definition released :: "'v store \<Rightarrow> 'v store \<Rightarrow> nat \<Rightarrow> nat \<Rightarrow> bool" where
  "released st st' i b \<longleftrightarrow> owns (objs st i) b \<and> \<not> owns (objs st' i) b
     \<and> \<not> (\<exists>j < n_objs st'. j \<noteq> i \<and> owns (objs st' j) b)"

fun dangling :: "'v store \<Rightarrow> 'v store \<Rightarrow> nat \<Rightarrow> 'v reference \<Rightarrow> bool" where
  "dangling st st' i (Temporary v) = False"
| "dangling st st' i (Cell b off) = released st st' i b"

definition push_back :: "'v::zero store \<Rightarrow> nat \<Rightarrow> 'v reference \<Rightarrow> 'v store cxx" where
  "push_back st i val =
     (let a = objs st i in
      cxx_bind (if size_of a = capacity a then reserve st i (to_uint64 (int (size_of a * 2 + 5))) else Inr st) (\<lambda>st'.
        let a' = objs st' i in
        if dangling st st' i val then Inl Undefined_Behaviour
        else cxx_bind (referenced st' val) (\<lambda>v.
          cxx_bind (write_cells st' (shift (ptr a') (size_of a')) [v]) (\<lambda>st''.
            Inr (set_obj st'' i (a'\<lparr>size_of := size_of a' + 1\<rparr>))))))"

definition pop_back :: "'v store \<Rightarrow> nat \<Rightarrow> 'v store" where
  "pop_back st i =
     (let a = objs st i in
      if size_of a \<noteq> 0 then set_obj st i (a\<lparr>size_of := size_of a - 1\<rparr>) else st)"

text \<open>\<open>append\<close>: \<open>arr\<close> is a reference, so its size is read again after the array was resized.\<close>

definition append_array :: "'v::zero store \<Rightarrow> nat \<Rightarrow> nat \<Rightarrow> 'v store cxx" where
  "append_array st i j =
     (if size_of (objs st j) = 0 then Inr st
      else let orig_size = size_of (objs st i) in
           cxx_bind (resize st i (to_uint64 (int (size_of (objs st i) + size_of (objs st j)))) 0) (\<lambda>st'.
             memcpy st' (shift (ptr (objs st' i)) orig_size) (ptr (objs st' j))
               (size_of (objs st' j))))"

text \<open>
  \<open>CopyFrom\<close> of a C array (the elements at \<open>data\<close>), of another array, and of a range. The length
  of the range is converted to \<open>int\<close>; \<open>new\<close> with a negative size throws.
\<close>

definition CopyFrom_data :: "'v::zero store \<Rightarrow> nat \<Rightarrow> (nat \<times> nat) option \<Rightarrow> nat \<Rightarrow> 'v store cxx" where
  "CopyFrom_data st i data n =
     cxx_bind (resize st i n 0) (\<lambda>st'. memcpy st' (ptr (objs st' i)) data n)"

definition CopyFrom :: "'v::zero store \<Rightarrow> nat \<Rightarrow> nat \<Rightarrow> 'v store cxx" where
  "CopyFrom st i other =
     (if i = other then Inr st
      else CopyFrom_data st i (ptr (objs st other)) (size_of (objs st other)))"

definition CopyFrom_range :: "'v store \<Rightarrow> nat \<Rightarrow> 'v list \<Rightarrow> 'v store cxx" where
  "CopyFrom_range st i vs =
     (let n = to_int32 (int (length vs)) in
      if n < 0 then Inl (Exception ''std::bad_array_new_length'')
      else cxx_bind (new_block st (nat n)) (\<lambda>(st1, b).
             write_cells (reset st1 i (Some (b, 0)) (nat n) True) (Some (b, 0)) (map Some (take (nat n) vs))))"

text \<open>
  Constructors: a sized array, a copy of a vector whose elements are at \<open>data\<close>, the elements of a
  shared vector, an initializer list, a view of existing memory, and the implicit copy.
\<close>

definition SArray_sized :: "'v::zero store \<Rightarrow> nat \<Rightarrow> nat \<Rightarrow> 'v \<Rightarrow> 'v store cxx" where
  "SArray_sized st i n val = resize (set_obj st i empty_array) i n val"

definition SArray_vector :: "'v::zero store \<Rightarrow> nat \<Rightarrow> (nat \<times> nat) option \<Rightarrow> nat \<Rightarrow> 'v store cxx" where
  "SArray_vector st i data n = CopyFrom_data (set_obj st i empty_array) i data n"

definition SArray_shared_vector :: "'v store \<Rightarrow> nat \<Rightarrow> (nat \<times> nat) option \<Rightarrow> nat \<Rightarrow> 'v store" where
  "SArray_shared_vector st i data n = set_obj st i \<lparr>ptr = data, size_of = n, capacity = n, owner = True\<rparr>"

definition SArray_list :: "'v store \<Rightarrow> nat \<Rightarrow> 'v list \<Rightarrow> 'v store cxx" where
  "SArray_list st i vs = CopyFrom_range (set_obj st i empty_array) i vs"

definition assign_list :: "'v store \<Rightarrow> nat \<Rightarrow> 'v list \<Rightarrow> 'v store cxx" where
  "assign_list st i vs = CopyFrom_range st i vs"

definition SArray_data :: "'v store \<Rightarrow> nat \<Rightarrow> (nat \<times> nat) option \<Rightarrow> nat \<Rightarrow> bool \<Rightarrow> 'v store" where
  "SArray_data st i data n deletable = reset st i data n deletable"

definition SArray_copy :: "'v store \<Rightarrow> nat \<Rightarrow> nat \<Rightarrow> 'v store" where
  "SArray_copy st i j = set_obj st i (objs st j)"

text \<open>The segment [begin, end); the bounds are not checked and the size is \<open>size_t\<close> arithmetic.\<close>

definition segment :: "'v store \<Rightarrow> nat \<Rightarrow> nat \<Rightarrow> nat \<Rightarrow> nat \<Rightarrow> 'v store" where
  "segment st ret i bgn end' =
     set_obj st ret \<lparr>ptr = shift (ptr (objs st i)) bgn,
                     size_of = to_uint64 (int end' - int bgn),
                     capacity = to_uint64 (int end' - int bgn), owner = owner (objs st i)\<rparr>"

text \<open>
  Element access: \<open>operator[]\<close> takes an \<open>int\<close> and is unchecked (in a segment a negative index names
  an element of the parent), \<open>back\<close> and \<open>front\<close> check for emptiness.
\<close>

definition offset :: "(nat \<times> nat) option \<Rightarrow> int \<Rightarrow> (nat \<times> nat) option" where
  "offset p k = (case p of
     None \<Rightarrow> None
   | Some (b, off) \<Rightarrow> if int off + k < 0 then None else Some (b, nat (int off + k)))"

definition index :: "'v store \<Rightarrow> nat \<Rightarrow> int \<Rightarrow> 'v option cxx" where
  "index st i k = cxx_bind (read_cells st (offset (ptr (objs st i)) k) 1) (\<lambda>vs. Inr (hd vs))"

definition index_set :: "'v store \<Rightarrow> nat \<Rightarrow> int \<Rightarrow> 'v \<Rightarrow> 'v store cxx" where
  "index_set st i k val = write_cells st (offset (ptr (objs st i)) k) [Some val]"

definition array_empty :: "'v store \<Rightarrow> nat \<Rightarrow> bool" where
  "array_empty st i \<longleftrightarrow> size_of (objs st i) = 0"

definition array_back :: "'v store \<Rightarrow> nat \<Rightarrow> 'v option cxx" where
  "array_back st i = (if \<not> array_empty st i then index st i (int (size_of (objs st i) - 1)) else Inl Terminated)"

definition array_front :: "'v store \<Rightarrow> nat \<Rightarrow> 'v option cxx" where
  "array_front st i = (if \<not> array_empty st i then index st i 0 else Inl Terminated)"

text \<open>
  \<open>operator=(const SArray<W>&)\<close>: size and capacity of an array of \<open>sizeof(W) = w\<close> byte elements
  seen as elements of \<open>sizeof(V) = v\<close> bytes, with \<open>size_t\<close> products; the check must hold.
\<close>

definition cast_sizes :: "nat \<Rightarrow> nat \<Rightarrow> nat \<Rightarrow> nat \<Rightarrow> (nat \<times> nat) cxx" where
  "cast_sizes w v arr_size arr_capacity =
     (let n = to_uint64 (int (arr_size * w)) div v in
      if to_uint64 (int (n * v)) = to_uint64 (int (arr_size * w))
      then Inr (n, to_uint64 (int (arr_capacity * w)) div v)
      else Inl Terminated)"

text \<open>\<open>DebugStr(data, n, m)\<close> on the elements of the array, printed by \<open>pr\<close>.\<close>

definition DebugStr :: "('v \<Rightarrow> string) \<Rightarrow> 'v list \<Rightarrow> nat \<Rightarrow> string" where
  "DebugStr pr data m =
     (let n = length data in
      ''['' @ dec_nat n @ '']: '' @
      (if n < 2 * m then concat (map (\<lambda>x. pr x @ '' '') data)
       else concat (map (\<lambda>x. pr x @ '' '') (take m data)) @ ''... '' @
            concat (map (\<lambda>x. pr x @ '' '') (drop (n - m) data))))"

section \<open>Well-formed stores and the sequence an array shows\<close>

definition wf_array :: "'v store \<Rightarrow> sarray \<Rightarrow> bool" where
  "wf_array st a \<longleftrightarrow> (case ptr a of
     None \<Rightarrow> size_of a = 0 \<and> capacity a = 0
   | Some (b, off) \<Rightarrow> b < fresh st \<and> size_of a \<le> capacity a \<and> off + capacity a \<le> length (blocks st b)
       \<and> length (blocks st b) < 2 ^ 62)"

definition wf_store :: "'v store \<Rightarrow> bool" where
  "wf_store st \<longleftrightarrow> (\<forall>i. wf_array st (objs st i))"

definition view :: "'v store \<Rightarrow> nat \<Rightarrow> 'v option list" where
  "view st i = (case ptr (objs st i) of
     None \<Rightarrow> []
   | Some (b, off) \<Rightarrow> take (size_of (objs st i)) (drop off (blocks st b)))"

lemma wf_arrayD: "wf_store st \<Longrightarrow> wf_array st (objs st i)"
  by (simp add: wf_store_def)

lemma wf_null:
  "wf_store st \<Longrightarrow> ptr (objs st i) = None \<Longrightarrow> size_of (objs st i) = 0 \<and> capacity (objs st i) = 0"
  by (drule wf_arrayD [of _ i]) (simp add: wf_array_def)

lemma wf_block:
  "wf_store st \<Longrightarrow> ptr (objs st i) = Some (b, off) \<Longrightarrow>
    b < fresh st \<and> size_of (objs st i) \<le> capacity (objs st i)
    \<and> off + capacity (objs st i) \<le> length (blocks st b) \<and> length (blocks st b) < 2 ^ 62"
  by (drule wf_arrayD [of _ i]) (simp add: wf_array_def)

lemma wf_size: "wf_store st \<Longrightarrow> size_of (objs st i) \<le> capacity (objs st i)"
  by (drule wf_arrayD [of _ i]) (auto simp: wf_array_def split: option.splits)

lemma wf_capacity: "wf_store st \<Longrightarrow> capacity (objs st i) < 2 ^ 62"
  by (drule wf_arrayD [of _ i]) (auto simp: wf_array_def split: option.splits)

lemma length_view [simp]: "wf_store st \<Longrightarrow> length (view st i) = size_of (objs st i)"
  by (drule wf_arrayD [of _ i]) (auto simp: wf_array_def view_def split: option.splits)

lemma length_overwrite [simp]:
  "off + length ys \<le> length xs \<Longrightarrow> length (overwrite xs off ys) = length xs"
  by (simp add: overwrite_def)

lemma take_drop_overwrite_before:
  "o' + n \<le> off \<Longrightarrow> off + length ys \<le> length xs \<Longrightarrow>
    take n (drop o' (overwrite xs off ys)) = take n (drop o' xs)"
  by (simp add: overwrite_def take_drop)

lemma take_drop_overwrite_after:
  "off + length ys \<le> o' \<Longrightarrow> off + length ys \<le> length xs \<Longrightarrow>
    drop o' (overwrite xs off ys) = drop o' xs"
  by (simp add: overwrite_def)

lemma take_drop_overwrite_end:
  assumes "off + n + length ys \<le> length xs"
  shows "take (n + length ys) (drop off (overwrite xs (off + n) ys)) = take n (drop off xs) @ ys"
  using assms by (cases "ys = []") (simp_all add: overwrite_def take_drop add.commute)

text \<open>Reading back what an object shows.\<close>

lemma read_view: "wf_store st \<Longrightarrow> read_cells st (ptr (objs st i)) (size_of (objs st i)) = Inr (view st i)"
  using wf_null [of st i] wf_block [of st i]
  by (auto simp: read_cells_def view_def split: option.splits)

lemma fill_eq: "fill st p n val = write_cells st p (replicate n (Some val))"
  by (simp add: fill_def)

text \<open>The effect of \<open>resize\<close> within the capacity and beyond it.\<close>

definition grow_result :: "'v store \<Rightarrow> nat \<Rightarrow> nat \<Rightarrow> 'v option list \<Rightarrow> 'v store" where
  "grow_result st i n cells =
     \<lparr>blocks = (blocks st)(fresh st := cells @ replicate 5 None), fresh = fresh st + 1,
      objs = (objs st)(i := \<lparr>ptr = Some (fresh st, 0), size_of = n, capacity = n, owner = True\<rparr>),
      n_objs = n_objs st\<rparr>"

text \<open>The sizes for which \<open>size + 5\<close> is a possible number of elements.\<close>

definition fits_memory :: "nat \<Rightarrow> bool" where
  "fits_memory n \<longleftrightarrow> n + 5 < 2 ^ 62"

lemma fits_memory_new:
  "fits_memory n \<Longrightarrow> to_uint64 (int (n + 5)) = n + 5"
  "fits_memory n \<Longrightarrow> new_block st (n + 5) =
     Inr (st\<lparr>blocks := (blocks st)(fresh st := replicate (n + 5) None), fresh := fresh st + 1\<rparr>, fresh st)"
proof -
  assume "fits_memory n"
  then have "n + 5 < 2 ^ 62" by (simp add: fits_memory_def)
  then show "to_uint64 (int (n + 5)) = n + 5" by (intro to_uint64_of_nat) simp
  from \<open>n + 5 < 2 ^ 62\<close> show "new_block st (n + 5) =
     Inr (st\<lparr>blocks := (blocks st)(fresh st := replicate (n + 5) None), fresh := fresh st + 1\<rparr>, fresh st)"
    by (simp add: new_block_def)
qed

lemma resize_grow:
  assumes wf: "wf_store st" and n: "capacity (objs st i) < n" and fit: "fits_memory n"
  shows "resize st i n val =
    Inr (grow_result st i n (view st i @ replicate (n - size_of (objs st i)) (Some val)))"
proof -
  define a where "a = objs st i"
  define st1 where "st1 = st\<lparr>blocks := (blocks st)(fresh st := replicate (n + 5) None), fresh := fresh st + 1\<rparr>"
  have nb: "new_block st (n + 5) = Inr (st1, fresh st)"
    unfolding st1_def by (rule fits_memory_new(2) [OF fit])
  have le: "size_of a < n" using wf_size [OF wf, of i] n by (simp add: a_def)
  have r: "read_cells st1 (ptr a) (size_of a) = Inr (view st i)"
    using wf_null [OF wf, of i] wf_block [OF wf, of i]
    by (auto simp: read_cells_def view_def st1_def a_def split: option.splits)
  have ov: "\<not> overlap (Some (fresh st, 0)) (ptr a) (size_of a)"
    using wf_block [OF wf, of i] by (auto simp: overlap_def a_def split: option.splits)
  define st2 where "st2 = st1\<lparr>blocks := (blocks st1)(fresh st := view st i @ replicate (n + 5 - size_of a) None)\<rparr>"
  have len: "length (view st i) = size_of a" using wf by (simp add: a_def)
  have "write_cells st1 (Some (fresh st, 0)) (view st i) = Inr st2"
    using le len by (auto simp: write_cells_def st1_def st2_def overwrite_def)
  then have "memcpy st1 (Some (fresh st, 0)) (ptr a) (size_of a) = Inr st2"
    using ov by (simp add: memcpy_def r)
  then have "resize st i n val = fill (reset st2 i (Some (fresh st, 0)) n True)
      (Some (fresh st, size_of a)) (n - size_of a) val"
    using n le nb by (simp add: resize_def Let_def fits_memory_new(1) [OF fit] reset_def set_obj_def
        shift_def a_def del: of_nat_add flip: a_def)
  also have "\<dots> = Inr (grow_result st i n (view st i @ replicate (n - size_of (objs st i)) (Some val)))"
    using le wf
    by (simp add: fill_eq write_cells_def reset_def set_obj_def st2_def st1_def grow_result_def
        overwrite_def a_def)
  finally show ?thesis .
qed

lemma resize_within:
  assumes wf: "wf_store st" and n: "n \<le> capacity (objs st i)"
  shows "resize st i n val =
    (if n \<le> size_of (objs st i) then Inr (set_obj st i ((objs st i)\<lparr>size_of := n\<rparr>))
     else write_cells (set_obj st i ((objs st i)\<lparr>size_of := n\<rparr>))
            (shift (ptr (objs st i)) (size_of (objs st i)))
            (replicate (n - size_of (objs st i)) (Some val)))"
  using n by (simp add: resize_def Let_def set_obj_def fill_eq)

section \<open>Growing into a new block\<close>

lemma wf_grow:
  assumes "wf_store st" "length cells = n" "fits_memory n"
  shows "wf_store (grow_result st i n cells)"
  unfolding wf_store_def
proof
  fix j
  show "wf_array (grow_result st i n cells) (objs (grow_result st i n cells) j)"
    using wf_arrayD [OF assms(1), of j] assms(2,3)
    by (cases "j = i") (auto simp: wf_array_def grow_result_def fits_memory_def split: option.splits)
qed

lemma view_grow: "length cells = n \<Longrightarrow> view (grow_result st i n cells) i = cells"
  by (simp add: view_def grow_result_def)

lemma view_grow_other: "wf_store st \<Longrightarrow> j \<noteq> i \<Longrightarrow> view (grow_result st i n cells) j = view st j"
  using wf_block [of st j] by (auto simp: view_def grow_result_def split: option.splits)

lemma grow_result_obj:
  "objs (grow_result st i n cells) i = \<lparr>ptr = Some (fresh st, 0), size_of = n, capacity = n, owner = True\<rparr>"
  "n_objs (grow_result st i n cells) = n_objs st"
  "blocks (grow_result st i n cells) = (blocks st)(fresh st := cells @ replicate 5 None)"
  "j \<noteq> i \<Longrightarrow> objs (grow_result st i n cells) j = objs st j"
  by (simp_all add: grow_result_def)

section \<open>Changing the size and extending in place\<close>

lemma set_size_simps [simp]:
  "objs (set_obj st i a) i = a"
  "j \<noteq> i \<Longrightarrow> objs (set_obj st i a) j = objs st j"
  "blocks (set_obj st i a) = blocks st"
  "fresh (set_obj st i a) = fresh st" "n_objs (set_obj st i a) = n_objs st"
  by (simp_all add: set_obj_def)

lemma wf_array_set_obj [simp]: "wf_array (set_obj st i a) x \<longleftrightarrow> wf_array st x"
  by (simp add: wf_array_def split: option.splits)

lemma wf_set_obj: "wf_store st \<Longrightarrow> wf_array st a \<Longrightarrow> wf_store (set_obj st i a)"
  by (simp add: wf_store_def) (simp add: set_obj_def)

lemma wf_set_size:
  "wf_store st \<Longrightarrow> n \<le> capacity (objs st i) \<Longrightarrow> wf_store (set_obj st i ((objs st i)\<lparr>size_of := n\<rparr>))"
  using wf_arrayD [of st i]
  by (intro wf_set_obj) (auto simp: wf_array_def split: option.splits)

lemma view_set_obj_other: "j \<noteq> i \<Longrightarrow> view (set_obj st i a) j = view st j"
  by (auto simp: view_def split: option.splits)

lemma view_shrink:
  "n \<le> size_of (objs st i) \<Longrightarrow> view (set_obj st i ((objs st i)\<lparr>size_of := n\<rparr>)) i = take n (view st i)"
  by (simp add: view_def min_def split: option.splits)

text \<open>Writing \<open>vs\<close> right after the elements of object \<open>i\<close> and counting them as elements.\<close>

definition extend :: "'v store \<Rightarrow> nat \<Rightarrow> 'v option list \<Rightarrow> 'v store" where
  "extend st i vs =
     (case ptr (objs st i) of
        None \<Rightarrow> st
      | Some (b, off) \<Rightarrow>
          set_obj (st\<lparr>blocks := (blocks st)(b := overwrite (blocks st b) (off + size_of (objs st i)) vs)\<rparr>)
            i ((objs st i)\<lparr>size_of := size_of (objs st i) + length vs\<rparr>))"

text \<open>The cells that extending \<open>i\<close> writes are none of those that \<open>j\<close> shows.\<close>

definition separate :: "'v store \<Rightarrow> nat \<Rightarrow> nat \<Rightarrow> bool" where
  "separate st i j = (case (ptr (objs st i), ptr (objs st j)) of
     (Some (b, off), Some (c, off')) \<Rightarrow>
       b \<noteq> c \<or> off' + size_of (objs st j) \<le> off + size_of (objs st i)
   | _ \<Rightarrow> True)"

lemma extend_spec:
  assumes wf: "wf_store st" and room: "size_of (objs st i) + length vs \<le> capacity (objs st i)"
    and "vs \<noteq> []"
  shows "wf_store (extend st i vs)"
    and "view (extend st i vs) i = view st i @ vs"
    and "j \<noteq> i \<Longrightarrow> separate st i j \<Longrightarrow> view (extend st i vs) j = view st j"
    and "j \<noteq> i \<Longrightarrow> objs (extend st i vs) j = objs st j"
    and "ptr (objs (extend st i vs) i) = ptr (objs st i)"
    and "capacity (objs (extend st i vs) i) = capacity (objs st i)"
    and "size_of (objs (extend st i vs) i) = size_of (objs st i) + length vs"
proof -
  obtain b off where p: "ptr (objs st i) = Some (b, off)"
    using wf_null [OF wf, of i] room assms(3) by (cases "ptr (objs st i)") auto
  note w = wf_block [OF wf p]
  have ow: "off + size_of (objs st i) + length vs \<le> length (blocks st b)" using w room by simp
  show "wf_store (extend st i vs)"
    unfolding wf_store_def
  proof
    fix j
    show "wf_array (extend st i vs) (objs (extend st i vs) j)"
      using wf_arrayD [OF wf, of j] w room ow p
      by (auto simp: extend_def wf_array_def set_obj_def split: option.splits)
  qed
  show "view (extend st i vs) i = view st i @ vs"
    using take_drop_overwrite_end [OF ow] p by (simp add: view_def extend_def)
  show "view (extend st i vs) j = view st j" if "j \<noteq> i" "separate st i j"
    using that p ow by (auto simp: view_def extend_def separate_def take_drop_overwrite_before
        split: option.splits)
  show "j \<noteq> i \<Longrightarrow> objs (extend st i vs) j = objs st j" "ptr (objs (extend st i vs) i) = ptr (objs st i)"
    "capacity (objs (extend st i vs) i) = capacity (objs st i)"
    "size_of (objs (extend st i vs) i) = size_of (objs st i) + length vs"
    using p by (simp_all add: extend_def)
qed

lemma write_extend:
  assumes wf: "wf_store st" and room: "size_of (objs st i) + length vs \<le> capacity (objs st i)"
    and "vs \<noteq> []"
  shows "write_cells st (shift (ptr (objs st i)) (size_of (objs st i))) vs =
    Inr (set_obj (extend st i vs) i (objs st i))"
proof -
  obtain b off where p: "ptr (objs st i) = Some (b, off)"
    using wf_null [OF wf, of i] room assms(3) by (cases "ptr (objs st i)") auto
  with wf_block [OF wf p] room assms(3) show ?thesis
    by (simp add: write_cells_def shift_def extend_def set_obj_def)
qed

lemma resize_extend:
  assumes wf: "wf_store st" and n: "size_of (objs st i) < n" "n \<le> capacity (objs st i)"
  shows "resize st i n val = Inr (extend st i (replicate (n - size_of (objs st i)) (Some val)))"
proof -
  obtain b off where p: "ptr (objs st i) = Some (b, off)"
    using wf_null [OF wf, of i] n by (cases "ptr (objs st i)") auto
  with wf_block [OF wf p] n show ?thesis
    by (simp add: resize_within [OF wf n(2)] write_cells_def shift_def extend_def set_obj_def)
qed

section \<open>The operations on well-formed stores\<close>

text \<open>
  On a well-formed store \<open>resize\<close> to a possible size never fails, keeps the store well-formed and makes the
  array show its first \<open>n\<close> elements, padded with the given value; an object whose memory does not
  lie behind the array's elements shows the same as before.
\<close>

lemma resize_spec:
  assumes wf: "wf_store st" and fit: "n \<le> capacity (objs st i) \<or> fits_memory n"
  shows "\<exists>st'. resize st i n val = Inr st' \<and> wf_store st'
    \<and> view st' i = take n (view st i) @ replicate (n - size_of (objs st i)) (Some val)
    \<and> (\<forall>j. j \<noteq> i \<longrightarrow> objs st' j = objs st j)
    \<and> (\<forall>j. j \<noteq> i \<and> (n \<le> size_of (objs st i) \<or> capacity (objs st i) < n \<or> separate st i j) \<longrightarrow>
         view st' j = view st j)"
proof -
  have s: "size_of (objs st i) \<le> capacity (objs st i)" by (rule wf_size [OF wf])
  consider "n \<le> size_of (objs st i)" | "size_of (objs st i) < n" "n \<le> capacity (objs st i)"
    | "capacity (objs st i) < n" by linarith
  then show ?thesis
  proof cases
    case 1
    with s wf show ?thesis
      by (simp add: resize_within wf_set_size view_shrink view_set_obj_other)
  next
    case 2
    define vs where "vs = replicate (n - size_of (objs st i)) (Some val)"
    have "size_of (objs st i) + length vs \<le> capacity (objs st i)" "vs \<noteq> []"
      using 2 by (simp_all add: vs_def)
    note e = extend_spec [OF wf this]
    have "take n (view st i) = view st i" using 2 wf by simp
    then show ?thesis
      using resize_extend [OF wf 2, of val] e(1,2,3,4) 2 by (auto simp: vs_def)
  next
    case 3
    define cells where "cells = view st i @ replicate (n - size_of (objs st i)) (Some val)"
    have len: "length cells = n" using 3 s wf by (simp add: cells_def)
    have t: "take n (view st i) = view st i" using 3 s wf by simp
    have "resize st i n val = Inr (grow_result st i n cells)"
      unfolding cells_def using 3 fit by (intro resize_grow [OF wf 3]) simp
    moreover have "fits_memory n" using 3 fit by simp
    ultimately show ?thesis
      using wf_grow [OF wf len, of i] view_grow [OF len, of st i] view_grow_other [OF wf, of _ i n cells]
      by (simp add: t grow_result_obj) (simp add: cells_def)
  qed
qed

lemma reserve_spec:
  assumes wf: "wf_store st" and n: "capacity (objs st i) < n" "fits_memory n"
  shows "\<exists>st'. reserve st i n = Inr st' \<and> wf_store st' \<and> view st' i = view st i
    \<and> objs st' i = \<lparr>ptr = Some (fresh st, 0), size_of = size_of (objs st i), capacity = n, owner = True\<rparr>
    \<and> n_objs st' = n_objs st \<and> (\<forall>b. b \<noteq> fresh st \<longrightarrow> blocks st' b = blocks st b)
    \<and> (\<forall>j. j \<noteq> i \<longrightarrow> objs st' j = objs st j \<and> view st' j = view st j)"
proof -
  have s: "size_of (objs st i) \<le> capacity (objs st i)" by (rule wf_size [OF wf])
  define cells where "cells = view st i @ replicate (n - size_of (objs st i)) (Some 0)"
  define g where "g = grow_result st i n cells"
  have len: "length cells = n" using n s wf by (simp add: cells_def)
  have wg: "wf_store g" unfolding g_def by (rule wf_grow [OF wf len n(2)])
  have og: "objs g i = \<lparr>ptr = Some (fresh st, 0), size_of = n, capacity = n, owner = True\<rparr>"
    by (simp add: g_def grow_result_obj)
  define st' where "st' = set_obj g i ((objs g i)\<lparr>size_of := size_of (objs st i)\<rparr>)"
  have "reserve st i n = Inr st'"
    using n(1) resize_grow [OF wf n, of 0] by (simp add: reserve_def Let_def st'_def g_def cells_def)
  moreover have "wf_store st'"
    unfolding st'_def using n s og by (intro wf_set_size [OF wg]) simp
  moreover have "view st' i = take (size_of (objs st i)) (view g i)"
    unfolding st'_def using n s og by (intro view_shrink) simp
  moreover have "view g i = cells" unfolding g_def by (rule view_grow [OF len])
  moreover have "view st' j = view st j" if "j \<noteq> i" for j
    using that view_grow_other [OF wf that] by (simp add: st'_def view_set_obj_other g_def)
  moreover have "objs st' j = objs st j" if "j \<noteq> i" for j
    using that by (simp add: st'_def g_def grow_result_obj)
  moreover have "take (size_of (objs st i)) cells = view st i" using wf by (simp add: cells_def)
  moreover have "n_objs st' = n_objs st" "\<forall>b. b \<noteq> fresh st \<longrightarrow> blocks st' b = blocks st b"
    by (simp_all add: st'_def g_def grow_result_obj)
  ultimately show ?thesis using og by (simp add: st'_def)
qed

lemma not_released_same: "\<not> dangling st st i val"
  by (cases val) (simp_all add: released_def)

lemma push_back_extend:
  assumes wf: "wf_store st" and "size_of (objs st i) < capacity (objs st i)" and val: "referenced st val = Inr v"
  shows "push_back st i val = Inr (extend st i [v])"
proof -
  have room: "size_of (objs st i) + length [v] \<le> capacity (objs st i)" using assms(2) by simp
  obtain b off where p: "ptr (objs st i) = Some (b, off)"
    using wf_null [OF wf, of i] assms(2) by (cases "ptr (objs st i)") auto
  have "push_back st i val =
      Inr (set_obj (extend st i [v]) i ((objs st i)\<lparr>size_of := size_of (objs st i) + 1\<rparr>))"
    using assms(2) write_extend [OF wf room] val not_released_same [of st i val]
    by (simp add: push_back_def Let_def set_obj_def)
  then show ?thesis using p by (simp add: extend_def set_obj_def)
qed

text \<open>A full array moves; what the argument refers to must not have been in the block it leaves.\<close>

lemma push_back_moves:
  assumes wf: "wf_store st" and full: "size_of (objs st i) = capacity (objs st i)"
    and fit: "fits_memory (size_of (objs st i) * 2 + 5)" and val: "referenced st val = Inr v"
    and keeps: "\<And>b off. val = Cell b off \<Longrightarrow> b < fresh st \<and>
      (owns (objs st i) b \<longrightarrow> (\<exists>j < n_objs st. j \<noteq> i \<and> owns (objs st j) b))"
  shows "\<exists>st'. push_back st i val = Inr st' \<and> wf_store st' \<and> view st' i = view st i @ [v]
    \<and> (\<forall>j. j \<noteq> i \<longrightarrow> objs st' j = objs st j \<and> view st' j = view st j)"
proof -
  obtain st1 where r: "reserve st i (size_of (objs st i) * 2 + 5) = Inr st1"
    and wf1: "wf_store st1" and v1: "view st1 i = view st i"
    and o1: "objs st1 i = \<lparr>ptr = Some (fresh st, 0), size_of = size_of (objs st i),
                capacity = size_of (objs st i) * 2 + 5, owner = True\<rparr>"
    and same: "n_objs st1 = n_objs st" "\<forall>b. b \<noteq> fresh st \<longrightarrow> blocks st1 b = blocks st b"
    and other: "\<forall>j. j \<noteq> i \<longrightarrow> objs st1 j = objs st j \<and> view st1 j = view st j"
    using reserve_spec [OF wf _ fit, of i] full by auto
  have u: "to_uint64 (int (size_of (objs st i) * 2 + 5)) = size_of (objs st i) * 2 + 5"
    using fit by (intro to_uint64_of_nat) (simp add: fits_memory_def)
  have lt: "size_of (objs st1 i) < capacity (objs st1 i)" using o1 by simp
  then have "size_of (objs st1 i) + length [v] \<le> capacity (objs st1 i)" by simp
  note e = extend_spec [OF wf1 this]
  have val1: "referenced st1 val = Inr v" and "\<not> dangling st st1 i val"
  proof -
    have "referenced st1 (Cell b off) = referenced st (Cell b off)" if "b < fresh st" for b off
      using that same(2) by (simp add: read_cells_def)
    with val keeps show "referenced st1 val = Inr v" by (cases val) auto
    show "\<not> dangling st st1 i val"
    proof (cases val)
      case (Cell b off)
      from keeps [OF this] have "owns (objs st i) b \<longrightarrow> (\<exists>j < n_objs st1. j \<noteq> i \<and> owns (objs st1 j) b)"
        using same(1) other by metis
      with Cell show ?thesis by (auto simp: released_def)
    qed simp
  qed
  then have "push_back st i val = push_back st1 i val"
    using lt r not_released_same [of st1 i val]
    by (simp add: push_back_def Let_def u del: of_nat_add of_nat_mult flip: full)
  moreover have "separate st1 i j" if "j \<noteq> i" for j
    using wf_block [OF wf, of j] o1 other that by (auto simp: separate_def split: option.splits)
  ultimately show ?thesis
    using push_back_extend [OF wf1 lt val1] e(1,2,3,4) v1 other by auto
qed

text \<open>
  On a well-formed store \<open>push_back\<close> of a temporary never fails (if twice the elements still fit the
  address space), keeps the store well-formed and appends the
  value to what the array shows. If the array is full (as every segment is when it is made) it
  moves to a new block and no other object changes; otherwise the objects whose elements do not
  lie behind the array's own are unchanged.
\<close>

lemma push_back_spec:
  assumes wf: "wf_store st" and fit: "fits_memory (size_of (objs st i) * 2 + 5)"
  shows "\<exists>st'. push_back st i (Temporary v) = Inr st' \<and> wf_store st' \<and> view st' i = view st i @ [Some v]
    \<and> (\<forall>j. j \<noteq> i \<longrightarrow> objs st' j = objs st j)
    \<and> (\<forall>j. j \<noteq> i \<and> (size_of (objs st i) = capacity (objs st i) \<or> separate st i j) \<longrightarrow>
         view st' j = view st j)"
proof (cases "size_of (objs st i) = capacity (objs st i)")
  case False
  with wf_size [OF wf, of i] have lt: "size_of (objs st i) < capacity (objs st i)" by simp
  then have "size_of (objs st i) + length [Some v] \<le> capacity (objs st i)" by simp
  note e = extend_spec [OF wf this]
  show ?thesis using push_back_extend [OF wf lt, of "Temporary v"] e(1,2,3,4) False by auto
next
  case True
  from push_back_moves [OF wf True fit, of "Temporary v"] show ?thesis by auto
qed

text \<open>
  A size that does not fit is never reached: either \<open>new\<close> refuses it, or \<open>size + 5\<close> wraps around and
  the new elements are written behind the small block.
\<close>

lemma resize_too_large:
  assumes wf: "wf_store st" and n: "capacity (objs st i) < n" "\<not> fits_memory n"
  shows "is_error (resize st i n val)"
proof (cases "to_uint64 (int (n + 5)) < 2 ^ 62")
  case True
  define k where "k = to_uint64 (int (n + 5))"
  have "2 ^ 62 \<le> n + 5" using n(2) by (simp add: fits_memory_def)
  moreover have "n + 5 < 2 ^ 64 \<Longrightarrow> k = n + 5" unfolding k_def by (rule to_uint64_of_nat)
  ultimately have "2 ^ 64 \<le> n + 5" using True unfolding k_def by (cases "n + 5 < 2 ^ 64") auto
  then have kn: "k < n" using True unfolding k_def by simp
  have cur: "size_of (objs st i) < n" using wf_size [OF wf, of i] n(1) by simp
  obtain st1 b where b: "new_block st k = Inr (st1, b)" "length (blocks st1 b) = k" "objs st1 = objs st"
    using True by (simp add: new_block_def k_def)
  have "is_error (fill (reset st2 i (Some (b, 0)) n True) (shift (Some (b, 0)) (size_of (objs st i))) (n - size_of (objs st i)) val)"
    if "length (blocks st2 b) = k" for st2 :: "'a store"
    using kn cur that by (auto simp: fill_eq write_cells_def shift_def reset_def set_obj_def)
  moreover have "length (blocks st2 b) = k" if "memcpy st1 (Some (b, 0)) p m = Inr st2" for st2 p m
    using that b(2) by (auto simp: memcpy_def write_cells_def cxx_bind_eq_Inr split: if_splits)
  ultimately show ?thesis
    using n(1) cur b(1) by (cases "memcpy st1 (Some (b, 0)) (ptr (objs st i)) (size_of (objs st i))")
      (auto simp: resize_def Let_def reset_def set_obj_def simp del: of_nat_add simp flip: k_def)
next
  case False
  with n(1) show ?thesis by (simp add: resize_def Let_def new_block_def del: of_nat_add)
qed

section \<open>Appending arrays\<close>

text \<open>Overwriting the last elements of an array.\<close>

lemma write_tail:
  assumes wf: "wf_store st" and p: "ptr (objs st i) = Some (b, off)"
    and k: "k + length vs = size_of (objs st i)" and "vs \<noteq> []"
  shows "\<exists>st'. write_cells st (shift (ptr (objs st i)) k) vs = Inr st' \<and> wf_store st'
    \<and> objs st' = objs st \<and> view st' i = take k (view st i) @ vs
    \<and> (\<forall>j c off'. ptr (objs st j) = Some (c, off') \<longrightarrow>
         c \<noteq> b \<or> off' + size_of (objs st j) \<le> off + k \<longrightarrow> view st' j = view st j)"
proof -
  note w = wf_block [OF wf p]
  define xs where "xs = overwrite (blocks st b) (off + k) vs"
  define st' where "st' = st\<lparr>blocks := (blocks st)(b := xs)\<rparr>"
  have ow: "off + k + length vs \<le> length (blocks st b)" using w k by simp
  have len: "length xs = length (blocks st b)" using ow by (simp add: xs_def)
  have "write_cells st (shift (ptr (objs st i)) k) vs = Inr st'"
    using p ow assms(4) by (simp add: write_cells_def shift_def st'_def xs_def)
  moreover have "wf_store st'"
    unfolding wf_store_def
  proof
    fix j
    show "wf_array st' (objs st' j)"
      using wf_arrayD [OF wf, of j] len by (auto simp: wf_array_def st'_def split: option.splits)
  qed
  moreover have "view st' i = take k (view st i) @ vs"
    using take_drop_overwrite_end [OF ow] p k [symmetric]
    by (simp add: view_def st'_def xs_def min_def)
  moreover have "view st' j = view st j"
    if "ptr (objs st j) = Some (c, off')" "c \<noteq> b \<or> off' + size_of (objs st j) \<le> off + k" for j c off'
    using that ow by (auto simp: view_def st'_def xs_def take_drop_overwrite_before)
  ultimately show ?thesis by (auto simp: st'_def)
qed

lemma resize_larger:
  assumes wf: "wf_store st" and n: "size_of (objs st i) < n" and fit: "fits_memory n"
  shows "\<exists>st' b off. resize st i n val = Inr st' \<and> wf_store st'
    \<and> view st' i = view st i @ replicate (n - size_of (objs st i)) (Some val)
    \<and> ptr (objs st' i) = Some (b, off) \<and> size_of (objs st' i) = n
    \<and> (\<forall>j. j \<noteq> i \<longrightarrow> objs st' j = objs st j)
    \<and> (\<forall>j. j \<noteq> i \<and> (capacity (objs st i) < n \<or> separate st i j) \<longrightarrow> view st' j = view st j
         \<and> (\<forall>c off'. ptr (objs st j) = Some (c, off') \<longrightarrow>
              c \<noteq> b \<or> off' + size_of (objs st j) \<le> off + size_of (objs st i)))"
proof (cases "capacity (objs st i) < n")
  case True
  define cells where "cells = view st i @ replicate (n - size_of (objs st i)) (Some val)"
  have len: "length cells = n" using n wf by (simp add: cells_def)
  have "resize st i n val = Inr (grow_result st i n cells)"
    unfolding cells_def by (rule resize_grow [OF wf True fit])
  moreover have "c \<noteq> fresh st" if "ptr (objs st j) = Some (c, off')" for j c off'
    using wf_block [OF wf that] by simp
  ultimately show ?thesis
    using wf_grow [OF wf len fit, of i] view_grow [OF len, of st i] view_grow_other [OF wf, of _ i n cells]
    by (auto simp: grow_result_obj cells_def)
next
  case False
  then have c: "n \<le> capacity (objs st i)" by simp
  define vs where "vs = replicate (n - size_of (objs st i)) (Some val)"
  have "size_of (objs st i) + length vs \<le> capacity (objs st i)" "vs \<noteq> []"
    using n c by (simp_all add: vs_def)
  note e = extend_spec [OF wf this]
  obtain b off where p: "ptr (objs st i) = Some (b, off)"
    using wf_null [OF wf, of i] n c by (cases "ptr (objs st i)") auto
  have "resize st i n val = Inr (extend st i vs)"
    unfolding vs_def by (rule resize_extend [OF wf n c])
  moreover have "view st i @ vs = view st i @ replicate (n - size_of (objs st i)) (Some val)"
    by (simp add: vs_def)
  moreover have "size_of (objs (extend st i vs) i) = n" using e(7) n by (simp add: vs_def)
  ultimately show ?thesis
    using e(1-5) p c by (auto simp: separate_def)
qed

text \<open>
  Appending another array never fails on a well-formed store, provided the other array's
  elements do not lie behind the array's own in the same block: the array shows its elements
  followed by the other's, and the other one is unchanged.
\<close>

lemma append_array_spec:
  assumes wf: "wf_store st" and "j \<noteq> i"
    and fit: "fits_memory (size_of (objs st i) + size_of (objs st j))"
    and sep: "capacity (objs st i) < size_of (objs st i) + size_of (objs st j) \<or> separate st i j"
  shows "\<exists>st'. append_array st i j = Inr st' \<and> wf_store st'
    \<and> view st' i = view st i @ view st j \<and> view st' j = view st j
    \<and> (\<forall>k. k \<noteq> i \<longrightarrow> objs st' k = objs st k)"
proof (cases "size_of (objs st j) = 0")
  case True
  with length_view [OF wf, of j] have "view st j = []" by (simp del: length_view)
  with True wf show ?thesis by (simp add: append_array_def)
next
  case False
  define n where "n = size_of (objs st i) + size_of (objs st j)"
  have "size_of (objs st i) < n" using False by (simp add: n_def)
  then obtain st1 b off where r: "resize st i n 0 = Inr st1" and wf1: "wf_store st1"
    and v1: "view st1 i = view st i @ replicate (n - size_of (objs st i)) (Some 0)"
    and p1: "ptr (objs st1 i) = Some (b, off)" and s1: "size_of (objs st1 i) = n"
    and o1: "\<forall>k. k \<noteq> i \<longrightarrow> objs st1 k = objs st k"
    and vj: "view st1 j = view st j"
    and far: "\<forall>c off'. ptr (objs st j) = Some (c, off') \<longrightarrow>
      c \<noteq> b \<or> off' + size_of (objs st j) \<le> off + size_of (objs st i)"
    using resize_larger [OF wf, of i n 0] fit sep \<open>j \<noteq> i\<close> by (auto simp: n_def)
  have u: "to_uint64 (int n) = n"
    using fit by (intro to_uint64_of_nat) (simp add: fits_memory_def n_def)
  have oj: "objs st1 j = objs st j" using o1 \<open>j \<noteq> i\<close> by simp
  have read: "read_cells st1 (ptr (objs st j)) (size_of (objs st j)) = Inr (view st j)"
    using read_view [OF wf1, of j] vj oj by simp
  have ov: "\<not> overlap (shift (ptr (objs st1 i)) (size_of (objs st i))) (ptr (objs st j))
      (size_of (objs st j))"
    using far p1 by (auto simp: overlap_def shift_def split: option.splits)
  have "size_of (objs st i) + length (view st j) = size_of (objs st1 i)" "view st j \<noteq> []"
    using s1 wf False length_view [OF wf, of j] by (auto simp: n_def simp del: length_view)
  from write_tail [OF wf1 p1 this] obtain st2
    where w: "write_cells st1 (shift (ptr (objs st1 i)) (size_of (objs st i))) (view st j) = Inr st2"
      and wf2: "wf_store st2" and o2: "objs st2 = objs st1"
      and v2: "view st2 i = take (size_of (objs st i)) (view st1 i) @ view st j"
      and keep: "\<forall>j c off'. ptr (objs st1 j) = Some (c, off') \<longrightarrow>
         c \<noteq> b \<or> off' + size_of (objs st1 j) \<le> off + size_of (objs st i) \<longrightarrow> view st2 j = view st1 j"
    by blast
  have "append_array st i j = Inr st2"
    using False r ov read w oj by (simp add: append_array_def memcpy_def u del: of_nat_add flip: n_def)
  moreover have "view st2 i = view st i @ view st j"
    using v1 v2 wf by simp
  moreover have "view st2 j = view st j"
  proof (cases "ptr (objs st j)")
    case None
    with wf_null [OF wf, of j] False show ?thesis by simp
  next
    case (Some a)
    with keep far oj vj show ?thesis by (cases a) auto
  qed
  ultimately show ?thesis using wf2 o2 o1 by auto
qed

text \<open>
  Appending a non-empty array to itself is undefined: the size of the argument is read again
  after the array was resized, so the \<open>memcpy\<close> copies twice the elements between overlapping
  ranges.
\<close>

lemma append_self_undefined:
  assumes wf: "wf_store st" and "size_of (objs st i) \<noteq> 0"
    and fit: "fits_memory (size_of (objs st i) + size_of (objs st i))"
  shows "append_array st i i = Inl Undefined_Behaviour"
proof -
  define n where "n = size_of (objs st i) + size_of (objs st i)"
  have "size_of (objs st i) < n" using assms(2) by (simp add: n_def)
  then obtain st1 b off where r: "resize st i n 0 = Inr st1" and wf1: "wf_store st1"
    and p1: "ptr (objs st1 i) = Some (b, off)" and s1: "size_of (objs st1 i) = n"
    using resize_larger [OF wf, of i n 0] fit by (auto simp: n_def)
  have u: "to_uint64 (int n) = n"
    using fit by (intro to_uint64_of_nat) (simp add: fits_memory_def n_def)
  have "overlap (shift (ptr (objs st1 i)) (size_of (objs st i))) (ptr (objs st1 i)) n"
    using p1 assms(2) by (simp add: overlap_def shift_def n_def)
  then show ?thesis
    using assms(2) r read_view [OF wf1, of i] s1
    by (simp add: append_array_def memcpy_def u del: of_nat_add flip: n_def) (simp add: n_def)
qed

section \<open>Segments and copies\<close>

lemma segment_wf_view:
  assumes wf: "wf_store st" and "bgn \<le> end'" "end' \<le> size_of (objs st i)" "size_of (objs st i) < 2 ^ 64"
  shows "wf_store (segment st r i bgn end')"
    and "view (segment st r i bgn end') r = take (end' - bgn) (drop bgn (view st i))"
    and "size_of (objs (segment st r i bgn end') r) = end' - bgn"
    and "capacity (objs (segment st r i bgn end') r) = end' - bgn"
proof -
  have n: "to_uint64 (int end' - int bgn) = end' - bgn"
    using assms(2-4) to_uint64_of_nat [of "end' - bgn"] by (simp add: of_nat_diff)
  show "wf_store (segment st r i bgn end')"
    unfolding segment_def n using wf_arrayD [OF wf, of i] assms(2,3)
    by (intro wf_set_obj [OF wf]) (auto simp: wf_array_def shift_def split: option.splits)
  show "view (segment st r i bgn end') r = take (end' - bgn) (drop bgn (view st i))"
    unfolding segment_def n using assms(2,3)
    by (cases "ptr (objs st i)") (auto simp: view_def shift_def drop_take min_def add.commute)
  show "size_of (objs (segment st r i bgn end') r) = end' - bgn"
    "capacity (objs (segment st r i bgn end') r) = end' - bgn"
    unfolding segment_def n by simp_all
qed

text \<open>
  A segment [begin, end) within the array shows exactly these elements, and it is safe to
  grow: it is full, so a \<open>push_back\<close> on it moves it to memory of its own and leaves
  the array it was cut from, and every other array, as it was.
\<close>

lemma segment_push_back:
  assumes wf: "wf_store st" and "bgn \<le> end'" "end' \<le> size_of (objs st i)" "size_of (objs st i) < 2 ^ 64"
    and "r \<noteq> i" "fits_memory ((end' - bgn) * 2 + 5)"
  shows "\<exists>st'. push_back (segment st r i bgn end') r (Temporary v) = Inr st' \<and> wf_store st'
    \<and> view (segment st r i bgn end') r = take (end' - bgn) (drop bgn (view st i))
    \<and> view st' r = take (end' - bgn) (drop bgn (view st i)) @ [Some v]
    \<and> (\<forall>j. j \<noteq> r \<longrightarrow> view st' j = view st j)"
proof -
  note s = segment_wf_view [OF assms(1-4), of r]
  have "view (segment st r i bgn end') j = view st j" if "j \<noteq> r" for j
    using that by (simp add: segment_def view_set_obj_other)
  with push_back_moves [OF s(1), of r "Temporary v"] s(2-4) assms(6) show ?thesis by auto
qed

text \<open>
  Copies share memory in both directions: popping the last element of a copy and pushing
  another one overwrites the last element of the original.
\<close>

lemma copy_pop_push_changes_original:
  assumes wf: "wf_store st" and "j \<noteq> i" and "size_of (objs st i) \<noteq> 0"
  shows "\<exists>st'. push_back (pop_back (SArray_copy st j i) j) j (Temporary v) = Inr st'
    \<and> view st' i = butlast (view st i) @ [Some v] \<and> view st' j = view st' i"
proof -
  obtain b off where p: "ptr (objs st i) = Some (b, off)"
    using wf_null [OF wf, of i] assms(3) by (cases "ptr (objs st i)") auto
  define st1 where "st1 = pop_back (SArray_copy st j i) j"
  have o1: "objs st1 j = (objs st i)\<lparr>size_of := size_of (objs st i) - 1\<rparr>" "objs st1 i = objs st i"
    using assms(2,3) by (simp_all add: st1_def pop_back_def SArray_copy_def Let_def)
  have st1: "st1 = set_obj (set_obj st j (objs st i)) j ((objs st i)\<lparr>size_of := size_of (objs st i) - 1\<rparr>)"
    using assms(3) by (simp add: st1_def pop_back_def SArray_copy_def Let_def)
  have wf1: "wf_store st1"
    unfolding st1 using wf_arrayD [OF wf, of i]
    by (intro wf_set_obj wf) (auto simp: wf_array_def split: option.splits)
  have lt: "size_of (objs st1 j) < capacity (objs st1 j)"
    using o1 assms(3) wf_size [OF wf, of i] by simp
  then have "size_of (objs st1 j) + length [Some v] \<le> capacity (objs st1 j)" by simp
  note e = extend_spec [OF wf1 this]
  have "view st1 j = butlast (view st i)"
    using o1 wf length_view [OF wf, of i] p
    by (simp add: view_def st1 butlast_conv_take del: length_view)
  moreover have "view (extend st1 j [Some v]) j = view (extend st1 j [Some v]) i"
    using e(4) [of i] e(5-7) o1 assms(2,3) p by (simp add: view_def)
  ultimately show ?thesis
    using push_back_extend [OF wf1 lt, of "Temporary v"] e(2) by (simp add: st1_def)
qed

section \<open>Reading elements\<close>

lemma index_view:
  assumes "wf_store st" "k < size_of (objs st i)"
  shows "index st i (int k) = Inr (view st i ! k)"
proof (cases "ptr (objs st i)")
  case None
  with assms wf_null [OF assms(1)] show ?thesis by simp
next
  case (Some a)
  obtain b off where a: "a = (b, off)" by (cases a)
  have "off + k < length (blocks st b)" using wf_block [OF assms(1)] Some a assms(2) by fastforce
  then have "take 1 (drop (off + k) (blocks st b)) = [blocks st b ! (off + k)]"
    by (simp add: take_Suc hd_drop_conv_nth)
  with Some a assms(2) \<open>off + k < length (blocks st b)\<close> show ?thesis
    by (simp add: index_def offset_def read_cells_def view_def nat_add_distrib)
qed

text \<open>\<open>back\<close> and \<open>front\<close> read the ends of what the array shows, or the check ends the process.\<close>

lemma array_ends:
  assumes "wf_store st"
  shows "array_back st i = (if view st i = [] then Inl Terminated else Inr (last (view st i)))"
    and "array_front st i = (if view st i = [] then Inl Terminated else Inr (hd (view st i)))"
proof -
  have e: "view st i = [] \<longleftrightarrow> size_of (objs st i) = 0"
    using length_view [OF assms, of i] by (metis length_0_conv)
  show "array_back st i = (if view st i = [] then Inl Terminated else Inr (last (view st i)))"
    using e index_view [OF assms, of "size_of (objs st i) - 1" i] length_view [OF assms, of i]
    by (auto simp: array_back_def array_empty_def last_conv_nth)
  show "array_front st i = (if view st i = [] then Inl Terminated else Inr (hd (view st i)))"
    using e index_view [OF assms, of 0 i] by (auto simp: array_front_def array_empty_def hd_conv_nth)
qed

text \<open>
  A negative index into a segment reads, and writes, the parent's elements before the segment.
\<close>

lemma segment_negative_index:
  assumes "wf_store st" "k < bgn" "bgn \<le> size_of (objs st i)"
  shows "index (segment st r i bgn end') r (int k - int bgn) = Inr (view st i ! k)"
proof -
  have p: "ptr (objs (segment st r i bgn end') r) = shift (ptr (objs st i)) bgn"
    "blocks (segment st r i bgn end') = blocks st"
    by (simp_all add: segment_def set_obj_def)
  have "offset (shift p bgn) (int k - int bgn) = offset p (int k)" for p
    by (auto simp: offset_def shift_def split: option.split)
  then have "index (segment st r i bgn end') r (int k - int bgn) = index st i (int k)"
    unfolding index_def read_cells_def p by simp
  with index_view [OF assms(1), of k i] assms(2,3) show ?thesis by simp
qed

text \<open>
  The view of an array of \<open>w\<close> byte elements as \<open>v\<close> byte elements is accepted exactly when the bytes
  divide, and casting back gives the size again; the capacity is rounded down.
\<close>

lemma cast_sizes_iff:
  assumes "0 < v" "n * w < 2 ^ 64" "c * w < 2 ^ 64"
  shows "cast_sizes w v n c = (if v dvd n * w then Inr (n * w div v, c * w div v) else Inl Terminated)"
proof -
  have "n * w div v * v \<le> n * w" by (simp add: div_times_less_eq_dividend)
  then have "to_uint64 (int (n * w div v * v)) = n * w div v * v"
    using assms(2) by (intro to_uint64_of_nat) linarith
  moreover have "to_uint64 (int (n * w)) = n * w" "to_uint64 (int (c * w)) = c * w"
    using to_uint64_of_nat assms(2,3) by blast+
  ultimately show ?thesis
    by (auto simp: cast_sizes_def Let_def dvd_eq_mod_eq_0 simp flip: of_nat_mult)
      (metis mod_mult_self2_is_0 mult.commute)+
qed

lemma cast_round_trip:
  assumes "0 < v" "0 < w" "n * w < 2 ^ 64" "c * w < 2 ^ 64" "cast_sizes w v n c = Inr (n', c')"
  shows "\<exists>c''. cast_sizes v w n' c' = Inr (n, c'') \<and> c'' \<le> c"
proof -
  have d: "v dvd n * w" "n' = n * w div v" "c' = c * w div v"
    using assms(5) by (auto simp: cast_sizes_iff [OF assms(1,3,4)] split: if_splits)
  have n: "n' * v = n * w" using d(1,2) by simp
  have c: "c' * v \<le> c * w" using d(3) by simp
  with assms(3,4) n have "n' * v < 2 ^ 64" "c' * v < 2 ^ 64" by simp_all
  from cast_sizes_iff [OF assms(2) this] n have "cast_sizes v w n' c' = Inr (n, c' * v div w)"
    using assms(2) by simp
  moreover have "c' * v div w \<le> c" using div_le_mono [OF c, of w] assms(2) by simp
  ultimately show ?thesis by blast
qed

section \<open>A concrete store\<close>

text \<open>
  Object 0 is [1, 2] with room for one more, 1 is the segment [1, 2) of it and 2 is [5] in a
  block of its own; objects 3 and 4 are empty.
\<close>

definition example_store :: "int store" where
  "example_store = \<lparr>
     blocks = (\<lambda>b. if b = 0 then [Some 1, Some 2, None] else if b = 1 then [Some 5] else []),
     fresh = 2,
     objs = (\<lambda>i. if i = 0 then \<lparr>ptr = Some (0, 0), size_of = 2, capacity = 3, owner = True\<rparr>
                 else if i = 1 then \<lparr>ptr = Some (0, 1), size_of = 1, capacity = 1, owner = True\<rparr>
                 else if i = 2 then \<lparr>ptr = Some (1, 0), size_of = 1, capacity = 1, owner = True\<rparr>
                 else empty_array),
     n_objs = 5\<rparr>"

lemma example_wf: "wf_store example_store"
  by (simp add: wf_store_def wf_array_def example_store_def empty_array_def)

lemma example_objs [simp]:
  "objs example_store 0 = \<lparr>ptr = Some (0, 0), size_of = 2, capacity = 3, owner = True\<rparr>"
  "objs example_store (Suc 0) = \<lparr>ptr = Some (0, 1), size_of = 1, capacity = 1, owner = True\<rparr>"
  "objs example_store 2 = \<lparr>ptr = Some (1, 0), size_of = 1, capacity = 1, owner = True\<rparr>"
  by (simp_all add: example_store_def)

lemma example_views [simp]:
  "view example_store 0 = [Some 1, Some 2]"
  "view example_store (Suc 0) = [Some 2]"
  "view example_store 2 = [Some 5]"
  by (simp_all add: view_def) (simp_all add: example_store_def numeral_2_eq_2)

lemma resize_spec_witness:
  "\<exists>st'. resize example_store 0 4 7 = Inr st' \<and> view st' 0 = [Some 1, Some 2, Some 7, Some 7]
    \<and> view st' 1 = [Some 2] \<and> view st' 2 = [Some 5]"
  using resize_spec [OF example_wf, of 4 0 7] by (auto simp: replicate_2 fits_memory_def)

lemma push_back_spec_witness:
  "\<exists>st'. push_back example_store 0 (Temporary 9) = Inr st' \<and> view st' 0 = [Some 1, Some 2, Some 9]
    \<and> view st' 1 = [Some 2]"
  using push_back_spec [OF example_wf, of 0 9] by (auto simp: separate_def fits_memory_def)

lemma append_array_spec_witness:
  "\<exists>st'. append_array example_store 0 2 = Inr st' \<and> view st' 0 = [Some 1, Some 2, Some 5]
    \<and> view st' 2 = [Some 5]"
  using append_array_spec [OF example_wf, of 2 0] by (auto simp: separate_def fits_memory_def)

lemma append_self_undefined_witness:
  "append_array example_store 0 0 = Inl Undefined_Behaviour"
  using append_self_undefined [OF example_wf, of 0] by (simp add: fits_memory_def)

lemma segment_push_back_witness:
  "\<exists>st'. push_back (segment example_store 3 0 1 2) 3 (Temporary 8) = Inr st'
    \<and> view st' 3 = [Some 2, Some 8] \<and> view st' 0 = [Some 1, Some 2]"
  using segment_push_back [OF example_wf, of 1 2 0 3 8] by (auto simp: fits_memory_def)

lemma copy_pop_push_changes_original_witness:
  "\<exists>st'. push_back (pop_back (SArray_copy example_store 3 0) 3) 3 (Temporary 9) = Inr st'
    \<and> view st' 0 = [Some 1, Some 9]"
  using copy_pop_push_changes_original [OF example_wf, of 3 0 9] by auto

end
