(* ===== verification/Array_Program.thy ===== *)
theory Array_Program
  imports Shared_Array
begin

text \<open>
  Programs over the arrays of base/sarray.h: an array that shares its memory with no other behaves
  like a list (a \<open>std::vector\<close>), whatever sequence of operations is applied to it, and no
  operation at all makes an array point outside its block.
\<close>

section \<open>An array as a vector\<close>

datatype 'v vector_op = Push 'v | Pop | Resize nat 'v | Reserve nat | Clear | Assign "'v list"

fun apply_op :: "'v::zero store \<Rightarrow> nat \<Rightarrow> 'v vector_op \<Rightarrow> 'v store cxx" where
  "apply_op st i (Push v) = push_back st i (Temporary v)"
| "apply_op st i Pop = Inr (pop_back st i)"
| "apply_op st i (Resize n v) = resize st i n v"
| "apply_op st i (Reserve n) = reserve st i n"
| "apply_op st i Clear = Inr (clear st i)"
| "apply_op st i (Assign vs) = CopyFrom_range st i vs"

primrec apply_ops :: "'v::zero store \<Rightarrow> nat \<Rightarrow> 'v vector_op list \<Rightarrow> 'v store cxx" where
  "apply_ops st i [] = Inr st"
| "apply_ops st i (p # ps) = cxx_bind (apply_op st i p) (\<lambda>st'. apply_ops st' i ps)"

text \<open>The same operations on a list.\<close>

fun list_op :: "'v vector_op \<Rightarrow> 'v option list \<Rightarrow> 'v option list" where
  "list_op (Push v) xs = xs @ [Some v]"
| "list_op Pop xs = butlast xs"
| "list_op (Resize n v) xs = take n xs @ replicate (n - length xs) (Some v)"
| "list_op (Reserve n) xs = xs"
| "list_op Clear xs = []"
| "list_op (Assign vs) xs = map Some vs"

text \<open>
  The sizes must fit: the length of a range is an \<open>int\<close>, and the block that an array grows into has
  to fit the address space.
\<close>

fun op_fits :: "'v vector_op \<Rightarrow> nat \<Rightarrow> bool" where
  "op_fits (Push v) n = fits_memory (n * 2 + 5)"
| "op_fits (Resize m v) n = fits_memory m"
| "op_fits (Reserve m) n = fits_memory m"
| "op_fits (Assign vs) n = (length vs < 2 ^ 31)"
| "op_fits _ n = True"

fun ops_fit :: "'v vector_op list \<Rightarrow> 'v option list \<Rightarrow> bool" where
  "ops_fit [] xs = True"
| "ops_fit (p # ps) xs = (op_fits p (length xs) \<and> ops_fit ps (list_op p xs))"

text \<open>Objects that do not point into the same block.\<close>

definition apart :: "'v store \<Rightarrow> nat \<Rightarrow> nat \<Rightarrow> bool" where
  "apart st i j = (case (ptr (objs st i), ptr (objs st j)) of
     (Some (b, off), Some (c, off')) \<Rightarrow> b \<noteq> c | _ \<Rightarrow> True)"

lemma apart_separate: "apart st i j \<Longrightarrow> separate st i j"
  by (auto simp: apart_def separate_def split: option.splits)

text \<open>An operation leaves the object where it was or moves it to the new block.\<close>

definition moved :: "'v store \<Rightarrow> nat \<Rightarrow> 'v store \<Rightarrow> bool" where
  "moved st i st' \<longleftrightarrow> ptr (objs st' i) \<in> {ptr (objs st i), None, Some (fresh st, 0)}"

lemma moved_apart:
  assumes "wf_store st" "moved st i st'" "objs st' j = objs st j" "apart st i j"
  shows "apart st' i j"
  using assms wf_block [OF assms(1), of j]
  by (auto simp: moved_def apart_def split: option.splits)

lemma write_cells_objs: "ensures (write_cells st p vs) (\<lambda>st'. objs st' = objs st)"
  by (auto simp: write_cells_def split: option.split)

lemma resize_moved:
  assumes "wf_store st"
  shows "ensures (resize st i n v) (moved st i)"
proof (cases "n \<le> capacity (objs st i)")
  case True
  have "ensures (write_cells (set_obj st i ((objs st i)\<lparr>size_of := n\<rparr>)) p vs) (moved st i)" for p vs
    by (rule ensures_mono [OF write_cells_objs]) (simp add: moved_def)
  with True show ?thesis by (auto simp: resize_within [OF assms True] moved_def)
next
  case False
  then show ?thesis
    using resize_grow [OF assms, of i n v] resize_too_large [OF assms, of i n v]
    by (cases "fits_memory n"; cases "resize st i n v") (simp_all add: moved_def grow_result_obj)
qed

lemma reserve_moved:
  assumes "wf_store st"
  shows "ensures (reserve st i n) (moved st i)"
  unfolding reserve_def Let_def
  by (intro ensures_if ensures_bind [OF resize_moved [OF assms]]) (simp_all add: moved_def)

lemma push_back_moved:
  assumes "wf_store st"
  shows "ensures (push_back st i v) (moved st i)"
  unfolding push_back_def Let_def
proof (rule ensures_bind [where P = "moved st i"])
  show "ensures (if size_of (objs st i) = capacity (objs st i)
      then reserve st i (to_uint64 (int (size_of (objs st i) * 2 + 5))) else Inr st) (moved st i)"
    by (intro ensures_if reserve_moved [OF assms]) (simp add: moved_def)
next
  fix st1
  assume m: "moved st i st1"
  have "ensures (cxx_bind (write_cells st1 p [c]) (\<lambda>st2. Inr (set_obj st2 i
      ((objs st1 i)\<lparr>size_of := size_of (objs st1 i) + 1\<rparr>)))) (moved st i)" for p c
    by (rule ensures_bind [OF write_cells_objs]) (use m in \<open>simp add: moved_def\<close>)
  then have "ensures (cxx_bind (referenced st1 v) (\<lambda>c. cxx_bind (write_cells st1 (shift (ptr (objs st1 i)) (size_of (objs st1 i))) [c])
        (\<lambda>st2. Inr (set_obj st2 i ((objs st1 i)\<lparr>size_of := size_of (objs st1 i) + 1\<rparr>))))) (moved st i)"
    by (rule ensures_bind [where P = "\<lambda>_. True", rotated]) (simp add: ensures_def)
  then show "ensures (if dangling st st1 i v then Inl Undefined_Behaviour
      else cxx_bind (referenced st1 v) (\<lambda>c. cxx_bind (write_cells st1 (shift (ptr (objs st1 i)) (size_of (objs st1 i))) [c])
        (\<lambda>st2. Inr (set_obj st2 i ((objs st1 i)\<lparr>size_of := size_of (objs st1 i) + 1\<rparr>))))) (moved st i)"
    by simp
qed

lemma CopyFrom_range_spec:
  assumes wf: "wf_store st" and len: "length vs < 2 ^ 31"
  shows "\<exists>st'. CopyFrom_range st i vs = Inr st' \<and> wf_store st' \<and> view st' i = map Some vs \<and> moved st i st'
    \<and> (\<forall>j. j \<noteq> i \<longrightarrow> objs st' j = objs st j \<and> view st' j = view st j)"
proof -
  define st' where "st' = \<lparr>blocks = (blocks st)(fresh st := map Some vs), fresh = fresh st + 1,
    objs = (objs st)(i := \<lparr>ptr = Some (fresh st, 0), size_of = length vs, capacity = length vs, owner = True\<rparr>),
    n_objs = n_objs st\<rparr>"
  have "CopyFrom_range st i vs = Inr st'"
    using len by (cases "vs = []") (simp_all add: CopyFrom_range_def new_block_def reset_def set_obj_def Let_def
        write_cells_def overwrite_def st'_def)
  moreover have "wf_array st' (objs st' j)" for j
    using wf_arrayD [OF wf, of j]
    using len by (cases "j = i") (auto simp: st'_def wf_array_def split: option.splits)
  then have "wf_store st'" by (simp add: wf_store_def)
  moreover have "view st' j = view st j" if "j \<noteq> i" for j
    using that wf_block [OF wf, of j] by (auto simp: view_def st'_def split: option.splits)
  ultimately show ?thesis by (simp add: moved_def) (simp add: st'_def view_def)
qed

lemma pop_back_spec:
  assumes wf: "wf_store st"
  shows "wf_store (pop_back st i) \<and> view (pop_back st i) i = butlast (view st i) \<and> moved st i (pop_back st i)
    \<and> (\<forall>j. j \<noteq> i \<longrightarrow> objs (pop_back st i) j = objs st j \<and> view (pop_back st i) j = view st j)"
proof (cases "size_of (objs st i) = 0")
  case True
  moreover from True have "view st i = []" using length_view [OF wf, of i] by (simp del: length_view)
  ultimately show ?thesis using wf by (simp add: pop_back_def moved_def)
next
  case False
  have "wf_store (set_obj st i ((objs st i)\<lparr>size_of := size_of (objs st i) - 1\<rparr>))"
    using wf_size [OF wf, of i] by (intro wf_set_size [OF wf]) simp
  with False wf show ?thesis
    by (simp add: pop_back_def Let_def moved_def view_shrink view_set_obj_other butlast_conv_take)
qed

lemma clear_spec:
  assumes wf: "wf_store st"
  shows "wf_store (clear st i) \<and> view (clear st i) i = [] \<and> moved st i (clear st i)
    \<and> (\<forall>j. j \<noteq> i \<longrightarrow> objs (clear st i) j = objs st j \<and> view (clear st i) j = view st j)"
  using wf_set_obj [OF wf, of "\<lparr>ptr = None, size_of = 0, capacity = 0, owner = False\<rparr>" i]
  by (simp add: clear_def reset_def wf_array_def moved_def view_set_obj_other) (simp add: view_def)

lemma apart_frame:
  assumes "wf_store st" "moved st i st'" "\<forall>j. j \<noteq> i \<longrightarrow> objs st' j = objs st j"
    and "\<And>j. j \<noteq> i \<Longrightarrow> separate st i j \<Longrightarrow> view st' j = view st j"
  shows "\<forall>j. j \<noteq> i \<longrightarrow> objs st' j = objs st j \<and> (apart st i j \<longrightarrow> view st' j = view st j \<and> apart st' i j)"
  using assms moved_apart [OF assms(1,2)] apart_separate [of st i] by blast

text \<open>One operation, on the array and on the list.\<close>

lemma vector_op_refines:
  assumes wf: "wf_store st" and fits: "op_fits p (length (view st i))"
  shows "\<exists>st'. apply_op st i p = Inr st' \<and> wf_store st' \<and> view st' i = list_op p (view st i)
    \<and> (\<forall>j. j \<noteq> i \<longrightarrow> objs st' j = objs st j \<and>
         (apart st i j \<longrightarrow> view st' j = view st j \<and> apart st' i j))"
proof (cases p)
  case (Push v)
  obtain st' where "push_back st i (Temporary v) = Inr st'" "wf_store st'" "view st' i = view st i @ [Some v]"
    "\<forall>j. j \<noteq> i \<longrightarrow> objs st' j = objs st j" "\<And>j. j \<noteq> i \<Longrightarrow> separate st i j \<Longrightarrow> view st' j = view st j"
    using push_back_spec [OF wf, of i v] fits Push wf by auto
  with Push apart_frame [OF wf ensuresD [OF push_back_moved [OF wf, of i "Temporary v"]]] show ?thesis by auto
next
  case (Resize n v)
  obtain st' where "resize st i n v = Inr st'" "wf_store st'"
    "view st' i = take n (view st i) @ replicate (n - size_of (objs st i)) (Some v)"
    "\<forall>j. j \<noteq> i \<longrightarrow> objs st' j = objs st j" "\<And>j. j \<noteq> i \<Longrightarrow> separate st i j \<Longrightarrow> view st' j = view st j"
    using resize_spec [OF wf, of n i v] fits Resize by auto
  with Resize wf apart_frame [OF wf ensuresD [OF resize_moved [OF wf]]] show ?thesis by auto
next
  case (Reserve n)
  show ?thesis
  proof (cases "n \<le> capacity (objs st i)")
    case True
    with Reserve wf show ?thesis by (simp add: reserve_def)
  next
    case False
    then obtain st' where "reserve st i n = Inr st'" "wf_store st'" "view st' i = view st i"
      "\<forall>j. j \<noteq> i \<longrightarrow> objs st' j = objs st j" "\<And>j. j \<noteq> i \<Longrightarrow> view st' j = view st j"
      using reserve_spec [OF wf, of i n] fits Reserve by auto
    with Reserve apart_frame [OF wf ensuresD [OF reserve_moved [OF wf]]] show ?thesis by auto
  qed
next
  case (Assign vs)
  with fits CopyFrom_range_spec [OF wf, of vs i] apart_frame [OF wf] show ?thesis by auto
next
  case Pop
  with pop_back_spec [OF wf, of i] apart_frame [OF wf, of i "pop_back st i"] show ?thesis by auto
next
  case Clear
  with clear_spec [OF wf, of i] apart_frame [OF wf, of i "clear st i"] show ?thesis by auto
qed



section \<open>No operation breaks the store\<close>

text \<open>Every operation of the class, on any objects; \<open>data\<close> is a pointer given by the caller.\<close>

datatype 'v array_op =
    Vector nat "'v vector_op"
  | Append nat nat
  | Copy_data nat "(nat \<times> nat) option" nat
  | Copy_array nat nat
  | Share nat nat
  | Push_back nat "'v reference"
  | View nat "(nat \<times> nat) option" nat bool
  | Segment nat nat nat nat
  | Set_element nat int 'v
  | New_sized nat nat 'v
  | New_vector nat "(nat \<times> nat) option" nat
  | New_shared nat "(nat \<times> nat) option" nat
  | New_list nat "'v list"

fun exec :: "'v::zero store \<Rightarrow> 'v array_op \<Rightarrow> 'v store cxx" where
  "exec st (Vector i p) = apply_op st i p"
| "exec st (Append i j) = append_array st i j"
| "exec st (Copy_data i data n) = CopyFrom_data st i data n"
| "exec st (Copy_array i j) = CopyFrom st i j"
| "exec st (Share i j) = Inr (SArray_copy st i j)"
| "exec st (Push_back i val) = push_back st i val"
| "exec st (View i data n del) = Inr (SArray_data st i data n del)"
| "exec st (Segment r i bgn end') = Inr (segment st r i bgn end')"
| "exec st (Set_element i k v) = index_set st i k v"
| "exec st (New_sized i n v) = SArray_sized st i n v"
| "exec st (New_vector i data n) = SArray_vector st i data n"
| "exec st (New_shared i data n) = Inr (SArray_shared_vector st i data n)"
| "exec st (New_list i vs) = SArray_list st i vs"

text \<open>
  What the caller must see to: a view of memory that exists, and a segment whose elements (from
  \<open>begin\<close> on, as many as the unsigned difference of the bounds) are in the block.
\<close>

definition inside :: "'v store \<Rightarrow> (nat \<times> nat) option \<Rightarrow> nat \<Rightarrow> bool" where
  "inside st p n = (case p of None \<Rightarrow> n = 0
     | Some (b, off) \<Rightarrow> b < fresh st \<and> off + n \<le> length (blocks st b) \<and> length (blocks st b) < 2 ^ 62)"

fun in_range :: "'v store \<Rightarrow> 'v array_op \<Rightarrow> bool" where
  "in_range st (View i data n del) = inside st data n"
| "in_range st (New_shared i data n) = inside st data n"
| "in_range st (Segment r i bgn end') =
     inside st (shift (ptr (objs st i)) bgn) (to_uint64 (int end' - int bgn))"
| "in_range st _ = True"

lemma inside_wf: "wf_array st \<lparr>ptr = p, size_of = n, capacity = n, owner = d\<rparr> \<longleftrightarrow> inside st p n"
  by (auto simp: wf_array_def inside_def split: option.split)

lemma wf_set_obj_iff: "wf_store st \<Longrightarrow> wf_store (set_obj st i a) \<longleftrightarrow> wf_array st a"
  using wf_arrayD [of "set_obj st i a" i] by (auto intro: wf_set_obj)

lemma overwrite_wf_array:
  "wf_array st a \<Longrightarrow> length xs = length (blocks st b) \<Longrightarrow>
    wf_array (st\<lparr>blocks := (blocks st)(b := xs)\<rparr>) a"
  by (auto simp: wf_array_def split: option.splits)

lemma write_cells_wf: "wf_store st \<Longrightarrow> ensures (write_cells st p vs) wf_store"
  by (auto simp: write_cells_def wf_store_def overwrite_wf_array split: option.split)

lemma memcpy_wf: "wf_store st \<Longrightarrow> ensures (memcpy st dest src n) wf_store"
  unfolding memcpy_def
  by (rule ensures_bind [where P = "\<lambda>_. True"]) (auto simp: ensures_def dest: ensuresD [OF write_cells_wf])

lemma resize_wf: "wf_store st \<Longrightarrow> ensures (resize st i n v) wf_store"
  using resize_spec [of st n i v] resize_too_large [of st i n v]
  by (cases "n \<le> capacity (objs st i) \<or> fits_memory n"; cases "resize st i n v") auto

lemma reserve_wf: "wf_store st \<Longrightarrow> ensures (reserve st i n) wf_store"
  using reserve_spec [of st i n] resize_too_large [of st i n 0]
  by (cases "n \<le> capacity (objs st i)"; cases "fits_memory n"; cases "resize st i n 0")
    (auto simp: reserve_def Let_def)

lemma push_back_wf:
  assumes wf: "wf_store st"
  shows "ensures (push_back st i val) wf_store"
proof -
  have go_on: "ensures (cxx_bind (referenced st1 val) (\<lambda>v.
      cxx_bind (write_cells st1 (shift (ptr (objs st1 i)) (size_of (objs st1 i))) [v]) (\<lambda>st2.
        Inr (set_obj st2 i ((objs st1 i)\<lparr>size_of := size_of (objs st1 i) + 1\<rparr>))))) wf_store"
    if wf1: "wf_store st1" and lt: "size_of (objs st1 i) < capacity (objs st1 i)" for st1
  proof (rule ensures_bind [where P = "\<lambda>_. True"])
    fix v
    have "ensures (write_cells st1 p [v]) (\<lambda>st2. wf_store st2 \<and> objs st2 = objs st1)" for p
      using write_cells_wf [OF wf1, of p "[v]"] write_cells_objs [of st1 p "[v]"] by (simp add: ensures_def)
    then show "ensures (cxx_bind (write_cells st1 (shift (ptr (objs st1 i)) (size_of (objs st1 i))) [v]) (\<lambda>st2.
        Inr (set_obj st2 i ((objs st1 i)\<lparr>size_of := size_of (objs st1 i) + 1\<rparr>)))) wf_store"
    proof (rule ensures_bind)
      fix st2
      assume "wf_store st2 \<and> objs st2 = objs st1"
      then show "ensures (Inr (set_obj st2 i ((objs st1 i)\<lparr>size_of := size_of (objs st1 i) + 1\<rparr>))) wf_store"
        using lt wf_set_size [of st2 "size_of (objs st1 i) + 1" i] by simp
    qed
  qed (simp add: ensures_def)
  show ?thesis
  proof (cases "size_of (objs st i) = capacity (objs st i)")
    case False
    with wf_size [OF wf, of i] go_on [OF wf] show ?thesis
      by (simp add: push_back_def Let_def not_released_same)
  next
    case True
    let ?n = "size_of (objs st i) * 2 + 5"
    have u: "to_uint64 (int ?n) = ?n"
      using wf_capacity [OF wf, of i] True by (intro to_uint64_of_nat) simp
    show ?thesis
    proof (cases "fits_memory ?n")
      case True
      with reserve_spec [OF wf, of i ?n] \<open>size_of (objs st i) = capacity (objs st i)\<close> obtain st1 where
        "reserve st i ?n = Inr st1" "wf_store st1" "size_of (objs st1 i) < capacity (objs st1 i)" by auto
      with go_on [of st1] u \<open>size_of (objs st i) = capacity (objs st i)\<close> show ?thesis
        by (simp add: push_back_def Let_def del: of_nat_add of_nat_mult)
    next
      case False
      with resize_too_large [OF wf, of i ?n 0] True have "is_error (reserve st i ?n)"
        by (cases "resize st i ?n 0") (auto simp: reserve_def Let_def)
      with u True show ?thesis
        by (cases "reserve st i ?n") (simp_all add: push_back_def Let_def del: of_nat_add of_nat_mult)
    qed
  qed
qed

lemma CopyFrom_data_wf: "wf_store st \<Longrightarrow> ensures (CopyFrom_data st i data n) wf_store"
  unfolding CopyFrom_data_def by (intro ensures_bind [OF resize_wf] memcpy_wf)

lemma CopyFrom_range_wf:
  assumes "wf_store st"
  shows "ensures (CopyFrom_range st i vs) wf_store"
proof -
  have "ensures (new_block st n) (\<lambda>(st1, b). wf_store (reset st1 i (Some (b, 0)) n True))" for n
    unfolding new_block_def wf_store_def
  proof (intro ensures_if, simp_all, intro impI allI)
    fix j
    assume "n < 4611686018427387904"
    then show "wf_array (reset (st\<lparr>blocks := (blocks st)(fresh st := replicate n None), fresh := Suc (fresh st)\<rparr>)
        i (Some (fresh st, 0)) n True)
        (objs (reset (st\<lparr>blocks := (blocks st)(fresh st := replicate n None), fresh := Suc (fresh st)\<rparr>)
        i (Some (fresh st, 0)) n True) j)"
      using wf_arrayD [OF assms, of j]
      by (cases "j = i") (auto simp: reset_def set_obj_def wf_array_def split: option.splits)
  qed
  then have "ensures (cxx_bind (new_block st n) (\<lambda>(st1, b).
      write_cells (reset st1 i (Some (b, 0)) n True) (Some (b, 0)) ws)) wf_store" for n ws
    by (rule ensures_bind) (auto intro: write_cells_wf)
  then show ?thesis by (simp add: CopyFrom_range_def Let_def)
qed

lemma empty_object_wf: "wf_store st \<Longrightarrow> wf_store (set_obj st i empty_array)"
  by (rule wf_set_obj) (simp_all add: wf_array_def empty_array_def)

lemma append_array_wf: "wf_store st \<Longrightarrow> ensures (append_array st i j) wf_store"
  unfolding append_array_def Let_def by (auto intro!: ensures_bind [OF resize_wf] memcpy_wf)

text \<open>
  C24. Well-formedness is an invariant, and what can break it is known exactly: on a well-formed store,
  whichever objects share memory, an operation that completes leaves every array with a size within
  its capacity and a capacity within its block, unless it makes a view of memory, or a segment, that is
  not inside a block (the bounds of a segment are not checked).
\<close>

theorem array_operations_keep_type:
  assumes "wf_store st" "exec st p = Inr st'"
  shows "wf_store st' \<longleftrightarrow> in_range st p"
proof -
  note wf = assms(1)
  have ok: ?thesis if "ensures (exec st p) wf_store" "in_range st p"
    using ensuresD [OF that(1) assms(2)] that(2) by simp
  note set_empty = empty_object_wf [OF wf]
  show ?thesis
  proof (cases p)
    case (Vector i q)
    have "ensures (apply_op st i q) wf_store"
      using pop_back_spec [OF wf] clear_spec [OF wf] reserve_wf [OF wf] resize_wf [OF wf]
        push_back_wf [OF wf] CopyFrom_range_wf [OF wf]
      by (cases q) simp_all
    with Vector show ?thesis by (intro ok) simp_all
  next
    case (View i data n del)
    with assms show ?thesis by (auto simp: SArray_data_def reset_def wf_set_obj_iff inside_wf)
  next
    case (New_shared i data n)
    with assms show ?thesis by (auto simp: SArray_shared_vector_def wf_set_obj_iff inside_wf)
  next
    case (Segment r i bgn end')
    with assms show ?thesis by (auto simp: segment_def wf_set_obj_iff inside_wf)
  next
    case (Copy_array i j)
    have "ensures (CopyFrom st i j) wf_store"
      using CopyFrom_data_wf [OF wf] wf by (simp add: CopyFrom_def ensures_if)
    with Copy_array show ?thesis by (intro ok) simp_all
  next
    case (Share i j)
    with wf show ?thesis by (intro ok) (auto simp: SArray_copy_def intro: wf_set_obj wf_arrayD)
  qed (intro ok; use wf in \<open>simp add: SArray_sized_def SArray_vector_def SArray_list_def index_set_def
      append_array_wf CopyFrom_data_wf write_cells_wf push_back_wf set_empty resize_wf CopyFrom_range_wf\<close>)+
qed

lemma array_operations_keep_type_witness:
  "\<exists>st' st2. exec example_store (Append 1 2) = Inr st' \<and> wf_store st'
     \<and> exec example_store (Segment 3 2 0 2) = Inr st2 \<and> \<not> wf_store st2"
proof -
  obtain st' where "append_array example_store 1 2 = Inr st'"
    using append_array_spec [OF example_wf, of 2 1] by (auto simp: separate_def fits_memory_def)
  then have e: "exec example_store (Append 1 2) = Inr st'" by simp
  have "\<not> in_range example_store (Segment 3 2 0 2)"
    by (simp add: inside_def shift_def to_uint64_def) (simp add: example_store_def)
  then have "\<not> wf_store (segment example_store 3 2 0 2)"
    using array_operations_keep_type [OF example_wf, of "Segment 3 2 0 2"] by simp
  moreover have "wf_store st'" using array_operations_keep_type [OF example_wf e] by simp
  ultimately show ?thesis using e by simp
qed

section \<open>Pushing an element\<close>

text \<open>
  C16. \<open>a.push_back(b[k])\<close>, where \<open>b\<close> may be \<open>a\<close> or share its memory: the element is appended, unless
  \<open>a\<close> is full and alone owns the block that the element is in. Then the block is released when \<open>a\<close>
  grows, before the element is read.
\<close>

theorem push_back_element:
  assumes wf: "wf_store st" and fit: "fits_memory (size_of (objs st i) * 2 + 5)"
    and k: "k < size_of (objs st j)" and p: "ptr (objs st j) = Some (b, off)"
  shows "if size_of (objs st i) = capacity (objs st i) \<and> owns (objs st i) b
        \<and> \<not> (\<exists>m < n_objs st. m \<noteq> i \<and> owns (objs st m) b)
    then push_back st i (Cell b (off + k)) = Inl Undefined_Behaviour
    else \<exists>st'. push_back st i (Cell b (off + k)) = Inr st' \<and> wf_store st'
      \<and> view st' i = view st i @ [view st j ! k]"
proof -
  have off: "off + k < length (blocks st b)" "b < fresh st"
    using wf_block [OF wf p] k by auto
  have v: "referenced st (Cell b (off + k)) = Inr (view st j ! k)"
    using index_view [OF wf k] p by (simp add: index_def offset_def nat_add_distrib)
  show ?thesis
  proof (cases "size_of (objs st i) = capacity (objs st i)")
    case False
    with wf_size [OF wf, of i] have lt: "size_of (objs st i) < capacity (objs st i)" by simp
    then have "size_of (objs st i) + length [view st j ! k] \<le> capacity (objs st i)" by simp
    note e = extend_spec [OF wf this]
    show ?thesis using push_back_extend [OF wf lt v] e(1,2) False by simp
  next
    case True
    show ?thesis
    proof (cases "owns (objs st i) b \<and> \<not> (\<exists>m < n_objs st. m \<noteq> i \<and> owns (objs st m) b)")
      case False
      from push_back_moves [OF wf True fit v] False off(2) show ?thesis by auto
    next
      case gone: True
      obtain st1 where r: "reserve st i (size_of (objs st i) * 2 + 5) = Inr st1"
        and o1: "ptr (objs st1 i) = Some (fresh st, 0)" "n_objs st1 = n_objs st" "\<forall>j. j \<noteq> i \<longrightarrow> objs st1 j = objs st j"
        using reserve_spec [OF wf _ fit, of i] True by auto
      have u: "to_uint64 (int (size_of (objs st i) * 2 + 5)) = size_of (objs st i) * 2 + 5"
        using fit by (intro to_uint64_of_nat) (simp add: fits_memory_def)
      have "released st st1 i b"
        using gone o1 off(2) by (auto simp: released_def owns_def)
      then have "push_back st i (Cell b (off + k)) = Inl Undefined_Behaviour"
        unfolding push_back_def Let_def if_P [OF True] u r cxx_bind_simps dangling.simps by simp
      with gone True show ?thesis by simp
    qed
  qed
qed

lemma push_back_element_witness:
  "push_back example_store 2 (Cell 1 0) = Inl Undefined_Behaviour
   \<and> (\<exists>st'. push_back example_store 1 (Cell 0 1) = Inr st' \<and> view st' 1 = [Some 2, Some 2])"
proof -
  have n: "n_objs example_store = 5" by (simp add: example_store_def)
  have "\<not> (\<exists>m < n_objs example_store. m \<noteq> 2 \<and> owns (objs example_store m) 1)"
    unfolding n by (auto simp: owns_def example_store_def empty_array_def split: if_splits)
  moreover have "\<exists>m < n_objs example_store. m \<noteq> 1 \<and> owns (objs example_store m) 0"
    unfolding n by (intro exI [of _ 0]) (simp add: owns_def)
  ultimately show ?thesis
    using push_back_element [OF example_wf, of 2 0 2 1 0] push_back_element [OF example_wf, of 1 0 1 0 1]
    by (auto simp: fits_memory_def owns_def)
qed

end
