(* ===== verification/Array_Cast.thy ===== *)
theory Array_Cast
  imports Shared_Array Hash_Murmur3
begin

text \<open>
  Casts between arrays of different element types (\<open>operator=(const SArray<W>&)\<close> of base/sarray.h),
  which share the memory: here the cells of the store are bytes, an object counts its size and
  capacity in its own elements, and the operations take the size of the element type, as the
  compiled code does. Numbers are little-endian, as in Hash_Murmur3.
\<close>

section \<open>Typed objects over bytes\<close>

text \<open>The assignment, after its check; the new pointer shares the ownership of the old one.\<close>

definition cast_assign :: "nat \<Rightarrow> nat \<Rightarrow> 'b store \<Rightarrow> nat \<Rightarrow> nat \<Rightarrow> 'b store cxx" where
  "cast_assign w v st i j =
     cxx_bind (cast_sizes w v (size_of (objs st j)) (capacity (objs st j))) (\<lambda>(n, c).
       Inr (set_obj st i \<lparr>ptr = ptr (objs st j), size_of = n, capacity = c, owner = owner (objs st j)\<rparr>))"

text \<open>Reading and writing element \<open>k\<close> of an object whose elements have \<open>v\<close> bytes.\<close>

definition typed_index :: "nat \<Rightarrow> 'b store \<Rightarrow> nat \<Rightarrow> int \<Rightarrow> 'b option list cxx" where
  "typed_index v st i k = read_cells st (offset (ptr (objs st i)) (k * int v)) v"

definition typed_index_set :: "nat \<Rightarrow> 'b store \<Rightarrow> nat \<Rightarrow> int \<Rightarrow> 'b list \<Rightarrow> 'b store cxx" where
  "typed_index_set v st i k bs = write_cells st (offset (ptr (objs st i)) (k * int v)) (map Some bs)"

text \<open>A number as the bytes of an element, and back.\<close>

primrec le_bytes :: "nat \<Rightarrow> 'a::len word \<Rightarrow> u8 list" where
  "le_bytes 0 x = []"
| "le_bytes (Suc n) x = ucast x # le_bytes n (drop_bit 8 x)"

definition number_at :: "nat \<Rightarrow> u8 store \<Rightarrow> nat \<Rightarrow> int \<Rightarrow> 'a::len word cxx" where
  "number_at v st i k = cxx_bind (typed_index v st i k) (\<lambda>bs.
     if None \<in> set bs then Inl Undefined_Behaviour else Inr (le_word (map the bs)))"

definition set_number :: "nat \<Rightarrow> u8 store \<Rightarrow> nat \<Rightarrow> int \<Rightarrow> 'a::len word \<Rightarrow> u8 store cxx" where
  "set_number v st i k x = typed_index_set v st i k (le_bytes v x)"

section \<open>The bytes of an object\<close>

definition wf_typed :: "nat \<Rightarrow> 'b store \<Rightarrow> nat \<Rightarrow> bool" where
  "wf_typed v st i \<longleftrightarrow> (case ptr (objs st i) of
     None \<Rightarrow> size_of (objs st i) = 0 \<and> capacity (objs st i) = 0
   | Some (b, off) \<Rightarrow> b < fresh st \<and> size_of (objs st i) \<le> capacity (objs st i)
       \<and> off + capacity (objs st i) * v \<le> length (blocks st b))"

definition bytes_of :: "nat \<Rightarrow> 'b store \<Rightarrow> nat \<Rightarrow> 'b option list" where
  "bytes_of v st i = (case ptr (objs st i) of
     None \<Rightarrow> []
   | Some (b, off) \<Rightarrow> take (size_of (objs st i) * v) (drop off (blocks st b)))"

lemma wf_typed_size:
  assumes "wf_typed v st i" "ptr (objs st i) = Some (b, off)"
  shows "off + size_of (objs st i) * v \<le> length (blocks st b)"
proof -
  have "size_of (objs st i) * v \<le> capacity (objs st i) * v"
    "off + capacity (objs st i) * v \<le> length (blocks st b)"
    using assms by (auto simp: wf_typed_def)
  then show ?thesis by linarith
qed

lemma length_bytes_of: "wf_typed v st i \<Longrightarrow> length (bytes_of v st i) = size_of (objs st i) * v"
  using wf_typed_size [of v st i]
  by (cases "ptr (objs st i)") (auto simp: bytes_of_def wf_typed_def)

lemma cast_assign_result:
  assumes "0 < v" "wf_typed w st j" "capacity (objs st j) * w < 2 ^ 64"
  shows "cast_assign w v st i j =
    (if v dvd size_of (objs st j) * w
     then Inr (set_obj st i \<lparr>ptr = ptr (objs st j), size_of = size_of (objs st j) * w div v,
                             capacity = capacity (objs st j) * w div v, owner = owner (objs st j)\<rparr>)
     else Inl Terminated)"
proof -
  have "size_of (objs st j) \<le> capacity (objs st j)"
    using assms(2) by (auto simp: wf_typed_def split: option.splits)
  then have "size_of (objs st j) * w \<le> capacity (objs st j) * w" by simp
  then have "size_of (objs st j) * w < 2 ^ 64" using assms(3) by linarith
  from cast_sizes_iff [OF assms(1) this assms(3)] show ?thesis by (simp add: cast_assign_def)
qed

lemma cast_assign_wf:
  assumes "0 < v" "wf_typed w st j" "v dvd size_of (objs st j) * w"
    and "st' = set_obj st i \<lparr>ptr = ptr (objs st j), size_of = size_of (objs st j) * w div v,
      capacity = capacity (objs st j) * w div v, owner = owner (objs st j)\<rparr>"
  shows "wf_typed v st' i" "bytes_of v st' i = bytes_of w st j"
proof -
  have le: "off + capacity (objs st j) * w div v * v \<le> n"
    if "off + capacity (objs st j) * w \<le> n" for off n
    using div_times_less_eq_dividend [of "capacity (objs st j) * w" v] that by linarith
  have "size_of (objs st j) * w div v \<le> capacity (objs st j) * w div v"
    if "size_of (objs st j) \<le> capacity (objs st j)" using that by (simp add: div_le_mono)
  with assms le show "wf_typed v st' i"
    by (auto simp: wf_typed_def set_obj_def split: option.splits)
  show "bytes_of v st' i = bytes_of w st j"
    using assms(3) by (auto simp: bytes_of_def assms(4) set_obj_def split: option.split)
qed

section \<open>Writing through a cast\<close>

lemma offset_nat: "offset p (int n) = shift p n"
  by (auto simp: offset_def shift_def nat_add_distrib split: option.split)

lemma element_inside: "k < n \<Longrightarrow> k * v + v \<le> n * (v :: nat)"
  by (metis Suc_leI add.commute mult_Suc mult_le_mono1)

lemma take_drop_overwrite:
  assumes "k + length ys \<le> n" "off + n \<le> length xs"
  shows "take n (drop off (overwrite xs (off + k) ys)) = overwrite (take n (drop off xs)) k ys"
proof -
  define D where "D = drop off xs"
  have "drop off (overwrite xs (off + k) ys) = take k D @ ys @ drop (k + length ys) D"
    using assms by (simp add: D_def overwrite_def drop_take add.assoc add.commute add.left_commute)
  moreover have "length (take k D) = k" using assms by (simp add: D_def)
  then have "take n (take k D @ ys @ drop (k + length ys) D) =
      take k D @ ys @ take (n - (k + length ys)) (drop (k + length ys) D)"
    using assms(1) by simp
  moreover have "take k (take n D) = take k D" using assms(1) by (simp add: min_absorb1)
  ultimately show ?thesis by (simp only: overwrite_def drop_take flip: D_def)
qed

lemma typed_index_set_shared:
  assumes "wf_typed v st i" "k < size_of (objs st i)" "length bs = v" "0 < v"
  shows "\<exists>st'. typed_index_set v st i (int k) bs = Inr st' \<and> objs st' = objs st
    \<and> (\<forall>m u. wf_typed u st m \<longrightarrow> ptr (objs st m) = ptr (objs st i) \<longrightarrow>
         size_of (objs st m) * u = size_of (objs st i) * v \<longrightarrow>
         bytes_of u st' m = overwrite (bytes_of v st i) (k * v) (map Some bs))"
proof -
  obtain b off where p: "ptr (objs st i) = Some (b, off)"
    using assms(1,2) by (cases "ptr (objs st i)") (auto simp: wf_typed_def)
  define n where "n = size_of (objs st i) * v"
  have inside: "off + n \<le> length (blocks st b)" "k * v + length (map Some bs) \<le> n"
    using wf_typed_size [OF assms(1) p] element_inside [OF assms(2), of v] assms(3) by (simp_all add: n_def)
  define st' where "st' = st\<lparr>blocks := (blocks st)(b := overwrite (blocks st b) (off + k * v) (map Some bs))\<rparr>"
  have "offset (Some (b, off)) (int k * int v) = Some (b, off + k * v)"
    using offset_nat [of "Some (b, off)" "k * v"] by (simp add: shift_def)
  then have "typed_index_set v st i (int k) bs = Inr st'"
    using inside assms(3,4) by (auto simp: typed_index_set_def p write_cells_def st'_def)
  moreover have "bytes_of u st' m = overwrite (bytes_of v st i) (k * v) (map Some bs)"
    if "ptr (objs st m) = ptr (objs st i)" "size_of (objs st m) * u = n" for m u
    using that p take_drop_overwrite [OF inside(2,1)]
    by (simp add: bytes_of_def st'_def flip: n_def)
  ultimately show ?thesis by (intro exI [of _ st']) (simp add: st'_def flip: n_def)
qed

text \<open>
  C25. A cast shares the memory: the assignment of an array with elements of \<open>w\<close> bytes to one with
  elements of \<open>v\<close> bytes ends in the check exactly when the bytes cannot be divided; otherwise the
  result shows the same bytes in as many elements as they make, the original is left as it is, and
  what is stored in an element of the result is from then on seen at the same bytes of both.
\<close>

theorem cast_shares_memory:
  assumes "0 < v" "wf_typed w st j" "capacity (objs st j) * w < 2 ^ 64" "i \<noteq> j"
  shows "(\<not> v dvd size_of (objs st j) * w \<longrightarrow> cast_assign w v st i j = Inl Terminated)
    \<and> (v dvd size_of (objs st j) * w \<longrightarrow>
        (\<exists>st'. cast_assign w v st i j = Inr st' \<and> objs st' j = objs st j \<and> wf_typed v st' i
          \<and> size_of (objs st' i) * v = size_of (objs st j) * w
          \<and> bytes_of v st' i = bytes_of w st j
          \<and> (k < size_of (objs st' i) \<longrightarrow> length bs = v \<longrightarrow>
              (\<exists>st''. typed_index_set v st' i (int k) bs = Inr st''
                \<and> bytes_of v st'' i = overwrite (bytes_of w st j) (k * v) (map Some bs)
                \<and> bytes_of w st'' j = overwrite (bytes_of w st j) (k * v) (map Some bs)))))"
proof (intro conjI impI)
  assume "\<not> v dvd size_of (objs st j) * w"
  then show "cast_assign w v st i j = Inl Terminated"
    by (simp add: cast_assign_result [OF assms(1-3)])
next
  assume d: "v dvd size_of (objs st j) * w"
  define st' where "st' = set_obj st i \<lparr>ptr = ptr (objs st j), size_of = size_of (objs st j) * w div v,
    capacity = capacity (objs st j) * w div v, owner = owner (objs st j)\<rparr>"
  note c = cast_assign_wf [OF assms(1,2) d st'_def]
  have run: "cast_assign w v st i j = Inr st'"
    using d by (simp add: cast_assign_result [OF assms(1-3)] st'_def)
  have o: "objs st' j = objs st j" "ptr (objs st' i) = ptr (objs st' j)"
    "size_of (objs st' i) * v = size_of (objs st j) * w"
    using assms(4) d by (simp_all add: st'_def set_obj_def)
  have j: "wf_typed w st' j"
    using assms(2,4) by (auto simp: wf_typed_def st'_def set_obj_def split: option.splits)
  have "\<exists>st''. typed_index_set v st' i (int k) bs = Inr st''
      \<and> bytes_of v st'' i = overwrite (bytes_of w st j) (k * v) (map Some bs)
      \<and> bytes_of w st'' j = overwrite (bytes_of w st j) (k * v) (map Some bs)"
    if "k < size_of (objs st' i)" "length bs = v"
    using typed_index_set_shared [OF c(1) that assms(1)] c j o by force
  with run o(1,3) c show "\<exists>st'. cast_assign w v st i j = Inr st' \<and> objs st' j = objs st j \<and> wf_typed v st' i
      \<and> size_of (objs st' i) * v = size_of (objs st j) * w \<and> bytes_of v st' i = bytes_of w st j
      \<and> (k < size_of (objs st' i) \<longrightarrow> length bs = v \<longrightarrow>
          (\<exists>st''. typed_index_set v st' i (int k) bs = Inr st''
            \<and> bytes_of v st'' i = overwrite (bytes_of w st j) (k * v) (map Some bs)
            \<and> bytes_of w st'' j = overwrite (bytes_of w st j) (k * v) (map Some bs)))"
    by blast
qed

section \<open>Numbers in arrays\<close>

lemma length_le_bytes [simp]: "length (le_bytes n x) = n"
  by (induction n arbitrary: x) simp_all

lemma le_word_le_bytes:
  "le_word (le_bytes n x) = take_bit (8 * n) (x :: 'a::len word)"
proof (induction n arbitrary: x)
  case (Suc n)
  show ?case
    by (rule bit_word_eqI) (auto simp: Suc bit_or_iff bit_ucast_iff bit_push_bit_iff bit_take_bit_iff bit_drop_bit_eq)
qed simp

lemma typed_index_bytes:
  assumes "wf_typed v st i" "k < size_of (objs st i)" "0 < v"
  shows "typed_index v st i (int k) = Inr (take v (drop (k * v) (bytes_of v st i)))"
proof -
  obtain b off where p: "ptr (objs st i) = Some (b, off)"
    using assms(1,2) by (cases "ptr (objs st i)") (auto simp: wf_typed_def)
  have n: "off + size_of (objs st i) * v \<le> length (blocks st b)" "k * v + v \<le> size_of (objs st i) * v"
    by (rule wf_typed_size [OF assms(1) p], rule element_inside [OF assms(2)])
  have "offset (Some (b, off)) (int k * int v) = Some (b, off + k * v)"
    using offset_nat [of "Some (b, off)" "k * v"] by (simp add: shift_def)
  then show ?thesis
    using n assms(3) by (auto simp: typed_index_def read_cells_def bytes_of_def p drop_take min_def add.commute)
qed

text \<open>A number that is stored in an element is read back, if the element has its size.\<close>

lemma number_round_trip:
  assumes "wf_typed v st i" "k < size_of (objs st i)" "8 * v = LENGTH('a::len)"
  shows "\<exists>st'. set_number v st i (int k) (x :: 'a word) = Inr st' \<and> number_at v st' i (int k) = Inr x"
proof -
  have v: "0 < v" using assms(3) len_gt_0 [where 'a = 'a] by linarith
  obtain st' where s: "set_number v st i (int k) x = Inr st'" "objs st' = objs st"
      "bytes_of v st' i = overwrite (bytes_of v st i) (k * v) (map Some (le_bytes v x))"
    using typed_index_set_shared [OF assms(1,2) length_le_bytes v] assms(1)
    unfolding set_number_def by metis
  have len: "length (bytes_of v st i) = size_of (objs st i) * v" by (rule length_bytes_of [OF assms(1)])
  have wf: "wf_typed v st' i"
  proof -
    have "length (bytes_of v st' i) = size_of (objs st' i) * v"
      using s(2,3) len element_inside [OF assms(2), of v] by simp
    obtain b off where p: "ptr (objs st i) = Some (b, off)"
      using assms(1,2) by (cases "ptr (objs st i)") (auto simp: wf_typed_def)
    have "length (blocks st' c) = length (blocks st c) \<and> fresh st' = fresh st" for c
      using s(1) p
      by (auto simp: set_number_def typed_index_set_def write_cells_def offset_def split: if_splits)
    with assms(1) s(2) show ?thesis by (auto simp: wf_typed_def split: option.splits)
  qed
  have "length (take (k * v) (bytes_of v st i)) = k * v"
    using len element_inside [OF assms(2), of v] by simp
  then have "take v (drop (k * v) (bytes_of v st' i)) = map Some (le_bytes v x)"
    unfolding s(3) overwrite_def by simp
  with typed_index_bytes [OF wf _ v, of k] assms(2) s(2)
  have "typed_index v st' i (int k) = Inr (map Some (le_bytes v x))" by simp
  moreover have "le_word (le_bytes v x) = x"
    using assms(3) by (simp add: le_word_le_bytes take_bit_word_eq_self)
  ultimately have "number_at v st' i (int k) = Inr x"
    by (simp add: number_at_def comp_def image_iff)
  with s(1) show ?thesis by blast
qed

text \<open>
  Two 32-bit numbers, seen as eight bytes: the example of the class comment. Storing a byte changes the
  first number.
\<close>

definition number_store :: "u8 store" where
  "number_store = \<lparr>blocks = (\<lambda>b. map Some (le_bytes 4 (0x01020304 :: u32) @ le_bytes 4 (7 :: u32))), fresh = 1,
     objs = (\<lambda>i. if i = 0 then \<lparr>ptr = Some (0, 0), size_of = 2, capacity = 2, owner = True\<rparr> else empty_array),
     n_objs = 3\<rparr>"

lemma number_store_bytes: "bytes_of 4 number_store 0 = map Some [4, 3, 2, 1, 7, 0, 0, 0]"
proof -
  have "le_bytes 4 (0x01020304 :: u32) = [4, 3, 2, 1]" "le_bytes 4 (7 :: u32) = [7, 0, 0, 0]"
    by code_simp+
  then show ?thesis by (simp add: bytes_of_def number_store_def)
qed

lemma cast_shares_memory_witness:
  "\<exists>st' st''. cast_assign 4 1 number_store 1 0 = Inr st' \<and> size_of (objs st' 1) = 8
     \<and> bytes_of 1 st' 1 = map Some [4, 3, 2, 1, 7, 0, 0, 0]
     \<and> typed_index_set 1 st' 1 1 [9] = Inr st'' \<and> bytes_of 4 st'' 0 = map Some [4, 9, 2, 1, 7, 0, 0, 0]"
  using cast_shares_memory [of 1 4 number_store 0 1 1 "[9]"]
  by (auto simp: number_store_bytes wf_typed_def overwrite_def) (auto simp: number_store_def)

end
