(* ===== verification/Static_Storage.thy ===== *)
theory Static_Storage
  imports Prelude
begin

text \<open>
  Functions with static variables: \<open>Singleton\<close> of base/singleton.h (and the \<open>Instance\<close> functions of
  the other classes, which are the same), and the generators of base/random.h, which keep an engine
  and a distribution for each thread. A static variable is initialised by the first call that
  reaches it, exactly once, also when threads race for it; later calls skip the initialiser.
\<close>

section \<open>A static variable\<close>

text \<open>The variable (\<open>None\<close> before its initialisation) and the value of its initialiser.\<close>

definition static_var :: "'v option \<Rightarrow> 'v \<Rightarrow> 'v option \<times> 'v" where
  "static_var x init = (case x of None \<Rightarrow> (Some init, init) | Some v \<Rightarrow> (x, v))"

section \<open>Singleton\<close>

text \<open>
  \<open>heap\<close> counts the objects constructed so far, so the address of the next one is fresh; an object
  is named by its address.
\<close>

record Singleton =
  instance_of :: "nat option"
  heap :: nat

definition Singleton_Instance :: "Singleton \<Rightarrow> Singleton \<times> nat" where
  "Singleton_Instance s =
     (let (x, v) = static_var (instance_of s) (heap s)
      in (s\<lparr>instance_of := x, heap := (if instance_of s = None then heap s + 1 else heap s)\<rparr>, v))"

primrec Instance_calls :: "nat \<Rightarrow> Singleton \<Rightarrow> Singleton \<times> nat list" where
  "Instance_calls 0 s = (s, [])"
| "Instance_calls (Suc n) s =
     (let (s1, v) = Singleton_Instance s; (s2, vs) = Instance_calls n s1 in (s2, v # vs))"

text \<open>All calls return the same object, and at most one is constructed.\<close>

lemma Singleton_one_instance:
  "Instance_calls n s =
    (if n = 0 \<or> instance_of s \<noteq> None then s else s\<lparr>instance_of := Some (heap s), heap := heap s + 1\<rparr>,
     replicate n (case instance_of s of None \<Rightarrow> heap s | Some v \<Rightarrow> v))"
proof (induction n arbitrary: s)
  case (Suc n)
  show ?case
    using Suc.IH [of "fst (Singleton_Instance s)"]
    by (cases "instance_of s") (auto simp: Singleton_Instance_def static_var_def Let_def)
qed simp

section \<open>Random numbers\<close>

text \<open>
  What the code uses of the header \<open>random\<close> is an argument: the engine made from a seed, a
  distribution made from its parameters, and the drawing of a number, which advances both.
\<close>

record ('g, 'd, 'p, 'r) random_library =
  engine :: "nat \<Rightarrow> 'g"
  distribution :: "'p \<Rightarrow> 'd"
  draw :: "'d \<Rightarrow> 'g \<Rightarrow> 'r \<times> 'd \<times> 'g"

text \<open>
  The thread-local static variables of one function, by thread, and the numbers that the random
  device \<open>rd\<close> gives, with the count of those used.
\<close>

record ('g, 'd) random_state =
  device :: "nat \<Rightarrow> nat"
  used :: nat
  generator :: "nat \<Rightarrow> 'g option"
  distribution_var :: "nat \<Rightarrow> 'd option"

definition Random_start :: "(nat \<Rightarrow> nat) \<Rightarrow> ('g, 'd) random_state" where
  "Random_start dev = \<lparr>device = dev, used = 0, generator = (\<lambda>_. None), distribution_var = (\<lambda>_. None)\<rparr>"

text \<open>
  \<open>NormalRandom(mean, stddev)\<close> and \<open>UniformRandom(min, max)\<close> in thread \<open>t\<close> on a Unix system: the pair of
  arguments is \<open>p\<close>, and the two functions differ in the distribution only, which is in \<open>lib\<close>.
\<close>

definition Random_unix ::
  "('g, 'd, 'p, 'r) random_library \<Rightarrow> nat \<Rightarrow> 'p \<Rightarrow> ('g, 'd) random_state \<Rightarrow> ('g, 'd) random_state \<times> 'r" where
  "Random_unix lib t p s =
     (let (gv, g) = static_var (generator s t) (engine lib (device s (used s)));
          used' = (if generator s t = None then used s + 1 else used s);
          (dv, d) = static_var (distribution_var s t) (distribution lib p);
          (r, d', g') = draw lib d g
      in (s\<lparr>used := used', generator := (generator s)(t \<mapsto> g'),
            distribution_var := (distribution_var s)(t \<mapsto> d')\<rparr>, r))"

text \<open>On the other systems the variables are local: every call makes new ones.\<close>

definition Random_other ::
  "('g, 'd, 'p, 'r) random_library \<Rightarrow> 'p \<Rightarrow> ('g, 'd) random_state \<Rightarrow> ('g, 'd) random_state \<times> 'r" where
  "Random_other lib p s =
     (let (r, d', g') = draw lib (distribution lib p) (engine lib (device s (used s)))
      in (s\<lparr>used := used s + 1\<rparr>, r))"

text \<open>A sequence of calls, each of a thread with its arguments, and the numbers returned.\<close>

primrec Random_calls ::
  "('g, 'd, 'p, 'r) random_library \<Rightarrow> (nat \<times> 'p) list \<Rightarrow> ('g, 'd) random_state \<Rightarrow> (nat \<times> 'r) list" where
  "Random_calls lib [] s = []"
| "Random_calls lib (c # cs) s =
     (let (s', r) = Random_unix lib (fst c) (snd c) s in (fst c, r) # Random_calls lib cs s')"

text \<open>The first \<open>n\<close> numbers drawn from one distribution with one engine.\<close>

primrec drawn :: "('g, 'd, 'p, 'r) random_library \<Rightarrow> nat \<Rightarrow> 'd \<Rightarrow> 'g \<Rightarrow> 'r list" where
  "drawn lib 0 d g = []"
| "drawn lib (Suc n) d g = (let (r, d', g') = draw lib d g in r # drawn lib n d' g')"

text \<open>What thread \<open>t\<close> gets and what it asks for.\<close>

definition of_thread :: "nat \<Rightarrow> (nat \<times> 'a) list \<Rightarrow> 'a list" where
  "of_thread t xs = map snd (filter (\<lambda>x. fst x = t) xs)"

lemma of_thread_simps [simp]:
  "of_thread t [] = []"
  "of_thread t (x # xs) = (if fst x = t then snd x # of_thread t xs else of_thread t xs)"
  by (simp_all add: of_thread_def)

lemma Random_unix_other:
  "u \<noteq> t \<Longrightarrow> generator (fst (Random_unix lib u p s)) t = generator s t
    \<and> distribution_var (fst (Random_unix lib u p s)) t = distribution_var s t"
  by (simp add: Random_unix_def Let_def split: prod.split)

lemma Random_unix_initialised:
  assumes "generator s t = Some g" "distribution_var s t = Some d" and "draw lib d g = (r, d', g')"
  shows "Random_unix lib t p s =
    (s\<lparr>generator := (generator s)(t \<mapsto> g'), distribution_var := (distribution_var s)(t \<mapsto> d')\<rparr>, r)"
  using assms by (simp add: Random_unix_def static_var_def)

lemma Random_calls_initialised:
  "generator s t = Some g \<Longrightarrow> distribution_var s t = Some d \<Longrightarrow>
    of_thread t (Random_calls lib cs s) = drawn lib (length (of_thread t cs)) d g"
proof (induction cs arbitrary: s g d)
  case (Cons c cs)
  show ?case
  proof (cases "fst c = t")
    case True
    obtain r d' g' where dr: "draw lib d g = (r, d', g')" by (cases "draw lib d g") auto
    note u = Random_unix_initialised [OF Cons.prems dr, of "snd c"]
    from True u dr show ?thesis by (simp add: Cons.IH)
  next
    case False
    with Cons.prems Random_unix_other [OF False, of lib "snd c" s] Cons.IH [of "fst (Random_unix lib (fst c) (snd c) s)"]
    show ?thesis by (simp add: split: prod.split) (metis fst_conv)
  qed
qed simp

text \<open>
  On a Unix system the arguments of a random number count only in a thread's first call: all
  numbers that a thread ever gets are drawn from the distribution of its first arguments, with an
  engine seeded once, however the calls of the threads interleave and whatever they ask for later.
\<close>

lemma Random_first_arguments_win:
  assumes "of_thread t cs = p # ps"
  shows "\<exists>k. of_thread t (Random_calls lib cs (Random_start dev)) =
    drawn lib (Suc (length ps)) (distribution lib p) (engine lib (dev k))"
proof -
  have "\<exists>k. of_thread t (Random_calls lib cs s) =
      drawn lib (Suc (length ps)) (distribution lib p) (engine lib (dev k))"
    if "generator s t = None" "distribution_var s t = None" "device s = dev" for s
    using assms that
  proof (induction cs arbitrary: s)
    case (Cons c cs)
    show ?case
    proof (cases "fst c = t")
      case True
      obtain r d' g' where dr: "draw lib (distribution lib p) (engine lib (dev (used s))) = (r, d', g')"
        by (cases "draw lib (distribution lib p) (engine lib (dev (used s)))") auto
      have "Random_calls lib (c # cs) s = (t, r) # Random_calls lib cs (s\<lparr>used := used s + 1,
          generator := (generator s)(t \<mapsto> g'), distribution_var := (distribution_var s)(t \<mapsto> d')\<rparr>)"
        using True Cons.prems dr by (simp add: Random_unix_def static_var_def)
      with True Cons.prems dr show ?thesis
        by (intro exI [of _ "used s"]) (simp add: Random_calls_initialised)
    next
      case False
      define s' where "s' = fst (Random_unix lib (fst c) (snd c) s)"
      have "device s' = dev"
        using Cons.prems(4) by (simp add: s'_def Random_unix_def Let_def split: prod.split)
      then obtain k where "of_thread t (Random_calls lib cs s') =
          drawn lib (Suc (length ps)) (distribution lib p) (engine lib (dev k))"
        using Random_unix_other [OF False, of lib "snd c" s] Cons.prems False Cons.IH [of s']
        by (auto simp: s'_def simp del: drawn.simps)
      moreover have "of_thread t (Random_calls lib (c # cs) s) = of_thread t (Random_calls lib cs s')"
        using False by (simp add: s'_def split: prod.split)
      ultimately show ?thesis by metis
    qed
  qed simp
  then show ?thesis by (simp add: Random_start_def)
qed

text \<open>
  A library of numbers: the engine is a counter and the distribution adds its parameter. The second
  argument of thread 0 is ignored.
\<close>

lemma Random_first_arguments_win_witness:
  "let lib = \<lparr>engine = (\<lambda>seed. seed), distribution = (\<lambda>p. p), draw = (\<lambda>d g. (d + g, d, g + 1))\<rparr>;
       cs = [(1, 5), (0, 100), (0, 200), (1, 7)]
   in \<exists>k. of_thread 0 (Random_calls lib cs (Random_start (\<lambda>n. 10 * n))) = [100 + 10 * k, 101 + 10 * k :: nat]"
  unfolding Let_def
  using Random_first_arguments_win [of 0 "[(1, 5), (0, 100), (0, 200), (1, 7)]" 100 "[200 :: nat]"
      "\<lparr>engine = (\<lambda>seed. seed), distribution = (\<lambda>p. p), draw = (\<lambda>d g. (d + g, d, g + 1))\<rparr>" "\<lambda>n. 10 * n"]
  by simp

end
