(* ===== verification/Fifo_Spec.thy ===== *)
theory Fifo_Spec
  imports Prelude
begin

text \<open>
  What a first-in first-out channel promises, as an abstract system that knows nothing of locks,
  buffers or threads: the values put in and the values got out, in order. The blocking queues, the
  thread pool and the asynchronous logger are refinements of it. \<open>room\<close> is the number of
  values it may hold, if that is limited.
\<close>

record 'v fifo =
  put_in :: "'v list"
  got_out :: "'v list"

definition fifo_empty :: "'v fifo" where
  "fifo_empty = \<lparr>put_in = [], got_out = []\<rparr>"

definition in_transit :: "'v fifo \<Rightarrow> nat" where
  "in_transit q = length (put_in q) - length (got_out q)"

inductive fifo_step :: "nat option \<Rightarrow> 'v fifo \<Rightarrow> 'v fifo \<Rightarrow> bool" for room where
  put: "(\<And>n. room = Some n \<Longrightarrow> in_transit q < n) \<Longrightarrow>
    fifo_step room q (q\<lparr>put_in := put_in q @ [v]\<rparr>)"
| get: "put_in q = got_out q @ v # vs \<Longrightarrow> fifo_step room q (q\<lparr>got_out := got_out q @ [v]\<rparr>)"

text \<open>What is got out is a prefix of what was put in, and the rest fits the room.\<close>

definition fifo_ok :: "nat option \<Rightarrow> 'v fifo \<Rightarrow> bool" where
  "fifo_ok room q \<longleftrightarrow> (\<exists>rest. put_in q = got_out q @ rest \<and> (\<forall>n. room = Some n \<longrightarrow> length rest \<le> n))"

interpretation fifo: inductive_invariant "\<lambda>q. q = fifo_empty" "fifo_step room" "fifo_ok room" for room
proof (unfold_locales, goal_cases)
  case 1
  then show ?case by (simp add: fifo_ok_def fifo_empty_def)
next
  case 2
  from 2(2,1) show ?case
    by (induction rule: fifo_step.induct) (fastforce simp: fifo_ok_def in_transit_def)+
qed

lemmas fifo_reachable_ok = fifo.reachable_inv

text \<open>Many values at once.\<close>

lemma fifo_puts: "(fifo_step None)\<^sup>*\<^sup>* \<lparr>put_in = xs, got_out = ys\<rparr> \<lparr>put_in = xs @ vs, got_out = ys\<rparr>"
proof (induction vs rule: rev_induct)
  case (snoc v vs)
  have "fifo_step None \<lparr>put_in = xs @ vs, got_out = ys\<rparr> \<lparr>put_in = xs @ vs @ [v], got_out = ys\<rparr>"
    using fifo_step.put [of None "\<lparr>put_in = xs @ vs, got_out = ys\<rparr>" v] by simp
  with snoc show ?case by (rule rtranclp.rtrancl_into_rtrancl)
qed simp

lemma fifo_gets:
  "xs = ys @ vs @ zs \<Longrightarrow>
    (fifo_step None)\<^sup>*\<^sup>* \<lparr>put_in = xs, got_out = ys\<rparr> \<lparr>put_in = xs, got_out = ys @ vs\<rparr>"
proof (induction vs arbitrary: zs rule: rev_induct)
  case (snoc v vs)
  have "fifo_step None \<lparr>put_in = xs, got_out = ys @ vs\<rparr> \<lparr>put_in = xs, got_out = ys @ vs @ [v]\<rparr>"
    using fifo_step.get [of "\<lparr>put_in = xs, got_out = ys @ vs\<rparr>" v zs None] snoc.prems by simp
  with snoc.IH [of "v # zs"] snoc.prems show ?case by (auto intro: rtranclp.rtrancl_into_rtrancl)
qed simp

end
