(* ===== verification/Blocking_Queue.thy ===== *)
theory Blocking_Queue
  imports Fifo_Spec
begin

text \<open>
  The queues of base/threadsafe_queue.h. Both are monitors: every operation holds \<open>mutex_\<close> from
  its first to its last statement (the notification included), except while it waits on a condition
  variable. So an operation is modelled by the attempt it makes whenever it holds the lock: it
  either completes or goes to sleep.
  The threads that call the queue are a step relation over these attempts.
\<close>

section \<open>The two queues\<close>

record 'v BlockingQueue =
  queue :: "'v list"

record 'v BoundedBlockingQueue =
  capacity_size :: int
  bqueue :: "'v list"

datatype 'v call = Push 'v | WaitTake

text \<open>
  An attempt returns the queue afterwards and, for a take, the value; \<open>None\<close> means that the
  predicate of the wait is false, so the caller sleeps.
\<close>

definition BlockingQueue_new :: "'v BlockingQueue" where
  "BlockingQueue_new = \<lparr>queue = []\<rparr>"

fun Blocking_attempt :: "'v BlockingQueue \<Rightarrow> 'v call \<Rightarrow> ('v BlockingQueue \<times> 'v option) option" where
  "Blocking_attempt q (Push v) = Some (q\<lparr>queue := queue q @ [v]\<rparr>, None)"
| "Blocking_attempt q WaitTake =
     (if queue q \<noteq> [] then Some (q\<lparr>queue := tl (queue q)\<rparr>, Some (hd (queue q))) else None)"

definition Blocking_Empty :: "'v BlockingQueue \<Rightarrow> bool" where
  "Blocking_Empty q \<longleftrightarrow> queue q = []"

definition Blocking_Size :: "'v BlockingQueue \<Rightarrow> nat" where
  "Blocking_Size q = length (queue q)"

definition BoundedBlockingQueue_new :: "int \<Rightarrow> 'v BoundedBlockingQueue" where
  "BoundedBlockingQueue_new n = \<lparr>capacity_size = n, bqueue = []\<rparr>"

text \<open>
  \<open>queue_.size() < capacity_size_\<close> compares a \<open>size_t\<close> with an \<open>int\<close>, which is converted to
  \<open>size_t\<close> first.
  The \<open>assert\<close> of \<open>Push\<close> repeats the predicate of the wait before it, so it never fails.
\<close>

definition limit :: "'v BoundedBlockingQueue \<Rightarrow> nat" where
  "limit q = to_uint64 (capacity_size q)"

fun Bounded_attempt ::
  "'v BoundedBlockingQueue \<Rightarrow> 'v call \<Rightarrow> ('v BoundedBlockingQueue \<times> 'v option) option" where
  "Bounded_attempt q (Push v) =
     (if length (bqueue q) < limit q then Some (q\<lparr>bqueue := bqueue q @ [v]\<rparr>, None) else None)"
| "Bounded_attempt q WaitTake =
     (if bqueue q \<noteq> [] then Some (q\<lparr>bqueue := tl (bqueue q)\<rparr>, Some (hd (bqueue q))) else None)"

definition Bounded_Full :: "'v BoundedBlockingQueue \<Rightarrow> bool" where
  "Bounded_Full q \<longleftrightarrow> limit q = length (bqueue q)"

definition Bounded_Empty :: "'v BoundedBlockingQueue \<Rightarrow> bool" where
  "Bounded_Empty q \<longleftrightarrow> bqueue q = []"

definition Bounded_Size :: "'v BoundedBlockingQueue \<Rightarrow> nat" where
  "Bounded_Size q = length (bqueue q)"

text \<open>
  Which sleepers a completed operation wakes with \<open>notify_all\<close>: a push the takers; a take the
  pushers of the bounded queue, and nobody in the unbounded one, which has a single condition
  variable and notifies it from \<open>Push\<close> only.
\<close>

fun Blocking_wakes :: "'v call \<Rightarrow> 'v call \<Rightarrow> bool" where
  "Blocking_wakes (Push _) WaitTake = True"
| "Blocking_wakes _ _ = False"

fun Bounded_wakes :: "'v call \<Rightarrow> 'v call \<Rightarrow> bool" where
  "Bounded_wakes (Push _) WaitTake = True"
| "Bounded_wakes WaitTake (Push _) = True"
| "Bounded_wakes _ _ = False"

section \<open>Threads that call a queue\<close>

text \<open>
  A thread is outside the queue, about to acquire the lock, or asleep on the condition variable
  of its operation. The lists \<open>pushed\<close> and \<open>taken\<close> record the completed operations, in order.
\<close>

datatype 'v thread = Outside | Calling "'v call" | Asleep "'v call"

record ('q, 'v) system =
  monitor :: 'q
  threads :: "nat \<Rightarrow> 'v thread"
  pushed :: "'v list"
  taken :: "(nat \<times> 'v) list"

definition system_init :: "'q \<Rightarrow> ('q, 'v) system" where
  "system_init q = \<lparr>monitor = q, threads = (\<lambda>_. Outside), pushed = [], taken = []\<rparr>"

definition wake_up :: "('v call \<Rightarrow> bool) \<Rightarrow> (nat \<Rightarrow> 'v thread) \<Rightarrow> nat \<Rightarrow> 'v thread" where
  "wake_up w th t = (case th t of Asleep c \<Rightarrow> (if w c then Calling c else Asleep c) | x \<Rightarrow> x)"

lemma wake_up_asleep [simp]: "wake_up w th t = Asleep c \<longleftrightarrow> th t = Asleep c \<and> \<not> w c"
  by (auto simp: wake_up_def split: thread.splits)

fun record_call :: "nat \<Rightarrow> 'v call \<Rightarrow> 'v option \<Rightarrow> ('q, 'v) system \<Rightarrow> ('q, 'v) system" where
  "record_call t (Push v) r s = s\<lparr>pushed := pushed s @ [v]\<rparr>"
| "record_call t WaitTake (Some x) s = s\<lparr>taken := taken s @ [(t, x)]\<rparr>"
| "record_call t WaitTake None s = s"

inductive queue_step ::
  "('q \<Rightarrow> 'v call \<Rightarrow> ('q \<times> 'v option) option) \<Rightarrow> ('v call \<Rightarrow> 'v call \<Rightarrow> bool) \<Rightarrow>
   ('q, 'v) system \<Rightarrow> ('q, 'v) system \<Rightarrow> bool"
  for attempt wakes where
  call: "threads s t = Outside \<Longrightarrow>
    queue_step attempt wakes s (s\<lparr>threads := (threads s)(t := Calling c)\<rparr>)"
| complete: "threads s t = Calling c \<Longrightarrow> attempt (monitor s) c = Some (q, r) \<Longrightarrow>
    queue_step attempt wakes s
      (record_call t c r (s\<lparr>monitor := q, threads := wake_up (wakes c) ((threads s)(t := Outside))\<rparr>))"
| sleep: "threads s t = Calling c \<Longrightarrow> attempt (monitor s) c = None \<Longrightarrow>
    queue_step attempt wakes s (s\<lparr>threads := (threads s)(t := Asleep c)\<rparr>)"
| spurious: "threads s t = Asleep c \<Longrightarrow>
    queue_step attempt wakes s (s\<lparr>threads := (threads s)(t := Calling c)\<rparr>)"

text \<open>What the completed operations of the threads have put into the queue and got out of it.\<close>

definition history :: "('q, 'v) system \<Rightarrow> 'v fifo" where
  "history s = \<lparr>put_in = pushed s, got_out = map snd (taken s)\<rparr>"

lemma history_simps [simp]:
  "history (s\<lparr>monitor := q\<rparr>) = history s"
  "history (s\<lparr>threads := th\<rparr>) = history s"
  by (simp_all add: history_def)

section \<open>The contract of a blocking first-in first-out queue\<close>

locale fifo_monitor =
  fixes attempt :: "'q \<Rightarrow> 'v call \<Rightarrow> ('q \<times> 'v option) option"
    and wakes :: "'v call \<Rightarrow> 'v call \<Rightarrow> bool"
    and items :: "'q \<Rightarrow> 'v list"
  assumes push_appends: "attempt q (Push v) = Some (q', r) \<Longrightarrow> items q' = items q @ [v]"
    and take_head: "attempt q WaitTake = Some (q', r) \<Longrightarrow> \<exists>x. r = Some x \<and> items q = x # items q'"
    and take_sleeps: "attempt q WaitTake = None \<longleftrightarrow> items q = []"
    and push_wakes_takers: "wakes (Push v) WaitTake"
begin

definition fifo_inv :: "('q, 'v) system \<Rightarrow> bool" where
  "fifo_inv s \<longleftrightarrow> pushed s = map snd (taken s) @ items (monitor s)
     \<and> (\<forall>t. threads s t = Asleep WaitTake \<longrightarrow> items (monitor s) = [])"

lemma fifo_step: "queue_step attempt wakes s s' \<Longrightarrow> fifo_inv s \<Longrightarrow> fifo_inv s'"
proof (induction rule: queue_step.induct)
  case (complete s t c q r)
  show ?case
  proof (cases c)
    case (Push v)
    with complete push_appends [of "monitor s" v q r] push_wakes_takers [of v] show ?thesis
      by (auto simp: fifo_inv_def split: if_splits)
  next
    case WaitTake
    with complete take_head [of "monitor s" q r] show ?thesis
      by (auto simp: fifo_inv_def split: if_splits)
  qed
qed (auto simp: fifo_inv_def take_sleeps split: if_splits)

text \<open>A completed operation is one step of the specification; the other steps are not visible.\<close>

lemma fifo_history:
  assumes "fifo_inv s" and "queue_step attempt wakes s s'"
    and room: "\<And>v q r n. attempt (monitor s) (Push v) = Some (q, r) \<Longrightarrow> room = Some n \<Longrightarrow>
      length (items (monitor s)) < n"
  shows "(fifo_step room)\<^sup>*\<^sup>* (history s) (history s')"
  using assms(2,1,3)
proof (induction rule: queue_step.induct)
  case (complete s t c q r)
  have "pushed s = map snd (taken s) @ items (monitor s)" using complete.prems(1) by (simp add: fifo_inv_def)
  then have h: "put_in (history s) = got_out (history s) @ items (monitor s)" by (simp add: history_def)
  show ?case
  proof (cases c)
    case (Push v)
    have "fifo_step room (history s) ((history s)\<lparr>put_in := put_in (history s) @ [v]\<rparr>)"
      using complete.hyps(2) complete.prems(2) h Push
      by (intro fifo_step.put) (simp add: in_transit_def)
    with Push show ?thesis by (auto simp: history_def)
  next
    case WaitTake
    with complete.hyps(2) take_head obtain x where x: "r = Some x" "items (monitor s) = x # items q"
      by blast
    then have "fifo_step room (history s) ((history s)\<lparr>got_out := got_out (history s) @ [x]\<rparr>)"
      using h by (intro fifo_step.get [of _ _ "items q"]) simp
    with WaitTake x show ?thesis by (auto simp: history_def)
  qed
qed simp_all

end

locale bounded_fifo_monitor = fifo_monitor attempt wakes items
  for attempt :: "'q \<Rightarrow> 'v call \<Rightarrow> ('q \<times> 'v option) option"
    and wakes :: "'v call \<Rightarrow> 'v call \<Rightarrow> bool"
    and items :: "'q \<Rightarrow> 'v list" +
  fixes bound :: "'q \<Rightarrow> nat"
  assumes push_sleeps: "attempt q (Push v) = None \<longleftrightarrow> bound q \<le> length (items q)"
    and bound_constant: "attempt q c = Some (q', r) \<Longrightarrow> bound q' = bound q"
    and take_wakes_pushers: "wakes WaitTake (Push v)"
begin

definition bounded_inv :: "nat \<Rightarrow> ('q, 'v) system \<Rightarrow> bool" where
  "bounded_inv n s \<longleftrightarrow> bound (monitor s) = n \<and> length (items (monitor s)) \<le> n
     \<and> (\<forall>t v. threads s t = Asleep (Push v) \<longrightarrow> length (items (monitor s)) = n)"

lemma bounded_step:
  "queue_step attempt wakes s s' \<Longrightarrow> bounded_inv n s \<Longrightarrow> bounded_inv n s'"
proof (induction rule: queue_step.induct)
  case (complete s t c q r)
  show ?case
  proof (cases c)
    case (Push v)
    with complete push_appends [of "monitor s" v q r] push_sleeps [of "monitor s" v]
      bound_constant [of "monitor s" c q r] show ?thesis
      by (auto simp: bounded_inv_def split: if_splits)
  next
    case WaitTake
    with complete take_head [of "monitor s" q r] take_wakes_pushers
      bound_constant [of "monitor s" c q r] show ?thesis
      by (auto simp: bounded_inv_def split: if_splits)
  qed
qed (auto simp: bounded_inv_def push_sleeps split: if_splits)

lemma bounded_history:
  assumes "fifo_inv s" "bounded_inv n s" "queue_step attempt wakes s s'"
  shows "(fifo_step (Some n))\<^sup>*\<^sup>* (history s) (history s')"
proof (rule fifo_history [OF assms(1,3)])
  fix v q r m
  assume "attempt (monitor s) (Push v) = Some (q, r)" "Some n = Some m"
  with push_sleeps [of "monitor s" v] assms(2) show "length (items (monitor s)) < m"
    by (simp add: bounded_inv_def)
qed

end

section \<open>Both queues fulfil the contract\<close>

interpretation blocking: fifo_monitor Blocking_attempt Blocking_wakes queue
  by unfold_locales (auto split: if_splits)

interpretation bounded: bounded_fifo_monitor Bounded_attempt Bounded_wakes bqueue limit
proof (unfold_locales, goal_cases)
  case (6 q c q' r)
  then show ?case by (cases c) (auto simp: limit_def split: if_splits)
qed (auto split: if_splits)

interpretation blocking_fifo: inductive_invariant "\<lambda>s. s = system_init BlockingQueue_new"
  "queue_step Blocking_attempt Blocking_wakes" blocking.fifo_inv
proof (unfold_locales, goal_cases)
  case 1
  then show ?case by (simp add: system_init_def BlockingQueue_new_def blocking.fifo_inv_def)
qed (rule blocking.fifo_step)

interpretation bounded_fifo: inductive_invariant "\<lambda>s. s = system_init (BoundedBlockingQueue_new n)"
  "queue_step Bounded_attempt Bounded_wakes" "\<lambda>s. bounded.fifo_inv s \<and> bounded.bounded_inv (to_uint64 n) s"
  for n
proof (unfold_locales, goal_cases)
  case 1
  then show ?case
    by (simp add: system_init_def BoundedBlockingQueue_new_def bounded.fifo_inv_def limit_def
        bounded.bounded_inv_def)
next
  case 2
  then show ?case using bounded.fifo_step bounded.bounded_step by blast
qed

interpretation blocking_refines: refinement_mapping "\<lambda>s. s = system_init BlockingQueue_new"
  "queue_step Blocking_attempt Blocking_wakes" blocking.fifo_inv
  "\<lambda>q. q = fifo_empty" "fifo_step None" history
proof (unfold_locales, goal_cases)
  case 1
  then show ?case by (simp add: system_init_def history_def fifo_empty_def)
qed (auto intro: blocking.fifo_history)

interpretation bounded_refines: refinement_mapping "\<lambda>s. s = system_init (BoundedBlockingQueue_new n)"
  "queue_step Bounded_attempt Bounded_wakes" "\<lambda>s. bounded.fifo_inv s \<and> bounded.bounded_inv (to_uint64 n) s"
  "\<lambda>q. q = fifo_empty" "fifo_step (Some (to_uint64 n))" history
  for n
proof (unfold_locales, goal_cases)
  case 1
  then show ?case by (simp add: system_init_def history_def fifo_empty_def)
qed (simp add: bounded.bounded_history)

text \<open>No thread ever sleeps in \<open>Push\<close> of the unbounded queue.\<close>

lemma Blocking_push_never_sleeps:
  "reach (\<lambda>s. s = system_init BlockingQueue_new) (queue_step Blocking_attempt Blocking_wakes) s \<Longrightarrow>
    threads s t \<noteq> Asleep (Push v)"
proof (induction arbitrary: t v rule: reach.induct)
  case (reach_init s)
  then show ?case by (simp add: system_init_def)
next
  case (reach_step s s')
  from reach_step(2,3) show ?case
  proof (induction rule: queue_step.induct)
    case (complete s t' c q r)
    then show ?case
      by (cases "(t', c, r, s)" rule: record_call.cases)
        (auto split: if_splits)
  next
    case (sleep s t' c)
    then show ?case by (cases c) (auto split: if_splits)
  qed (auto split: if_splits)
qed

text \<open>
  C19. In every interleaving of any number of threads the unbounded queue hands out the pushed
  values in the order of the pushes, each to one taker and none lost; a thread sleeps in
  \<open>WaitTake\<close> only while the queue is empty, and never in \<open>Push\<close>.
\<close>

theorem BlockingQueue_fifo:
  assumes "reach (\<lambda>s. s = system_init BlockingQueue_new) (queue_step Blocking_attempt Blocking_wakes) s"
  shows "pushed s = map snd (taken s) @ queue (monitor s)
    \<and> (threads s t = Asleep WaitTake \<longrightarrow> queue (monitor s) = [])
    \<and> threads s t \<noteq> Asleep (Push v)"
  using blocking_fifo.reachable_inv [OF assms] Blocking_push_never_sleeps [OF assms]
  by (auto simp: blocking.fifo_inv_def)

text \<open>
  C17. In every interleaving the bounded queue with a non-negative capacity holds at most that many
  values and hands them out in the order of the pushes, each once; a taker sleeps only while it is
  empty and a pusher only while it is full, so with a positive capacity a pusher and a taker never
  sleep at the same time.
\<close>

theorem BoundedBlockingQueue_fifo:
  assumes "reach (\<lambda>s. s = system_init (BoundedBlockingQueue_new n))
    (queue_step Bounded_attempt Bounded_wakes) s" and "0 \<le> n" "n < 2 ^ 31"
  shows "pushed s = map snd (taken s) @ bqueue (monitor s)
    \<and> int (length (bqueue (monitor s))) \<le> n
    \<and> (threads s t = Asleep WaitTake \<longrightarrow> bqueue (monitor s) = [])
    \<and> (threads s u = Asleep (Push v) \<longrightarrow> Bounded_Full (monitor s))
    \<and> (0 < n \<longrightarrow> \<not> (threads s t = Asleep WaitTake \<and> threads s u = Asleep (Push v)))"
proof -
  have "int (to_uint64 n) = n" using assms(2,3) by (simp add: to_uint64_def)
  with bounded_fifo.reachable_inv [OF assms(1)] show ?thesis
    by (auto simp: bounded.fifo_inv_def bounded.bounded_inv_def Bounded_Full_def)
qed

lemma BlockingQueue_refines_fifo:
  "reach (\<lambda>s. s = system_init BlockingQueue_new) (queue_step Blocking_attempt Blocking_wakes) s \<Longrightarrow>
    reach (\<lambda>q. q = fifo_empty) (fifo_step None) (history s)"
  by (rule blocking_refines.refines)

text \<open>
  The bounded queue implements the abstract first-in first-out channel of its capacity: whatever
  the threads do, the completed operations are a run of the abstract channel.
\<close>

lemma BoundedBlockingQueue_refines_fifo:
  assumes "reach (\<lambda>s. s = system_init (BoundedBlockingQueue_new n))
    (queue_step Bounded_attempt Bounded_wakes) s"
  shows "reach (\<lambda>q. q = fifo_empty) (fifo_step (Some (to_uint64 n))) (history s)"
  by (rule bounded_refines.refines [OF assms])

section \<open>Concrete runs\<close>

text \<open>
  The event \<open>(t, c)\<close> lets thread \<open>t\<close> take its next step; \<open>c\<close> is the operation it calls when it is
  outside the queue.
\<close>

fun schedule ::
  "('q \<Rightarrow> 'v call \<Rightarrow> ('q \<times> 'v option) option) \<Rightarrow> ('v call \<Rightarrow> 'v call \<Rightarrow> bool) \<Rightarrow>
   ('q, 'v) system \<Rightarrow> nat \<times> 'v call \<Rightarrow> ('q, 'v) system" where
  "schedule attempt wakes s (t, c) = (case threads s t of
     Outside \<Rightarrow> s\<lparr>threads := (threads s)(t := Calling c)\<rparr>
   | Calling c' \<Rightarrow> (case attempt (monitor s) c' of
        None \<Rightarrow> s\<lparr>threads := (threads s)(t := Asleep c')\<rparr>
      | Some (q, r) \<Rightarrow> record_call t c' r
          (s\<lparr>monitor := q, threads := wake_up (wakes c') ((threads s)(t := Outside))\<rparr>))
   | Asleep c' \<Rightarrow> s\<lparr>threads := (threads s)(t := Calling c')\<rparr>)"

lemma schedule_step: "queue_step attempt wakes s (schedule attempt wakes s e)"
  by (cases e) (auto split: thread.splits option.splits intro: queue_step.intros)

lemma schedule_reach:
  "reach (\<lambda>s. s = s0) (queue_step attempt wakes) (foldl (schedule attempt wakes) s0 es)"
  by (rule reach_foldl) (simp_all add: schedule_step reach_init)

text \<open>
  Thread 1 sleeps in \<open>WaitTake\<close>, thread 0 pushes 7 and 8 (into a queue of capacity 1 it sleeps
  before the second one), and the sleepers are woken.
\<close>

lemma BlockingQueue_fifo_witness:
  "let s = foldl (schedule Blocking_attempt Blocking_wakes) (system_init BlockingQueue_new)
             [(1, WaitTake), (1, WaitTake), (0, Push 7), (0, Push 7), (0, Push 8), (0, Push 8),
              (1, WaitTake)]
   in taken s = [(1, 7)] \<and> pushed s = map snd (taken s) @ queue (monitor s)
      \<and> threads s 1 = Outside \<and> queue (monitor s) = [8 :: int]"
  using BlockingQueue_fifo [OF schedule_reach, of "[(1, WaitTake), (1, WaitTake), (0, Push (7 :: int)),
      (0, Push 7), (0, Push 8), (0, Push 8), (1, WaitTake)]"]
  by (simp add: system_init_def BlockingQueue_new_def wake_up_def Let_def)

lemma BoundedBlockingQueue_fifo_witness:
  "let s = foldl (schedule Bounded_attempt Bounded_wakes) (system_init (BoundedBlockingQueue_new 1))
             [(0, Push 7), (0, Push 7), (0, Push 8), (0, Push 8), (1, WaitTake), (1, WaitTake)]
   in taken s = [(1, 7)] \<and> pushed s = [7 :: int] \<and> threads s 0 = Calling (Push 8)
      \<and> pushed s = map snd (taken s) @ bqueue (monitor s)"
  using BoundedBlockingQueue_fifo [where n = 1, OF schedule_reach [of _ _ _ "[(0, Push (7 :: int)),
      (0, Push 7), (0, Push 8), (0, Push 8), (1, WaitTake), (1, WaitTake)]"], of 1 0 8]
  by (simp add: system_init_def BoundedBlockingQueue_new_def wake_up_def Let_def limit_def to_uint64_def)

lemma BoundedBlockingQueue_refines_fifo_witness:
  "let s = foldl (schedule Bounded_attempt Bounded_wakes) (system_init (BoundedBlockingQueue_new 1))
             [(0, Push 7), (0, Push 7), (0, Push 8), (0, Push 8), (1, WaitTake), (1, WaitTake)]
   in reach (\<lambda>q. q = fifo_empty) (fifo_step (Some 1)) (history s)
      \<and> history s = \<lparr>put_in = [7], got_out = [7 :: int]\<rparr>"
  using BoundedBlockingQueue_refines_fifo [where n = 1, OF schedule_reach [of _ _ _ "[(0, Push (7 :: int)),
      (0, Push 7), (0, Push 8), (0, Push 8), (1, WaitTake), (1, WaitTake)]"]]
  by (simp add: system_init_def BoundedBlockingQueue_new_def wake_up_def Let_def limit_def to_uint64_def
      history_def)

end
