(* ===== verification/Thread_Pool.thy ===== *)
theory Thread_Pool
  imports Blocking_Queue
begin

text \<open>
  The thread pool of base/thread_pool.h, whose ready tasks are a \<open>BlockingQueue\<close>. A worker thread
  is described by where it is in its loop; the sections it executes under \<open>mutex_\<close> are atomic
  steps, and so are the notifications, which \<open>AddTask\<close> and \<open>Stop\<close> send after they have released
  the lock. Tasks are values of an arbitrary type; what a task does (its exceptions are caught by
  its \<open>packaged_task\<close>) is the subject of \<^theory_text>\<open>Task_Future\<close>, here it only starts and ends.
\<close>

section \<open>State and operations\<close>

text \<open>
  \<open>Checking\<close>: at the lock in front of the wait, or woken up; \<open>Sleeping\<close>: in \<open>cond_.wait\<close>;
  \<open>Stuck\<close>: asleep in \<open>WaitTake\<close> while it holds \<open>mutex_\<close>.
\<close>

datatype 'f worker = Checking | Sleeping | Executing 'f | Exited | Stuck

record 'f ThreadPool =
  num_thread :: int
  workers :: "'f worker list"
  joinable :: "bool list"
  ready_tasks :: "'f BlockingQueue"
  stop :: bool

text \<open>\<open>stop_\<close> has no initialiser: its first value is a parameter.\<close>

definition ThreadPool_new :: "bool \<Rightarrow> 'f ThreadPool" where
  "ThreadPool_new garbage = \<lparr>num_thread = 0, workers = [], joinable = [],
     ready_tasks = BlockingQueue_new, stop = garbage\<rparr>"

definition Init :: "nat \<Rightarrow> 'f ThreadPool \<Rightarrow> 'f ThreadPool" where
  "Init n p = p\<lparr>num_thread := to_int32 (int n), stop := False,
     workers := workers p @ replicate n Checking, joinable := joinable p @ replicate n True\<rparr>"

definition AddTask :: "'f \<Rightarrow> 'f ThreadPool \<Rightarrow> 'f ThreadPool cxx" where
  "AddTask f p =
     (if stop p then Inl (Exception ''ThreadPool has stopped. it's not allow to AddTask.'')
      else case Blocking_attempt (ready_tasks p) (Push f) of
        Some (q, _) \<Rightarrow> Inr (p\<lparr>ready_tasks := q\<rparr>)
      | None \<Rightarrow> Inl Undefined_Behaviour)"

definition Stop :: "'f ThreadPool \<Rightarrow> 'f ThreadPool" where
  "Stop p = p\<lparr>stop := True\<rparr>"

text \<open>The critical section of a worker's loop, and where the worker is after it.\<close>

definition worker_check :: "'f ThreadPool \<Rightarrow> 'f ThreadPool \<times> 'f worker" where
  "worker_check p =
     (if stop p \<or> \<not> Blocking_Empty (ready_tasks p) then
        if stop p \<and> Blocking_Empty (ready_tasks p) then (p, Exited)
        else case Blocking_attempt (ready_tasks p) WaitTake of
          Some (q, Some task) \<Rightarrow> (p\<lparr>ready_tasks := q\<rparr>, Executing task)
        | _ \<Rightarrow> (p, Stuck)
      else (p, Sleeping))"

text \<open>
  \<open>Join\<close> joins the threads in order: \<open>None\<close> while it still waits for one; joining a
  thread a second time throws.
\<close>

fun join_loop :: "'f worker list \<Rightarrow> bool list \<Rightarrow> bool list cxx option" where
  "join_loop (w # ws) (j # js) =
     (if \<not> j then Some (Inl (Exception ''Invalid argument''))
      else if w \<noteq> Exited then None
      else map_option (\<lambda>r. cxx_bind r (\<lambda>js'. Inr (False # js'))) (join_loop ws js))"
| "join_loop _ _ = Some (Inr [])"

definition Join :: "'f ThreadPool \<Rightarrow> 'f ThreadPool cxx option" where
  "Join p = map_option (\<lambda>r. cxx_bind r (\<lambda>js. Inr (p\<lparr>joinable := js\<rparr>)))
              (join_loop (workers p) (joinable p))"

text \<open>
  The destructor: \<open>destructor_enter\<close> is its critical section and whether \<open>notify_all\<close> and \<open>Join\<close>
  follow, \<open>destructor_leave\<close> what follows (\<open>None\<close> while \<open>Join\<close> waits): an exception of \<open>Join\<close>
  leaves a destructor, so it terminates; then the members are destroyed, and destroying a joinable
  \<open>std::thread\<close> terminates.
\<close>

definition destructor_enter :: "'f ThreadPool \<Rightarrow> 'f ThreadPool \<times> bool" where
  "destructor_enter p = (if stop p then (p, False) else (p\<lparr>stop := True\<rparr>, True))"

definition destroy_members :: "'f ThreadPool \<Rightarrow> unit cxx" where
  "destroy_members p = (if True \<in> set (joinable p) then Inl Terminated else Inr ())"

fun destructor_leave :: "bool \<Rightarrow> 'f ThreadPool \<Rightarrow> unit cxx option" where
  "destructor_leave False p = Some (destroy_members p)"
| "destructor_leave True p = (case Join p of
      None \<Rightarrow> None
    | Some (Inl _) \<Rightarrow> Some (Inl Terminated)
    | Some (Inr p') \<Rightarrow> Some (destroy_members p'))"

definition destructor :: "'f ThreadPool \<Rightarrow> unit cxx option" where
  "destructor p = (case destructor_enter p of (p', joins) \<Rightarrow> destructor_leave joins p')"

section \<open>The threads of a pool\<close>

text \<open>
  \<open>one\<close> and \<open>all\<close> count the notifications not yet sent; \<open>added\<close> lists the tasks added, \<open>started\<close>
  the tasks started with the worker that runs them, both in order.
\<close>

record 'f pool_system =
  pool :: "'f ThreadPool"
  one :: nat
  all :: nat
  added :: "'f list"
  started :: "(nat \<times> 'f) list"

definition pool_init :: "nat \<Rightarrow> bool \<Rightarrow> 'f pool_system" where
  "pool_init n garbage = \<lparr>pool = Init n (ThreadPool_new garbage), one = 0, all = 0,
     added = [], started = []\<rparr>"

definition set_worker :: "nat \<Rightarrow> 'f worker \<Rightarrow> 'f ThreadPool \<Rightarrow> 'f ThreadPool" where
  "set_worker i w p = p\<lparr>workers := (workers p)[i := w]\<rparr>"

definition wake_all :: "'f ThreadPool \<Rightarrow> 'f ThreadPool" where
  "wake_all p = p\<lparr>workers := map (\<lambda>w. if w = Sleeping then Checking else w) (workers p)\<rparr>"

fun record_start :: "nat \<Rightarrow> 'f worker \<Rightarrow> 'f pool_system \<Rightarrow> 'f pool_system" where
  "record_start i (Executing f) s = s\<lparr>started := started s @ [(i, f)]\<rparr>"
| "record_start i _ s = s"

text \<open>The steps of the pool itself: its workers, and the notifications on their way.\<close>

inductive worker_step :: "'f pool_system \<Rightarrow> 'f pool_system \<Rightarrow> bool" where
  check: "i < length (workers (pool s)) \<Longrightarrow> workers (pool s) ! i = Checking \<Longrightarrow>
    worker_check (pool s) = (p, w) \<Longrightarrow>
    worker_step s (record_start i w (s\<lparr>pool := set_worker i w p\<rparr>))"
| finish: "i < length (workers (pool s)) \<Longrightarrow> workers (pool s) ! i = Executing f \<Longrightarrow>
    worker_step s (s\<lparr>pool := set_worker i Checking (pool s)\<rparr>)"
| notify_one: "one s = Suc k \<Longrightarrow> i < length (workers (pool s)) \<Longrightarrow>
    workers (pool s) ! i = Sleeping \<Longrightarrow>
    worker_step s (s\<lparr>one := k, pool := set_worker i Checking (pool s)\<rparr>)"
| notify_nobody: "one s = Suc k \<Longrightarrow> Sleeping \<notin> set (workers (pool s)) \<Longrightarrow>
    worker_step s (s\<lparr>one := k\<rparr>)"
| notify_all: "all s = Suc k \<Longrightarrow> worker_step s (s\<lparr>all := k, pool := wake_all (pool s)\<rparr>)"

text \<open>
  The other steps: calls of clients, \<open>Join\<close> returning, the destructor up to its \<open>Join\<close>, and
  spurious wakeups.
\<close>

inductive pool_step :: "'f pool_system \<Rightarrow> 'f pool_system \<Rightarrow> bool" where
  internal: "worker_step s s' \<Longrightarrow> pool_step s s'"
| add: "AddTask f (pool s) = Inr p \<Longrightarrow>
    pool_step s (s\<lparr>pool := p, one := Suc (one s), added := added s @ [f]\<rparr>)"
| stop: "pool_step s (s\<lparr>pool := Stop (pool s), all := Suc (all s)\<rparr>)"
| join: "Join (pool s) = Some (Inr p) \<Longrightarrow> pool_step s (s\<lparr>pool := p\<rparr>)"
| destroy: "destructor_enter (pool s) = (p, joins) \<Longrightarrow>
    pool_step s (s\<lparr>pool := p, all := all s + of_bool joins\<rparr>)"
| spurious: "i < length (workers (pool s)) \<Longrightarrow> workers (pool s) ! i = Sleeping \<Longrightarrow>
    pool_step s (s\<lparr>pool := set_worker i Checking (pool s)\<rparr>)"

section \<open>The invariant\<close>

text \<open>
  A sleeping worker is owed a wakeup: the ready tasks are at most as many as the workers that
  are awake and about to look plus the notifications on their way, and if the pool is stopped then
  the notification of that is on its way too.
\<close>

definition pool_inv :: "'f pool_system \<Rightarrow> bool" where
  "pool_inv s \<longleftrightarrow>
     added s = map snd (started s) @ queue (ready_tasks (pool s))
     \<and> Stuck \<notin> set (workers (pool s))
     \<and> (Sleeping \<in> set (workers (pool s)) \<longrightarrow>
          length (queue (ready_tasks (pool s))) \<le> one s + count_list (workers (pool s)) Checking
          \<and> (stop (pool s) \<longrightarrow> 0 < all s))
     \<and> (Exited \<in> set (workers (pool s)) \<longrightarrow> stop (pool s) \<and> queue (ready_tasks (pool s)) = [])"

lemma count_list_update:
  "i < length xs \<Longrightarrow> count_list (xs[i := y]) a + (if xs ! i = a then 1 else 0) =
    count_list xs a + (if y = a then 1 else 0)"
proof (induction xs arbitrary: i)
  case (Cons x xs)
  then show ?case by (cases i) (use Cons.IH in \<open>force split: if_splits\<close>)+
qed simp

lemma worker_check_cases:
  obtains (exit) "stop p" "queue (ready_tasks p) = []" "worker_check p = (p, Exited)"
  | (task) f q where "queue (ready_tasks p) = f # queue q"
      "worker_check p = (p\<lparr>ready_tasks := q\<rparr>, Executing f)"
  | (sleep) "\<not> stop p" "queue (ready_tasks p) = []" "worker_check p = (p, Sleeping)"
proof (cases "queue (ready_tasks p)")
  case Nil
  then show ?thesis using exit sleep by (cases "stop p") (simp_all add: worker_check_def Blocking_Empty_def)
next
  case (Cons f fs)
  then show ?thesis
    using task [of f "(ready_tasks p)\<lparr>queue := fs\<rparr>"]
    by (simp add: worker_check_def Blocking_Empty_def)
qed

lemma pool_inv_check:
  assumes inv: "pool_inv s" and i: "i < length (workers (pool s))" "workers (pool s) ! i = Checking"
    and c: "worker_check (pool s) = (p, w)"
  shows "pool_inv (record_start i w (s\<lparr>pool := set_worker i w p\<rparr>))"
proof (cases "pool s" rule: worker_check_cases)
  case exit
  then show ?thesis
    using inv c count_list_update [OF i(1), of w Checking] i
    by (auto simp: pool_inv_def set_worker_def dest: set_update_cases)
next
  case (task f q)
  then show ?thesis
    using inv c count_list_update [OF i(1), of w Checking] i
    by (auto simp: pool_inv_def set_worker_def dest!: set_update_cases)
next
  case sleep
  then show ?thesis
    using inv c count_list_update [OF i(1), of w Checking] i
    by (auto simp: pool_inv_def set_worker_def dest!: set_update_cases)
qed

lemma pool_inv_awake:
  assumes inv: "pool_inv s" and i: "i < length (workers (pool s))"
    and w: "workers (pool s) ! i \<noteq> Checking" and k: "one s \<le> Suc k"
    and e: "workers (pool s) ! i = Sleeping \<or> one s \<le> k"
  shows "pool_inv (s\<lparr>one := k, pool := set_worker i Checking (pool s)\<rparr>)"
  using inv count_list_update [OF i, of Checking Checking] w k e
  by (auto simp: pool_inv_def set_worker_def dest!: set_update_cases)

lemma pool_inv_worker_step: "worker_step s s' \<Longrightarrow> pool_inv s \<Longrightarrow> pool_inv s'"
proof (induction rule: worker_step.induct)
  case (check i s p w)
  then show ?case by (blast intro: pool_inv_check)
next
  case (finish i s f)
  then show ?case using pool_inv_awake [of s i "one s"] by simp
next
  case (notify_one s k i)
  then show ?case using pool_inv_awake [of s i k] by simp
next
  case (notify_all s k)
  then show ?case by (auto simp: pool_inv_def wake_all_def split: if_splits)
qed (auto simp: pool_inv_def)

lemma join_loop_length: "join_loop ws js = Some (Inr js') \<Longrightarrow> length ws = length js \<Longrightarrow> js' = replicate (length js) False"
proof (induction ws js arbitrary: js' rule: join_loop.induct)
  case (1 w ws j js)
  then show ?case by (auto simp: cxx_bind_eq_Inr split: if_splits)
qed auto

lemma pool_inv_step: "pool_step s s' \<Longrightarrow> pool_inv s \<Longrightarrow> pool_inv s'"
proof (induction rule: pool_step.induct)
  case (internal s s')
  then show ?case by (blast intro: pool_inv_worker_step)
next
  case (spurious i s)
  then show ?case using pool_inv_awake [of s i "one s"] by simp
qed (auto simp: pool_inv_def AddTask_def Stop_def Join_def destructor_enter_def cxx_bind_eq_Inr
    split: if_splits)

interpretation pool: inductive_invariant "\<lambda>s. s = pool_init n g" pool_step pool_inv for n g
proof (unfold_locales, goal_cases)
  case 1
  then show ?case
    by (simp add: pool_inv_def pool_init_def Init_def ThreadPool_new_def BlockingQueue_new_def)
qed (rule pool_inv_step)

text \<open>Seen from outside, the pool is a channel from the clients that add tasks to the workers.\<close>

definition task_channel :: "'f pool_system \<Rightarrow> 'f fifo" where
  "task_channel s = \<lparr>put_in = added s, got_out = map snd (started s)\<rparr>"

lemma worker_step_channel:
  assumes "pool_inv s" "worker_step s s'"
  shows "(fifo_step None)\<^sup>*\<^sup>* (task_channel s) (task_channel s')"
  using assms(2,1)
proof (induction rule: worker_step.induct)
  case (check i s p w)
  show ?case
  proof (cases "pool s" rule: worker_check_cases)
    case (task f q)
    then have "put_in (task_channel s) = got_out (task_channel s) @ f # queue q"
      using check.prems by (simp add: pool_inv_def task_channel_def)
    then have "fifo_step None (task_channel s) ((task_channel s)\<lparr>got_out := got_out (task_channel s) @ [f]\<rparr>)"
      by (rule fifo_step.get)
    with check.hyps task show ?thesis by (auto simp: task_channel_def)
  qed (use check.hyps in \<open>auto simp: task_channel_def\<close>)
qed (simp_all add: task_channel_def)

lemma pool_step_channel:
  assumes "pool_inv s" "pool_step s s'"
  shows "(fifo_step None)\<^sup>*\<^sup>* (task_channel s) (task_channel s')"
  using assms(2,1)
proof (induction rule: pool_step.induct)
  case (internal s s')
  then show ?case by (blast intro: worker_step_channel)
next
  case (add f s p)
  show ?case using fifo_puts [of "added s" "map snd (started s)" "[f]"] by (simp add: task_channel_def)
qed (simp_all add: task_channel_def)

interpretation pool_refines: refinement_mapping "\<lambda>s. s = pool_init n g" pool_step pool_inv
  "\<lambda>q. q = fifo_empty" "fifo_step None" task_channel for n g
proof (unfold_locales, goal_cases)
  case 1
  then show ?case by (simp add: pool_init_def task_channel_def fifo_empty_def)
qed (rule pool_step_channel)

section \<open>Every run of the workers ends\<close>

fun worker_weight :: "'f worker \<Rightarrow> nat" where
  "worker_weight (Executing _) = 2"
| "worker_weight Checking = 1"
| "worker_weight _ = 0"

definition pool_measure :: "'f pool_system \<Rightarrow> nat" where
  "pool_measure s = 3 * length (queue (ready_tasks (pool s)))
     + sum_list (map worker_weight (workers (pool s)))
     + 2 * one s + all s * Suc (length (workers (pool s)))"

lemma weight_update:
  "i < length ws \<Longrightarrow> sum_list (map worker_weight (ws[i := w])) + worker_weight (ws ! i) =
    sum_list (map worker_weight ws) + worker_weight w"
proof (induction ws arbitrary: i)
  case (Cons x ws)
  then show ?case by (cases i) (use Cons.IH in \<open>force\<close>)+
qed simp

lemma weight_wake_all:
  "sum_list (map worker_weight (map (\<lambda>w. if w = Sleeping then Checking else w) ws))
    \<le> sum_list (map worker_weight ws) + length ws"
  by (induction ws) auto

lemma worker_step_measure: "worker_step s s' \<Longrightarrow> pool_measure s' < pool_measure s"
proof (induction rule: worker_step.induct)
  case (check i s p w)
  then show ?case
    using weight_update [OF check(1), of w]
    by (cases "pool s" rule: worker_check_cases) (auto simp: pool_measure_def set_worker_def)
next
  case (finish i s f)
  then show ?case
    using weight_update [OF finish(1), of Checking] by (auto simp: pool_measure_def set_worker_def)
next
  case (notify_one s k i)
  then show ?case
    using weight_update [OF notify_one(2), of Checking] by (auto simp: pool_measure_def set_worker_def)
next
  case (notify_all s k)
  then show ?case
    using weight_wake_all [of "workers (pool s)"] by (simp add: pool_measure_def wake_all_def)
qed (simp add: pool_measure_def)

lemma worker_steps_terminate: "wfP (\<lambda>s' s. worker_step s s')"
  by (rule wfp_if_convertible_to_nat [of _ pool_measure]) (rule worker_step_measure)

text \<open>When no step of the pool itself is left, every worker sleeps or has exited.\<close>

lemma quiescent_workers:
  assumes inv: "pool_inv s" and q: "\<And>s'. \<not> worker_step s s'"
  shows "set (workers (pool s)) \<subseteq> {Sleeping, Exited} \<and> one s = 0 \<and> all s = 0"
proof -
  have "w = Sleeping \<or> w = Exited" if "w \<in> set (workers (pool s))" for w
  proof -
    from that obtain i where i: "i < length (workers (pool s))" "workers (pool s) ! i = w"
      by (auto simp: in_set_conv_nth)
    have "w \<noteq> Stuck" using inv that by (auto simp: pool_inv_def)
    then show ?thesis
      using q worker_step.check [of i s] worker_step.finish [of i s] i
      by (cases w; cases "worker_check (pool s)") auto
  qed
  moreover have "one s = 0"
  proof (rule ccontr)
    assume "one s \<noteq> 0"
    then obtain k where k: "one s = Suc k" by (cases "one s") auto
    show False
      using q worker_step.notify_nobody [OF k] worker_step.notify_one [OF k]
      by (metis in_set_conv_nth)
  qed
  moreover have "all s = 0"
    using q worker_step.notify_all [of s] by (cases "all s") auto
  ultimately show ?thesis by auto
qed

lemma quiescent_no_checking:
  assumes "set ws \<subseteq> {Sleeping, Exited}"
  shows "count_list ws Checking = 0"
  using assms by (auto simp: count_list_0_iff)

lemma quiescent_started:
  assumes inv: "pool_inv s" and q: "\<And>s'. \<not> worker_step s s'" and ne: "workers (pool s) \<noteq> []"
  shows "map snd (started s) = added s"
proof -
  from quiescent_workers [OF inv q]
  have w: "set (workers (pool s)) \<subseteq> {Sleeping, Exited}" "one s = 0" by auto
  with ne have "Sleeping \<in> set (workers (pool s)) \<or> Exited \<in> set (workers (pool s))"
    by (cases "workers (pool s)") auto
  with inv w quiescent_no_checking [OF w(1)] show ?thesis by (auto simp: pool_inv_def)
qed

section \<open>Properties of the pool\<close>

text \<open>
  The pool implements the abstract first-in first-out channel: in every run the tasks added
  and the tasks started are those of a run of the abstract channel, which knows of no workers,
  locks and notifications.
\<close>

lemma ThreadPool_refines_fifo:
  assumes "reach (\<lambda>s. s = pool_init n g) pool_step s"
  shows "reach (\<lambda>q. q = fifo_empty) (fifo_step None) (task_channel s)"
  by (rule pool_refines.refines [OF assms])

text \<open>
  C1. In every run of a pool the tasks are started in the order they were added, each once and
  none lost, and no worker blocks inside \<open>WaitTake\<close> while it holds the pool's mutex.
\<close>

theorem ThreadPool_starts_tasks_in_order:
  assumes "reach (\<lambda>s. s = pool_init n g) pool_step s"
  shows "added s = map snd (started s) @ queue (ready_tasks (pool s))
    \<and> Stuck \<notin> set (workers (pool s))"
  using pool.reachable_inv [OF assms] by (simp add: pool_inv_def)

text \<open>
  C7. No wakeup is lost: from every reachable state the workers run only finitely many steps by
  themselves, and when they have come to rest no task is waiting, unless the pool has no worker.
\<close>

theorem ThreadPool_no_lost_wakeup:
  assumes "reach (\<lambda>s. s = pool_init n g) pool_step s"
  shows "wfP (\<lambda>s' s. worker_step s s' :: bool)
    \<and> ((\<forall>s'. \<not> worker_step s s') \<longrightarrow> workers (pool s) \<noteq> [] \<longrightarrow>
         map snd (started s) = added s)"
  using worker_steps_terminate quiescent_started [OF pool.reachable_inv [OF assms]] by blast

lemma join_loop_all_exited:
  "set ws \<subseteq> {Exited} \<Longrightarrow> length ws = length js \<Longrightarrow> join_loop ws js \<noteq> None"
  by (induction ws js rule: join_loop.induct) auto

lemma pool_lengths:
  "reach (\<lambda>s. s = pool_init n g) pool_step s \<Longrightarrow>
    length (joinable (pool s)) = length (workers (pool s))"
proof (induction rule: reach.induct)
  case (reach_init s)
  then show ?case by (simp add: pool_init_def Init_def ThreadPool_new_def)
next
  case (reach_step s t)
  from reach_step(2,3) show ?case
  proof (induction rule: pool_step.induct)
    case (internal s s')
    then show ?case
    proof (induction rule: worker_step.induct)
      case (check i s p w)
      then show ?case
        by (cases "pool s" rule: worker_check_cases) (auto simp: set_worker_def)
    qed (auto simp: set_worker_def wake_all_def)
  next
    case (join s p)
    then show ?case
      using join_loop_length [of "workers (pool s)" "joinable (pool s)"]
      by (auto simp: Join_def cxx_bind_eq_Inr)
  qed (auto simp: set_worker_def AddTask_def Stop_def destructor_enter_def split: if_splits)
qed

lemma join_loop_joins:
  "set ws \<subseteq> {Exited} \<Longrightarrow> False \<notin> set js \<Longrightarrow> length ws = length js \<Longrightarrow>
    join_loop ws js = Some (Inr (replicate (length js) False))"
  by (induction ws js rule: join_loop.induct) auto

lemma destructor_leave_joins:
  assumes "set (workers p) \<subseteq> {Exited}" "False \<notin> set (joinable p)"
    and "length (joinable p) = length (workers p)"
  shows "destructor_leave True p = Some (Inr ())"
  using join_loop_joins [OF assms(1,2)] assms(3) by (simp add: Join_def destroy_members_def)

text \<open>
  C2. After \<open>Stop\<close>, or once the destructor has begun, when the workers have come to rest every
  worker has exited, every task that was added has been run and \<open>Join\<close> does not wait; and if no
  thread was joined before, the destructor joins them all and ends normally.
\<close>

theorem ThreadPool_shutdown_completes:
  assumes "reach (\<lambda>s. s = pool_init n g) pool_step s"
    and "stop (pool s)" and "\<And>s'. \<not> worker_step s s'"
  shows "set (workers (pool s)) \<subseteq> {Exited} \<and> Join (pool s) \<noteq> None
    \<and> (workers (pool s) \<noteq> [] \<longrightarrow> map snd (started s) = added s)
    \<and> (False \<notin> set (joinable (pool s)) \<longrightarrow> destructor_leave True (pool s) = Some (Inr ()))"
proof -
  have inv: "pool_inv s" by (rule pool.reachable_inv [OF assms(1)])
  from quiescent_workers [OF inv assms(3)]
  have w: "set (workers (pool s)) \<subseteq> {Sleeping, Exited}" "all s = 0" by auto
  with inv assms(2) have ex: "set (workers (pool s)) \<subseteq> {Exited}" by (auto simp: pool_inv_def)
  moreover have "Join (pool s) \<noteq> None"
    using join_loop_all_exited [OF ex] pool_lengths [OF assms(1)] by (simp add: Join_def)
  moreover have "map snd (started s) = added s" if "workers (pool s) \<noteq> []"
    using that ex inv by (cases "workers (pool s)") (auto simp: pool_inv_def)
  moreover have "destructor_leave True (pool s) = Some (Inr ())" if "False \<notin> set (joinable (pool s))"
    using destructor_leave_joins [OF ex that pool_lengths [OF assms(1)]] .
  ultimately show ?thesis by blast
qed

text \<open>After \<open>Stop\<close> no task is accepted any more.\<close>

lemma stopped_for_good:
  "pool_step s s' \<Longrightarrow> stop (pool s) \<Longrightarrow> stop (pool s') \<and> added s' = added s"
proof (induction rule: pool_step.induct)
  case (internal s s')
  then show ?case
  proof (induction rule: worker_step.induct)
    case (check i s p w)
    then show ?case by (cases "pool s" rule: worker_check_cases) (auto simp: set_worker_def)
  qed (auto simp: set_worker_def wake_all_def)
qed (auto simp: set_worker_def AddTask_def Stop_def Join_def destructor_enter_def cxx_bind_eq_Inr
    split: if_splits)

section \<open>Concrete runs\<close>

datatype 'f pool_event = Add 'f | Stop_pool | Work nat | Notify nat | Notify_all | Join_pool | Destroy_pool

fun pool_schedule :: "'f pool_system \<Rightarrow> 'f pool_event \<Rightarrow> 'f pool_system" where
  "pool_schedule s (Add f) = (case AddTask f (pool s) of
     Inr p \<Rightarrow> s\<lparr>pool := p, one := Suc (one s), added := added s @ [f]\<rparr> | Inl _ \<Rightarrow> s)"
| "pool_schedule s Stop_pool = s\<lparr>pool := Stop (pool s), all := Suc (all s)\<rparr>"
| "pool_schedule s (Work i) =
     (if i < length (workers (pool s)) then case workers (pool s) ! i of
        Checking \<Rightarrow> (case worker_check (pool s) of
          (p, w) \<Rightarrow> record_start i w (s\<lparr>pool := set_worker i w p\<rparr>))
      | Executing _ \<Rightarrow> s\<lparr>pool := set_worker i Checking (pool s)\<rparr>
      | _ \<Rightarrow> s
      else s)"
| "pool_schedule s (Notify i) = (case one s of
     0 \<Rightarrow> s
   | Suc k \<Rightarrow> if Sleeping \<notin> set (workers (pool s)) then s\<lparr>one := k\<rparr>
       else if i < length (workers (pool s)) \<and> workers (pool s) ! i = Sleeping
       then s\<lparr>one := k, pool := set_worker i Checking (pool s)\<rparr> else s)"
| "pool_schedule s Notify_all = (case all s of
     0 \<Rightarrow> s | Suc k \<Rightarrow> s\<lparr>all := k, pool := wake_all (pool s)\<rparr>)"
| "pool_schedule s Join_pool = (case Join (pool s) of Some (Inr p) \<Rightarrow> s\<lparr>pool := p\<rparr> | _ \<Rightarrow> s)"
| "pool_schedule s Destroy_pool = (case destructor_enter (pool s) of
     (p, joins) \<Rightarrow> s\<lparr>pool := p, all := all s + of_bool joins\<rparr>)"

lemma pool_schedule_step: "pool_step s (pool_schedule s e) \<or> pool_schedule s e = s"
  by (cases "(s, e)" rule: pool_schedule.cases)
    (auto split: worker.splits nat.splits sum.splits option.splits prod.splits
      intro: pool_step.intros worker_step.intros pool_step.destroy [where joins = True, simplified]
        pool_step.destroy [where joins = False, simplified])

lemma pool_schedule_reach:
  "reach (\<lambda>s. s = pool_init n g) pool_step (foldl pool_schedule (pool_init n g) es)"
  by (rule reach_foldl) (simp_all add: pool_schedule_step reach_init)

text \<open>
  Two workers, of which worker 1 sleeps first; three tasks, two of them started by worker 1; then
  \<open>Stop\<close> and the end of both workers.
\<close>

definition pool_example :: "nat pool_system" where
  "pool_example = foldl pool_schedule (pool_init 2 True)
     [Work 1, Add 10, Add 11, Notify 1, Work 1, Work 0, Work 1, Add 12, Work 1, Stop_pool,
      Notify 0, Notify 0, Notify_all, Work 0, Work 1, Work 0, Work 1]"

lemmas pool_run_simps = pool_init_def Init_def ThreadPool_new_def BlockingQueue_new_def AddTask_def
  worker_check_def Blocking_Empty_def set_worker_def wake_all_def Stop_def to_int32_def
  numeral_2_eq_2 Join_def

lemma pool_example_result:
  "started pool_example = [(1, 10), (0, 11), (1, 12)] \<and> added pool_example = [10, 11, 12]
   \<and> workers (pool pool_example) = [Exited, Exited] \<and> one pool_example = 0 \<and> all pool_example = 0
   \<and> stop (pool pool_example) \<and> joinable (pool pool_example) = [True, True]"
  by (simp add: pool_example_def pool_run_simps)

lemma pool_example_reach: "reach (\<lambda>s. s = pool_init 2 True) pool_step pool_example"
  unfolding pool_example_def by (rule pool_schedule_reach)

lemma quiescentI:
  "set (workers (pool s)) \<subseteq> {Sleeping, Exited} \<Longrightarrow> one s = 0 \<Longrightarrow> all s = 0 \<Longrightarrow> \<not> worker_step s s'"
  by (auto elim!: worker_step.cases dest: nth_mem)

lemma ThreadPool_starts_tasks_in_order_witness:
  "added pool_example = map snd (started pool_example) @ queue (ready_tasks (pool pool_example))
    \<and> Stuck \<notin> set (workers (pool pool_example)) \<and> length (started pool_example) = 3"
  using ThreadPool_starts_tasks_in_order [OF pool_example_reach]
    pool_example_result
  by simp

lemma ThreadPool_refines_fifo_witness:
  "reach (\<lambda>q. q = fifo_empty) (fifo_step None) \<lparr>put_in = [10, 11, 12], got_out = [10, 11, 12 :: nat]\<rparr>"
  using ThreadPool_refines_fifo [OF pool_example_reach] pool_example_result
  by (simp add: task_channel_def)

lemma ThreadPool_no_lost_wakeup_witness:
  "map snd (started pool_example) = added pool_example"
  using ThreadPool_no_lost_wakeup [OF pool_example_reach]
    pool_example_result quiescentI [of pool_example]
  by simp

lemma ThreadPool_shutdown_completes_witness:
  "Join (pool pool_example) \<noteq> None \<and> map snd (started pool_example) = [10, 11, 12]
    \<and> destructor_leave True (pool pool_example) = Some (Inr ())"
  using ThreadPool_shutdown_completes [OF pool_example_reach]
    pool_example_result quiescentI [of pool_example]
  by simp

text \<open>
  A pool that was stopped with \<open>Stop\<close> and then destroyed ends the program, even when all its
  workers have exited: the destructor returns early without \<open>Join\<close>, so the threads are still
  joinable when they are destroyed.
\<close>

lemma destructor_after_Stop_terminates:
  "\<exists>s. reach (\<lambda>s. s = pool_init 2 True) pool_step (s :: nat pool_system)
     \<and> set (workers (pool s)) \<subseteq> {Exited} \<and> started s \<noteq> []
     \<and> destructor (pool s) = Some (Inl Terminated)"
  using pool_example_reach pool_example_result
  by (intro exI [of _ pool_example])
    (simp add: destructor_def destructor_enter_def destroy_members_def)

end
