(* ===== verification/Task_Future.thy ===== *)
theory Task_Future
  imports Thread_Pool
begin

text \<open>
  The results of the tasks of base/thread_pool.h: \<open>AddTask\<close> wraps the call in a
  \<open>std::packaged_task\<close>, queues a closure that holds it and hands out its future. The shared tasks
  are a list, and what the queue, the workers and the futures hold is a position in it; so a system
  of this theory is one of \<^theory_text>\<open>Thread_Pool\<close> whose tasks are such positions. What a call of the
  client does is a parameter: \<open>calls f\<close> is the set of outcomes the call \<open>f\<close> can have, values and
  exceptions.
\<close>

section \<open>Packaged tasks\<close>

record ('f, 'r) packaged_task =
  stored :: 'f
  result :: "'r cxx option"

definition make_task :: "'f \<Rightarrow> ('f, 'r) packaged_task" where
  "make_task f = \<lparr>stored = f, result = None\<rparr>"

text \<open>
  Calling it keeps the outcome of the stored call for the future; a second call throws. Only values
  and exceptions are outcomes it can keep.
\<close>

definition task_call :: "'r cxx \<Rightarrow> ('f, 'r) packaged_task \<Rightarrow> ('f, 'r) packaged_task cxx" where
  "task_call r t =
     (if result t = None then Inr (t\<lparr>result := Some r\<rparr>)
      else Inl (Exception ''Promise already satisfied''))"

fun kept_outcome :: "'r cxx \<Rightarrow> bool" where
  "kept_outcome (Inr _) = True"
| "kept_outcome (Inl (Exception _)) = True"
| "kept_outcome (Inl _) = False"

text \<open>\<open>AddTask\<close> with the task it makes; when it throws, the task is destroyed with it.\<close>

definition AddTask_future :: "'f \<Rightarrow> nat ThreadPool \<Rightarrow> ('f, 'r) packaged_task list \<Rightarrow>
    (nat ThreadPool \<times> ('f, 'r) packaged_task list \<times> nat) cxx" where
  "AddTask_future f p ts =
     (let rt = length ts
      in cxx_bind (AddTask rt p) (\<lambda>p'. Inr (p', ts @ [make_task f], rt)))"

section \<open>The threads with the tasks\<close>

record ('f, 'r) future_system =
  sys :: "nat pool_system"
  tasks :: "('f, 'r) packaged_task list"

definition future_init :: "nat \<Rightarrow> bool \<Rightarrow> ('f, 'r) future_system" where
  "future_init n garbage = \<lparr>sys = pool_init n garbage, tasks = []\<rparr>"

text \<open>Every worker that runs a task runs it on.\<close>

definition runs_on :: "'f ThreadPool \<Rightarrow> 'f ThreadPool \<Rightarrow> bool" where
  "runs_on p q \<longleftrightarrow> (\<forall>i < length (workers p). \<forall>t.
     workers p ! i = Executing t \<longrightarrow> workers q ! i = Executing t)"

inductive future_step :: "('f \<Rightarrow> 'r cxx set) \<Rightarrow> ('f, 'r) future_system \<Rightarrow> ('f, 'r) future_system \<Rightarrow> bool"
  for calls where
  add_future: "AddTask_future f (pool (sys s)) (tasks s) = Inr (p, ts, rt) \<Longrightarrow>
    future_step calls s (s\<lparr>tasks := ts,
      sys := (sys s)\<lparr>pool := p, one := Suc (one (sys s)), added := added (sys s) @ [rt]\<rparr>\<rparr>)"
| run_task: "i < length (workers (pool (sys s))) \<Longrightarrow> workers (pool (sys s)) ! i = Executing t \<Longrightarrow>
    r \<in> calls (stored (tasks s ! t)) \<Longrightarrow> kept_outcome r \<Longrightarrow>
    task_call r (tasks s ! t) = Inr task' \<Longrightarrow>
    future_step calls s (s\<lparr>tasks := (tasks s)[t := task'],
      sys := (sys s)\<lparr>pool := set_worker i Checking (pool (sys s))\<rparr>\<rparr>)"
| other: "pool_step (sys s) s' \<Longrightarrow> added s' = added (sys s) \<Longrightarrow>
    runs_on (pool (sys s)) (pool s') \<Longrightarrow>
    future_step calls s (s\<lparr>sys := s'\<rparr>)"

text \<open>Without the results, it is a run of the pool.\<close>

lemma AddTask_future_Inr:
  "AddTask_future f p ts = Inr (p', ts', rt) \<longleftrightarrow>
    AddTask (length ts) p = Inr p' \<and> ts' = ts @ [make_task f] \<and> rt = length ts"
  by (auto simp: AddTask_future_def Let_def cxx_bind_eq_Inr)

lemma future_step_pool_step: "future_step calls s s' \<Longrightarrow> pool_step (sys s) (sys s')"
  by (induction rule: future_step.induct)
    (auto simp: AddTask_future_Inr intro: pool_step.intros worker_step.intros)

section \<open>The invariant\<close>

text \<open>
  \<open>executing i t\<close>: worker \<open>i\<close> runs task \<open>t\<close>. It is the only one, and the task has no result yet; a
  started task that nobody runs has one, an outcome of its own call.
\<close>

definition results_inv :: "('f \<Rightarrow> 'r cxx set) \<Rightarrow> (nat \<Rightarrow> nat \<Rightarrow> bool) \<Rightarrow> nat set \<Rightarrow>
    ('f, 'r) packaged_task list \<Rightarrow> bool" where
  "results_inv calls executing begun ts \<longleftrightarrow>
     (\<forall>i t. executing i t \<longrightarrow> t \<in> begun \<and> result (ts ! t) = None \<and> (\<forall>j. executing j t \<longrightarrow> j = i))
     \<and> (\<forall>t < length ts. t \<in> begun \<longrightarrow> result (ts ! t) = None \<longrightarrow> (\<exists>i. executing i t))
     \<and> (\<forall>t < length ts. \<forall>r. result (ts ! t) = Some r \<longrightarrow>
          t \<in> begun \<and> r \<in> calls (stored (ts ! t)))"

lemma results_inv_add:
  assumes "results_inv calls executing begun ts" "begun \<subseteq> {..<length ts}"
  shows "results_inv calls executing begun (ts @ [make_task f])"
proof -
  have "t < length ts" if "executing i t" for i t
    using assms that by (auto simp: results_inv_def)
  then show ?thesis
    using assms unfolding results_inv_def
    by (auto simp: less_Suc_eq make_task_def nth_append)
qed

lemma results_inv_run:
  assumes inv: "results_inv calls executing begun ts" and t: "executing i t" "begun \<subseteq> {..<length ts}"
    and one: "\<And>u. executing i u \<Longrightarrow> u = t"
    and r: "r \<in> calls (stored (ts ! t))" "task_call r (ts ! t) = Inr task'"
  shows "results_inv calls (\<lambda>j u. executing j u \<and> j \<noteq> i) begun (ts[t := task'])"
proof -
  have "t \<in> begun" "t < length ts" and u: "\<And>j. executing j t \<Longrightarrow> j = i"
    using inv t by (auto simp: results_inv_def)
  moreover have "result task' = Some r" "stored task' = stored (ts ! t)"
    using r(2) by (auto simp: task_call_def split: if_splits)
  ultimately show ?thesis
    using inv r(1) one unfolding results_inv_def by (simp add: nth_list_update) metis
qed

lemma results_inv_start:
  assumes "results_inv calls executing begun ts" "t < length ts" "t \<notin> begun"
    and "\<And>u. \<not> executing i u"
  shows "results_inv calls (\<lambda>j u. executing j u \<or> j = i \<and> u = t) (insert t begun) ts"
proof -
  have "result (ts ! t) = None"
    using assms(1-3) by (cases "result (ts ! t)") (auto simp: results_inv_def)
  then show ?thesis using assms unfolding results_inv_def by auto
qed

definition executes :: "'f pool_system \<Rightarrow> nat \<Rightarrow> 'f \<Rightarrow> bool" where
  "executes s i f \<longleftrightarrow> i < length (workers (pool s)) \<and> workers (pool s) ! i = Executing f"

definition future_inv :: "('f \<Rightarrow> 'r cxx set) \<Rightarrow> ('f, 'r) future_system \<Rightarrow> bool" where
  "future_inv calls s \<longleftrightarrow>
     pool_inv (sys s) \<and> added (sys s) = [0..<length (tasks s)]
     \<and> results_inv calls (executes (sys s)) (snd ` set (started (sys s))) (tasks s)"

text \<open>What the other steps do with the tasks: nothing, or a worker starts the next one.\<close>

lemma other_step_cases:
  assumes "pool_step s s'" "added s' = added s" "runs_on (pool s) (pool s')"
  obtains (same) "started s' = started s" "executes s' = executes s"
  | (start) i t where "workers (pool s) ! i = Checking" "t \<in> set (queue (ready_tasks (pool s)))"
      "started s' = started s @ [(i, t)]" "executes s' = (\<lambda>j u. executes s j u \<or> j = i \<and> u = t)"
  using assms(1)
proof cases
  case internal
  then show ?thesis
  proof cases
    case (check i p w)
    show ?thesis
    proof (cases "pool s" rule: worker_check_cases)
      case (task f q)
      with check show ?thesis
        by (intro start [of i f]) (auto simp: set_worker_def executes_def nth_list_update fun_eq_iff
            split: if_splits)
    qed (use check in \<open>auto simp: set_worker_def executes_def nth_list_update fun_eq_iff intro!: same\<close>)
  next
    case (finish i f)
    with assms(3) show ?thesis by (auto simp: runs_on_def set_worker_def)
  qed (auto simp: set_worker_def wake_all_def executes_def nth_list_update fun_eq_iff
      split: if_splits intro!: same)
next
  case add
  with assms(2) show ?thesis by simp
qed (auto simp: Stop_def Join_def destructor_enter_def set_worker_def executes_def nth_list_update
    fun_eq_iff cxx_bind_eq_Inr split: if_splits intro!: same)

lemma future_inv_tasks:
  assumes "future_inv calls s"
  shows "snd ` set (started (sys s)) \<subseteq> {..<length (tasks s)}"
    and "t \<in> set (queue (ready_tasks (pool (sys s)))) \<Longrightarrow>
      t < length (tasks s) \<and> t \<notin> snd ` set (started (sys s))"
proof -
  have a: "map snd (started (sys s)) @ queue (ready_tasks (pool (sys s))) = [0..<length (tasks s)]"
    using assms unfolding future_inv_def pool_inv_def by metis
  then have "distinct (map snd (started (sys s)) @ queue (ready_tasks (pool (sys s))))"
    by (metis distinct_upt)
  moreover from a have "snd ` set (started (sys s)) \<union> set (queue (ready_tasks (pool (sys s))))
      = {..<length (tasks s)}"
    by (metis atLeast_upt set_append set_map)
  ultimately show "snd ` set (started (sys s)) \<subseteq> {..<length (tasks s)}"
    and "t \<in> set (queue (ready_tasks (pool (sys s)))) \<Longrightarrow>
      t < length (tasks s) \<and> t \<notin> snd ` set (started (sys s))"
    by auto
qed

lemma future_inv_step:
  assumes "future_step calls s s'" "future_inv calls s"
  shows "future_inv calls s'"
proof -
  have inv: "pool_inv (sys s)" "added (sys s) = [0..<length (tasks s)]"
    "results_inv calls (executes (sys s)) (snd ` set (started (sys s))) (tasks s)"
    using assms(2) by (auto simp: future_inv_def)
  have p: "pool_inv (sys s')"
    using future_step_pool_step [OF assms(1)] inv(1) by (rule pool_inv_step)
  note b = future_inv_tasks [OF assms(2)]
  from assms(1) show ?thesis
  proof cases
    case (add_future f q ts rt)
    have "executes (sys s') = executes (sys s)"
      using add_future by (auto simp: AddTask_future_Inr AddTask_def executes_def fun_eq_iff split: if_splits)
    with add_future p inv(2) results_inv_add [OF inv(3) b(1), of f] show ?thesis
      by (simp add: future_inv_def AddTask_future_Inr)
  next
    case (run_task i t r task')
    then have i: "executes (sys s) i t" "\<And>u. executes (sys s) i u \<Longrightarrow> u = t"
      by (auto simp: executes_def)
    have "executes (sys s') = (\<lambda>j u. executes (sys s) j u \<and> j \<noteq> i)"
      using run_task(1,2) by (auto simp: executes_def set_worker_def nth_list_update fun_eq_iff
          split: if_splits)
    then have "results_inv calls (executes (sys s')) (snd ` set (started (sys s))) ((tasks s)[t := task'])"
      using results_inv_run [OF inv(3) i(1) b(1) i(2) run_task(4,6)] by simp
    with p inv(2) show ?thesis unfolding run_task(1) future_inv_def by simp
  next
    case (other q)
    from other(2-4) show ?thesis
    proof (cases rule: other_step_cases)
      case same
      with other p inv show ?thesis by (simp add: future_inv_def)
    next
      case (start i t)
      with b(2) [of t] have "t < length (tasks s)" "t \<notin> snd ` set (started (sys s))"
        "\<And>u. \<not> executes (sys s) i u" by (auto simp: executes_def)
      from results_inv_start [OF inv(3) this] start other p inv(2) show ?thesis
        by (simp add: future_inv_def)
    qed
  qed
qed

interpretation futures: inductive_invariant "\<lambda>s. s = future_init n g" "future_step calls"
  "future_inv calls" for n g calls
proof (unfold_locales, goal_cases)
  case 1
  then show ?case
    using pool.initially [of "pool_init n g"]
    by (auto simp: future_inv_def future_init_def pool_init_def results_inv_def executes_def
        Init_def ThreadPool_new_def)
qed (rule future_inv_step)

lemma nth_update_if: "j < length xs \<Longrightarrow> xs[i := y] ! j = (if i = j then y else xs ! j)"
  by auto

text \<open>A result that is there stays, and so does the call it is the result of.\<close>

lemma future_step_keeps:
  "future_step calls s s' \<Longrightarrow> t < length (tasks s) \<Longrightarrow>
    t < length (tasks s') \<and> stored (tasks s' ! t) = stored (tasks s ! t)
    \<and> (result (tasks s ! t) = Some r \<longrightarrow> result (tasks s' ! t) = Some r)"
  by (induction rule: future_step.induct)
    (auto simp: AddTask_future_Inr task_call_def nth_append nth_update_if split: if_splits)

lemma future_steps_keep:
  "(future_step calls)\<^sup>*\<^sup>* s s' \<Longrightarrow> t < length (tasks s) \<Longrightarrow>
    t < length (tasks s') \<and> stored (tasks s' ! t) = stored (tasks s ! t)
    \<and> (result (tasks s ! t) = Some r \<longrightarrow> result (tasks s' ! t) = Some r)"
proof (induction rule: rtranclp_induct)
  case (step u v)
  then show ?case using future_step_keeps [of calls u v t r] by auto
qed simp

section \<open>The futures\<close>

text \<open>
  C3. What a future of the pool delivers is an outcome of the very call its task was made of, and it
  never changes; a task is run by one worker only, and running it never throws in the worker's loop;
  and when the workers have come to rest every future is ready, unless the pool has no worker.
\<close>

theorem ThreadPool_futures:
  assumes "reach (\<lambda>s. s = future_init n g) (future_step calls) s" and "t < length (tasks s)"
  shows "(\<forall>r s'. result (tasks s ! t) = Some r \<longrightarrow> (future_step calls)\<^sup>*\<^sup>* s s' \<longrightarrow>
        r \<in> calls (stored (tasks s ! t)) \<and> result (tasks s' ! t) = Some r)
    \<and> (\<forall>i. executes (sys s) i t \<longrightarrow> (\<forall>j. executes (sys s) j t \<longrightarrow> j = i)
        \<and> (\<forall>r e. task_call r (tasks s ! t) \<noteq> Inl e))
    \<and> ((\<forall>s'. \<not> worker_step (sys s) s') \<longrightarrow> workers (pool (sys s)) \<noteq> [] \<longrightarrow>
        result (tasks s ! t) \<noteq> None)"
proof (intro conjI)
  have "future_inv calls s" by (rule futures.reachable_inv [OF assms(1)])
  then have r: "results_inv calls (executes (sys s)) (snd ` set (started (sys s))) (tasks s)"
    and a: "added (sys s) = [0..<length (tasks s)]" and p: "pool_inv (sys s)"
    unfolding future_inv_def by blast+
  show "\<forall>r s'. result (tasks s ! t) = Some r \<longrightarrow> (future_step calls)\<^sup>*\<^sup>* s s' \<longrightarrow>
        r \<in> calls (stored (tasks s ! t)) \<and> result (tasks s' ! t) = Some r"
    using r assms(2) future_steps_keep [OF _ assms(2)] unfolding results_inv_def by blast
  show "\<forall>i. executes (sys s) i t \<longrightarrow> (\<forall>j. executes (sys s) j t \<longrightarrow> j = i)
        \<and> (\<forall>r e. task_call r (tasks s ! t) \<noteq> Inl e)"
    using r unfolding results_inv_def by (simp add: task_call_def)
  show "(\<forall>s'. \<not> worker_step (sys s) s') \<longrightarrow> workers (pool (sys s)) \<noteq> [] \<longrightarrow>
        result (tasks s ! t) \<noteq> None"
  proof (intro impI)
    assume q: "\<forall>s'. \<not> worker_step (sys s) s'" and "workers (pool (sys s)) \<noteq> []"
    then have "map snd (started (sys s)) = [0..<length (tasks s)]"
      using quiescent_started [OF p] a by simp
    then have "t \<in> snd ` set (started (sys s))"
      using assms(2) by (metis atLeastLessThan_iff atLeast_upt lessThan_iff set_map)
    moreover have "\<not> executes (sys s) i t" for i
      using q worker_step.finish [of i "sys s" t] by (auto simp: executes_def)
    ultimately show "result (tasks s ! t) \<noteq> None"
      using r assms(2) by (auto simp: results_inv_def)
  qed
qed

section \<open>A concrete run\<close>

fun future_schedule :: "('f \<Rightarrow> 'r cxx) \<Rightarrow> ('f, 'r) future_system \<Rightarrow> 'f pool_event \<Rightarrow>
    ('f, 'r) future_system" where
  "future_schedule run s (Add f) = (case AddTask_future f (pool (sys s)) (tasks s) of
     Inr (p, ts, rt) \<Rightarrow> s\<lparr>tasks := ts,
       sys := (sys s)\<lparr>pool := p, one := Suc (one (sys s)), added := added (sys s) @ [rt]\<rparr>\<rparr>
   | Inl _ \<Rightarrow> s)"
| "future_schedule run s (Work i) =
     (if i < length (workers (pool (sys s))) then case workers (pool (sys s)) ! i of
        Executing t \<Rightarrow> (case task_call (run (stored (tasks s ! t))) (tasks s ! t) of
          Inr task' \<Rightarrow> s\<lparr>tasks := (tasks s)[t := task'],
            sys := (sys s)\<lparr>pool := set_worker i Checking (pool (sys s))\<rparr>\<rparr>
        | Inl _ \<Rightarrow> s)
      | _ \<Rightarrow> s\<lparr>sys := pool_schedule (sys s) (Work i)\<rparr>
      else s)"
| "future_schedule run s e = s\<lparr>sys := pool_schedule (sys s) (map_pool_event (\<lambda>_. 0) e)\<rparr>"

lemma pool_schedule_other:
  assumes "\<And>f. e \<noteq> Add f"
    and "\<And>i f. e = Work i \<Longrightarrow> i < length (workers (pool s)) \<Longrightarrow> workers (pool s) ! i \<noteq> Executing f"
  shows "added (pool_schedule s e) = added s \<and> runs_on (pool s) (pool (pool_schedule s e))"
proof (cases e)
  case (Work i)
  show ?thesis
    using assms(2) [OF Work] Work
    by (cases "pool s" rule: worker_check_cases)
      (auto simp: runs_on_def set_worker_def nth_update_if split: worker.splits)
qed (use assms(1) in \<open>auto simp: runs_on_def set_worker_def wake_all_def nth_update_if Stop_def
    Join_def destructor_enter_def cxx_bind_eq_Inr split: nat.splits option.splits sum.splits\<close>)

lemma future_schedule_step:
  assumes run: "\<And>f. run f \<in> calls f \<and> kept_outcome (run f)"
  shows "future_step calls s (future_schedule run s e) \<or> future_schedule run s e = s"
proof -
  have other: "future_step calls s (s\<lparr>sys := pool_schedule (sys s) e'\<rparr>)
      \<or> s\<lparr>sys := pool_schedule (sys s) e'\<rparr> = s"
    if "\<And>f. e' \<noteq> Add f" "\<And>i f. e' = Work i \<Longrightarrow> i < length (workers (pool (sys s))) \<Longrightarrow>
      workers (pool (sys s)) ! i \<noteq> Executing f" for e'
    using pool_schedule_step [of "sys s" e'] pool_schedule_other [of e' "sys s"] that
      future_step.other [of s "pool_schedule (sys s) e'" calls] by auto
  show ?thesis
  proof (cases e)
    case (Add f)
    then show ?thesis by (auto split: sum.splits intro: future_step.add_future)
  next
    case (Work i)
    show ?thesis
    proof (cases "\<exists>t. i < length (workers (pool (sys s))) \<and> workers (pool (sys s)) ! i = Executing t")
      case True
      then show ?thesis
        using Work by (auto split: sum.splits
          intro: future_step.run_task [OF _ _ conjunct1 [OF run] conjunct2 [OF run]])
    next
      case False
      then have "future_step calls s (s\<lparr>sys := pool_schedule (sys s) (Work i)\<rparr>)
          \<or> s\<lparr>sys := pool_schedule (sys s) (Work i)\<rparr> = s"
        by (intro other) auto
      with Work False show ?thesis by (auto simp del: pool_schedule.simps split: worker.splits)
    qed
  qed (use other [of "map_pool_event (\<lambda>_. 0) e"] in \<open>simp_all del: pool_schedule.simps\<close>)
qed

lemma future_schedule_reach:
  assumes "\<And>f. run f \<in> calls f \<and> kept_outcome (run f)"
  shows "reach (\<lambda>s. s = future_init n g) (future_step calls)
    (foldl (future_schedule run) (future_init n g) es)"
  by (rule reach_foldl) (simp_all add: future_schedule_step assms reach_init)

text \<open>Two workers and two calls, of which the second throws; then \<open>Stop\<close> and the end of the workers.\<close>

definition future_run :: "nat \<Rightarrow> nat cxx" where
  "future_run n = (if n = 11 then Inl (Exception ''eleven'') else Inr (n * n))"

definition future_example :: "(nat, nat) future_system" where
  "future_example = foldl (future_schedule future_run) (future_init 2 True)
     [Work 1, Add 10, Add 11, Work 0, Notify 1, Work 1, Work 1, Work 0, Stop_pool, Notify 0,
      Work 0, Work 1, Notify_all, Work 0, Work 1]"

lemma future_example_result:
  "tasks future_example = [\<lparr>stored = 10, result = Some (Inr 100)\<rparr>,
     \<lparr>stored = 11, result = Some (Inl (Exception ''eleven''))\<rparr>]
   \<and> workers (pool (sys future_example)) = [Exited, Exited]
   \<and> one (sys future_example) = 0 \<and> all (sys future_example) = 0"
  by (simp add: future_example_def pool_run_simps future_init_def AddTask_future_def make_task_def
      task_call_def future_run_def)

lemma future_example_reach:
  "reach (\<lambda>s. s = future_init 2 True) (future_step (\<lambda>f. {future_run f})) future_example"
  unfolding future_example_def by (rule future_schedule_reach) (simp add: future_run_def)

lemma ThreadPool_futures_witness:
  "(\<exists>r. result (tasks future_example ! 1) = Some r \<and> r = future_run 11)
   \<and> \<not> executes (sys future_example) 0 1"
  using ThreadPool_futures [OF future_example_reach, of 1] future_example_result
    quiescentI [of "sys future_example"]
  by (auto simp: executes_def)

end
