(* ===== verification/Synchronizer.thy ===== *)
theory Synchronizer
  imports Decimal
begin

text \<open>
  The task synchronizer of base/synchronizer.h and base/synchronizer.cc: threads wait until a given
  number of tasks has reported. \<open>Wait\<close> and \<open>AddFinishOne\<close> (with its \<open>notify_one\<close>) hold
  \<open>mutex_\<close>, so each check of a waiter and each report is one atomic step. \<open>Clear\<close> takes no lock;
  the model runs it between two atomic steps (a call that overlaps one is a data race). The counters are mathematical integers, that is, fewer
  than 2^31 reports are made between two calls of \<open>Clear\<close>.
\<close>

section \<open>State and operations\<close>

record Synchronizer =
  finish_num :: int
  fail_num :: int
  task_id :: int
  task_name :: string

definition Synchronizer_default :: Synchronizer where
  "Synchronizer_default = \<lparr>finish_num = 0, fail_num = 0, task_id = -1, task_name = ''sync_task''\<rparr>"

definition Synchronizer_id :: "int \<Rightarrow> Synchronizer" where
  "Synchronizer_id i = \<lparr>finish_num = 0, fail_num = 0, task_id = i, task_name = ''sync_task''\<rparr>"

definition Synchronizer_named :: "int \<Rightarrow> string \<Rightarrow> Synchronizer" where
  "Synchronizer_named i name = \<lparr>finish_num = 0, fail_num = 0, task_id = i, task_name = name\<rparr>"

text \<open>Copying takes the identity only, never the counters.\<close>

definition Synchronizer_copy :: "Synchronizer \<Rightarrow> Synchronizer" where
  "Synchronizer_copy sync =
     \<lparr>finish_num = 0, fail_num = 0, task_id = task_id sync, task_name = task_name sync\<rparr>"

definition Clear :: "Synchronizer \<Rightarrow> Synchronizer" where
  "Clear s = s\<lparr>finish_num := 0, fail_num := 0\<rparr>"

definition Sync_Init :: "Synchronizer \<Rightarrow> Synchronizer \<times> int" where
  "Sync_Init s = (Clear s, 0)"

definition GetTaskId :: "Synchronizer \<Rightarrow> int" where
  "GetTaskId s = task_id s"

definition AddFinishOne :: "bool \<Rightarrow> Synchronizer \<Rightarrow> Synchronizer" where
  "AddFinishOne task_result s =
     (let s = s\<lparr>finish_num := finish_num s + 1\<rparr> in
      if \<not> task_result then s\<lparr>fail_num := fail_num s + 1\<rparr> else s)"

definition failure_message :: "string \<Rightarrow> int \<Rightarrow> int \<Rightarrow> string" where
  "failure_message name failed total_num =
     ''task_name['' @ name @ '']: ['' @ dec_int failed @ ''] task(s) failed in all ['' @
     dec_int total_num @ ''] tasks!''"

text \<open>One pass of \<open>Wait\<close> under the lock: \<open>None\<close> if the loop waits (again), else how it ends.\<close>

definition Wait_check :: "int \<Rightarrow> Synchronizer \<Rightarrow> unit cxx option" where
  "Wait_check total_num s =
     (if total_num \<noteq> finish_num s then None
      else if fail_num s \<noteq> 0
      then Some (Inl (Exception (failure_message (task_name s) (fail_num s) total_num)))
      else Some (Inr ()))"

section \<open>Waiting and reporting threads\<close>

datatype waiter = Idle | Checking int | Sleeping int

text \<open>
  \<open>results\<close> lists the reports since the last \<open>Clear\<close>; \<open>ends\<close> lists the completed calls of \<open>Wait\<close>
  with the reports made until then.
\<close>

record sync_system =
  sync :: Synchronizer
  waiters :: "nat \<Rightarrow> waiter"
  results :: "bool list"
  ends :: "(int \<times> bool list \<times> unit cxx) list"

definition sync_init :: "int \<Rightarrow> string \<Rightarrow> sync_system" where
  "sync_init i name = \<lparr>sync = Synchronizer_named i name, waiters = (\<lambda>_. Idle), results = [], ends = []\<rparr>"

text \<open>The threads in \<open>W\<close> may wait. \<open>notify_one\<close> wakes some sleeping thread, if there is one.\<close>

inductive sync_step :: "nat set \<Rightarrow> sync_system \<Rightarrow> sync_system \<Rightarrow> bool" for W where
  wait: "waiters s t = Idle \<Longrightarrow> t \<in> W \<Longrightarrow>
    sync_step W s (s\<lparr>waiters := (waiters s)(t := Checking n)\<rparr>)"
| sleep: "waiters s t = Checking n \<Longrightarrow> Wait_check n (sync s) = None \<Longrightarrow>
    sync_step W s (s\<lparr>waiters := (waiters s)(t := Sleeping n)\<rparr>)"
| complete: "waiters s t = Checking n \<Longrightarrow> Wait_check n (sync s) = Some r \<Longrightarrow>
    sync_step W s (s\<lparr>waiters := (waiters s)(t := Idle), ends := ends s @ [(n, results s, r)]\<rparr>)"
| report_wakes: "waiters s t = Sleeping n \<Longrightarrow>
    sync_step W s (s\<lparr>sync := AddFinishOne b (sync s), results := results s @ [b],
      waiters := (waiters s)(t := Checking n)\<rparr>)"
| report: "(\<And>t n. waiters s t \<noteq> Sleeping n) \<Longrightarrow>
    sync_step W s (s\<lparr>sync := AddFinishOne b (sync s), results := results s @ [b]\<rparr>)"
| clear: "sync_step W s (s\<lparr>sync := Clear (sync s), results := []\<rparr>)"
| spurious: "waiters s t = Sleeping n \<Longrightarrow>
    sync_step W s (s\<lparr>waiters := (waiters s)(t := Checking n)\<rparr>)"

section \<open>Invariants\<close>

text \<open>What a call of \<open>Wait\<close> promises about the reports made when it ends.\<close>

definition wait_promise :: "string \<Rightarrow> int \<times> bool list \<times> unit cxx \<Rightarrow> bool" where
  "wait_promise name e = (case e of (n, rs, r) \<Rightarrow>
     int (length rs) = n \<and>
     r = (if False \<in> set rs
          then Inl (Exception (failure_message name (int (count_list rs False)) n)) else Inr ()))"

definition counters_inv :: "string \<Rightarrow> sync_system \<Rightarrow> bool" where
  "counters_inv name s \<longleftrightarrow> finish_num (sync s) = int (length (results s))
     \<and> fail_num (sync s) = int (count_list (results s) False) \<and> task_name (sync s) = name
     \<and> (\<forall>e \<in> set (ends s). wait_promise name e)"

lemma counters_step: "sync_step W s s' \<Longrightarrow> counters_inv name s \<Longrightarrow> counters_inv name s'"
proof (induction rule: sync_step.induct)
  case (complete s t n r)
  then have "wait_promise name (n, results s, r)"
    by (auto simp: counters_inv_def wait_promise_def Wait_check_def count_list_0_iff split: if_splits)
  with complete show ?case by (simp add: counters_inv_def)
qed (auto simp: counters_inv_def AddFinishOne_def Clear_def Let_def)

definition asleep_inv :: "sync_system \<Rightarrow> bool" where
  "asleep_inv s \<longleftrightarrow> (\<forall>t n. waiters s t = Sleeping n \<longrightarrow> t = 0 \<and> (n \<noteq> 0 \<longrightarrow> n \<noteq> finish_num (sync s)))
     \<and> (\<forall>t. t \<noteq> 0 \<longrightarrow> waiters s t = Idle)"

lemma asleep_step: "sync_step {0} s s' \<Longrightarrow> asleep_inv s \<Longrightarrow> asleep_inv s'"
proof (induction rule: sync_step.induct)
  case (report_wakes s t n b)
  then have "t = 0" by (auto simp: asleep_inv_def)
  with report_wakes show ?case by (auto simp: asleep_inv_def)
qed (auto simp: asleep_inv_def Wait_check_def Clear_def split: if_splits)

interpretation counters: inductive_invariant "\<lambda>s. s = sync_init i name" "sync_step W" "counters_inv name"
  for i name W
  by unfold_locales
    (simp add: sync_init_def counters_inv_def Synchronizer_named_def, rule counters_step)

interpretation asleep: inductive_invariant "\<lambda>s. s = sync_init i name" "sync_step {0}" asleep_inv
  for i name
  by unfold_locales (simp add: sync_init_def asleep_inv_def, rule asleep_step)

section \<open>Properties\<close>

text \<open>
  C26. However many threads wait and report, a call of \<open>Wait\<close> ends only when exactly the given
  number of tasks has reported since the last \<open>Clear\<close>; it returns if all of them succeeded and
  throws the message with the number of failures otherwise.
\<close>

theorem Wait_ends_correctly:
  assumes "reach (\<lambda>s. s = sync_init i name) (sync_step W) s"
    and "(n, rs, r) \<in> set (ends s)"
  shows "int (length rs) = n
    \<and> r = (if False \<in> set rs
           then Inl (Exception (failure_message name (int (count_list rs False)) n)) else Inr ())"
  using counters.reachable_inv [OF assms(1)] assms(2)
  by (fastforce simp: counters_inv_def wait_promise_def)

text \<open>
  C27. With a single waiting thread no wakeup is lost: it sleeps only while the number of reports
  since the last \<open>Clear\<close> differs from the number it waits for, unless that is 0 (a number that
  \<open>Clear\<close>, which notifies nobody, can restore).
\<close>

theorem Wait_single_waiter_woken:
  assumes "reach (\<lambda>s. s = sync_init i name) (sync_step {0}) s" and "waiters s t = Sleeping n"
    and "n \<noteq> 0"
  shows "n \<noteq> int (length (results s))"
  using asleep.reachable_inv [OF assms(1)] counters.reachable_inv [OF assms(1)] assms(2,3)
  by (auto simp: counters_inv_def asleep_inv_def)

section \<open>Concrete runs\<close>

text \<open>A thread's event is its next step; a report wakes the given thread if it sleeps.\<close>

datatype sync_event = Wait nat int | Run nat | Report bool nat | Clear_counters

fun sync_schedule :: "sync_system \<Rightarrow> sync_event \<Rightarrow> sync_system" where
  "sync_schedule s (Wait t n) =
     (if waiters s t = Idle then s\<lparr>waiters := (waiters s)(t := Checking n)\<rparr> else s)"
| "sync_schedule s (Run t) = (case waiters s t of
     Idle \<Rightarrow> s
   | Checking n \<Rightarrow> (case Wait_check n (sync s) of
        None \<Rightarrow> s\<lparr>waiters := (waiters s)(t := Sleeping n)\<rparr>
      | Some r \<Rightarrow> s\<lparr>waiters := (waiters s)(t := Idle), ends := ends s @ [(n, results s, r)]\<rparr>)
   | Sleeping n \<Rightarrow> s\<lparr>waiters := (waiters s)(t := Checking n)\<rparr>)"
| "sync_schedule s (Report b t) = (case waiters s t of
     Sleeping n \<Rightarrow> s\<lparr>sync := AddFinishOne b (sync s), results := results s @ [b],
                    waiters := (waiters s)(t := Checking n)\<rparr>
   | _ \<Rightarrow> s)"
| "sync_schedule s Clear_counters = s\<lparr>sync := Clear (sync s), results := []\<rparr>"

lemma sync_schedule_step:
  "(\<And>t n. e = Wait t n \<Longrightarrow> t \<in> W) \<Longrightarrow> sync_step W s (sync_schedule s e) \<or> sync_schedule s e = s"
  by (cases "(s, e)" rule: sync_schedule.cases)
    (auto split: waiter.splits option.splits intro: sync_step.intros)

lemma sync_run_reach:
  assumes "\<And>t n. Wait t n \<in> set es \<Longrightarrow> t \<in> W"
  shows "reach init (sync_step W) s \<Longrightarrow> reach init (sync_step W) (foldl sync_schedule s es)"
  using assms
proof (induction es arbitrary: s)
  case (Cons e es)
  have "sync_step W s (sync_schedule s e) \<or> sync_schedule s e = s"
    by (rule sync_schedule_step) (use Cons.prems(2) in auto)
  with Cons.prems have "reach init (sync_step W) (sync_schedule s e)" by (metis reach_step)
  then have "reach init (sync_step W) (foldl sync_schedule (sync_schedule s e) es)"
    by (rule Cons.IH) (use Cons.prems(2) in auto)
  then show ?case by simp
qed simp

lemmas sync_run_simps = sync_init_def Synchronizer_named_def AddFinishOne_def Wait_check_def
  failure_message_def

lemma Wait_ends_correctly_witness:
  "let s = foldl sync_schedule (sync_init 3 ''load'')
     [Wait 0 2, Run 0, Report True 0, Run 0, Report False 0, Run 0]
   in ends s = [(2, [True, False],
        Inl (Exception ''task_name[load]: [1] task(s) failed in all [2] tasks!''))]
      \<and> list_all (\<lambda>(n, rs, r). int (length rs) = n) (ends s)"
proof -
  define s where "s = foldl sync_schedule (sync_init 3 ''load'')
     [Wait 0 2, Run 0, Report True 0, Run 0, Report False 0, Run 0]"
  have "reach (\<lambda>s. s = sync_init 3 ''load'') (sync_step {0}) s"
    unfolding s_def by (rule sync_run_reach) (auto intro: reach_init)
  note w = Wait_ends_correctly [OF this]
  have "ends s = [(2, [True, False],
        Inl (Exception ''task_name[load]: [1] task(s) failed in all [2] tasks!''))]"
    by (simp add: s_def sync_run_simps dec_int_def dec_nat.simps digit_chars)
  with w show ?thesis unfolding Let_def s_def [symmetric] list_all_iff by auto
qed

lemma Wait_single_waiter_woken_witness:
  "let s = foldl sync_schedule (sync_init 3 ''load'') [Wait 0 2, Run 0, Report True 0, Run 0]
   in waiters s 0 = Sleeping 2 \<and> 2 \<noteq> int (length (results s))"
proof -
  define s where "s = foldl sync_schedule (sync_init 3 ''load'') [Wait 0 2, Run 0, Report True 0, Run 0]"
  have "reach (\<lambda>s. s = sync_init 3 ''load'') (sync_step {0}) s"
    unfolding s_def by (rule sync_run_reach) (auto intro: reach_init)
  moreover have "waiters s 0 = Sleeping 2" by (simp add: s_def sync_run_simps)
  ultimately show ?thesis using Wait_single_waiter_woken [of 3 "''load''" s 0 2]
    unfolding Let_def s_def [symmetric] by simp
qed

text \<open>
  With several waiting threads a wakeup can be lost: \<open>AddFinishOne\<close> notifies one thread only.
  Two threads wait for the same single task; after its report one of them has returned and
  the other one sleeps, although the awaited number of tasks has reported.
\<close>

lemma Wait_second_waiter_sleeps_on:
  "\<exists>s. reach (\<lambda>s. s = sync_init 0 ''t'') (sync_step {0, 1}) s
     \<and> results s = [True] \<and> ends s = [(1, [True], Inr ())] \<and> waiters s 0 = Idle
     \<and> waiters s 1 = Sleeping 1"
proof (intro exI conjI)
  let ?s = "foldl sync_schedule (sync_init 0 ''t'') [Wait 0 1, Wait 1 1, Run 0, Run 1, Report True 0, Run 0]"
  show "reach (\<lambda>s. s = sync_init 0 ''t'') (sync_step {0, 1}) ?s"
    by (rule sync_run_reach) (auto intro: reach_init)
qed (simp_all add: sync_run_simps)

text \<open>
  \<open>Clear\<close> notifies nobody: a thread that waits for 0 reports sleeps on after the counters are
  back at 0.
\<close>

lemma Clear_wakes_nobody:
  "\<exists>s. reach (\<lambda>s. s = sync_init 0 ''t'') (sync_step {0}) s
     \<and> waiters s 0 = Sleeping 0 \<and> results s = [] \<and> Wait_check 0 (sync s) = Some (Inr ())"
proof (intro exI conjI)
  let ?s = "foldl sync_schedule (sync_init 0 ''t'')
    [Wait 0 1, Run 0, Report True 0, Run 0, Wait 0 0, Run 0, Clear_counters]"
  show "reach (\<lambda>s. s = sync_init 0 ''t'') (sync_step {0}) ?s"
    by (rule sync_run_reach) (auto intro: reach_init)
qed (simp_all add: sync_run_simps Clear_def)

end
