(* ===== verification/Refcount.thy ===== *)
theory Refcount
  imports Prelude
begin

text \<open>
  The reference count of base/refcount.h: first its operations one after the other, then the
  threads that hold references, with every atomic access of \<open>Ref\<close> and \<open>Unref\<close> a step of its own.
  The counter is a mathematical integer, that is, there are fewer than 2^31 references.
\<close>

section \<open>The operations in sequence\<close>

record RefCounted =
  ref :: int
  deletes :: nat

text \<open>\<open>deletes\<close> counts the executions of \<open>delete this\<close>; a deleted object must not be used.\<close>

definition RefCounted_new :: RefCounted where
  "RefCounted_new = \<lparr>ref = 1, deletes = 0\<rparr>"

text \<open>The atomic accesses \<open>Ref\<close> and \<open>Unref\<close> are made of; each reads or writes the object.\<close>

definition access :: "RefCounted \<Rightarrow> 'a cxx \<Rightarrow> 'a cxx" where
  "access r x = (if deletes r \<noteq> 0 then Inl Undefined_Behaviour else x)"

definition Ref_check :: "RefCounted \<Rightarrow> unit cxx" where
  "Ref_check r = access r (if ref r \<ge> 1 then Inr () else Inl Terminated)"

definition Ref_add :: "RefCounted \<Rightarrow> RefCounted cxx" where
  "Ref_add r = access r (Inr (r\<lparr>ref := ref r + 1\<rparr>))"

definition Unref_check :: "RefCounted \<Rightarrow> unit cxx" where
  "Unref_check r = access r (if ref r > 0 then Inr () else Inl Terminated)"

definition Unref_sub :: "RefCounted \<Rightarrow> RefCounted cxx" where
  "Unref_sub r = access r (Inr (r\<lparr>ref := ref r - 1\<rparr>))"

definition Unref_load :: "RefCounted \<Rightarrow> bool cxx" where
  "Unref_load r = access r (Inr (ref r = 0))"

definition Unref_delete :: "RefCounted \<Rightarrow> RefCounted" where
  "Unref_delete r = r\<lparr>deletes := deletes r + 1\<rparr>"

definition Ref :: "RefCounted \<Rightarrow> RefCounted cxx" where
  "Ref r = cxx_bind (Ref_check r) (\<lambda>_. Ref_add r)"

definition Unref :: "RefCounted \<Rightarrow> (RefCounted \<times> bool) cxx" where
  "Unref r = cxx_bind (Unref_check r) (\<lambda>_. cxx_bind (Unref_sub r) (\<lambda>r. cxx_bind (Unref_load r)
     (\<lambda>zero. if zero then Inr (Unref_delete r, True) else Inr (r, False))))"

lemmas access_defs = access_def Ref_check_def Ref_add_def Unref_check_def Unref_sub_def
  Unref_load_def Unref_delete_def

definition RefCountIsOne :: "RefCounted \<Rightarrow> bool" where
  "RefCountIsOne r \<longleftrightarrow> ref r = 1"

definition CurrentRefCount :: "RefCounted \<Rightarrow> int" where
  "CurrentRefCount r = ref r"

fun repeat_Ref :: "nat \<Rightarrow> RefCounted \<Rightarrow> RefCounted cxx" where
  "repeat_Ref 0 r = Inr r"
| "repeat_Ref (Suc n) r = cxx_bind (Ref r) (repeat_Ref n)"

fun repeat_Unref :: "nat \<Rightarrow> RefCounted \<Rightarrow> (RefCounted \<times> bool list) cxx" where
  "repeat_Unref 0 r = Inr (r, [])"
| "repeat_Unref (Suc n) r =
     cxx_bind (Unref r) (\<lambda>(r, b). cxx_bind (repeat_Unref n r) (\<lambda>(r, bs). Inr (r, b # bs)))"

lemma Ref_result: "deletes r = 0 \<Longrightarrow> 1 \<le> ref r \<Longrightarrow> Ref r = Inr (r\<lparr>ref := ref r + 1\<rparr>)"
  by (simp add: Ref_def access_defs)

lemma Unref_result:
  "deletes r = 0 \<Longrightarrow> 0 < ref r \<Longrightarrow> Unref r =
    Inr (if ref r = 1 then (r\<lparr>ref := 0, deletes := 1\<rparr>, True) else (r\<lparr>ref := ref r - 1\<rparr>, False))"
  by (simp add: Unref_def access_defs)

lemma repeat_Ref_result:
  "deletes r = 0 \<Longrightarrow> 1 \<le> ref r \<Longrightarrow> repeat_Ref n r = Inr (r\<lparr>ref := ref r + int n\<rparr>)"
  by (induction n arbitrary: r) (simp_all add: Ref_result)

lemma repeat_Unref_result:
  "deletes r = 0 \<Longrightarrow> ref r = int n + 1 \<Longrightarrow>
    repeat_Unref (Suc n) r = Inr (r\<lparr>ref := 0, deletes := 1\<rparr>, replicate n False @ [True])"
proof (induction n arbitrary: r)
  case (Suc n)
  from Suc.prems Suc.IH [of "r\<lparr>ref := 1 + int n\<rparr>"] show ?case
    by (subst repeat_Unref.simps(2)) (simp add: Unref_result del: repeat_Unref.simps(2))
qed (simp add: Unref_result)

text \<open>
  Used by one thread at a time, an object that was given \<open>n\<close> further references is deleted by
  the last of \<open>n + 1\<close> calls of \<open>Unref\<close>, exactly once, and that call only returns true; one call
  more uses a deleted object.
\<close>

lemma sequential_Ref_Unref:
  "cxx_bind (repeat_Ref n RefCounted_new) (repeat_Unref (Suc n)) =
     Inr (\<lparr>ref = 0, deletes = 1\<rparr>, replicate n False @ [True])
   \<and> Unref \<lparr>ref = 0, deletes = 1\<rparr> = Inl Undefined_Behaviour"
  by (simp add: repeat_Ref_result repeat_Unref_result RefCounted_new_def Unref_def access_defs
      del: repeat_Unref.simps)

section \<open>Threads\<close>

text \<open>
  Where a thread is: it holds no reference; it holds one; inside \<open>Ref\<close> it has passed the check;
  inside \<open>Unref\<close> it has passed the check, or it has decremented the counter and is about to read it
  again, or it has read 0 and is about to delete the object; it has returned from \<open>Unref\<close>; an
  access of it failed. A thread inside \<open>Ref\<close> keeps its own reference, and the new one goes to
  another thread.
\<close>

datatype owner = None_held | Held | Sharing | Checked | Decremented | Read_zero | Returned bool
  | Failed cxx_error

record ref_system =
  object :: RefCounted
  owners :: "owner list"

fun after :: "'a cxx \<Rightarrow> ('a \<Rightarrow> owner) \<Rightarrow> owner" where
  "after (Inr a) f = f a"
| "after (Inl e) f = Failed e"

definition at_owner :: "ref_system \<Rightarrow> nat \<Rightarrow> owner \<Rightarrow> bool" where
  "at_owner s i w \<longleftrightarrow> i < length (owners s) \<and> owners s ! i = w"

definition set_owner :: "nat \<Rightarrow> owner \<Rightarrow> ref_system \<Rightarrow> ref_system" where
  "set_owner i w s = s\<lparr>owners := (owners s)[i := w]\<rparr>"

definition set_object :: "RefCounted cxx \<Rightarrow> ref_system \<Rightarrow> ref_system" where
  "set_object x s = (case x of Inr r \<Rightarrow> s\<lparr>object := r\<rparr> | Inl _ \<Rightarrow> s)"

inductive ref_step :: "ref_system \<Rightarrow> ref_system \<Rightarrow> bool" where
  ref_check: "at_owner s i Held \<Longrightarrow>
    ref_step s (set_owner i (after (Ref_check (object s)) (\<lambda>_. Sharing)) s)"
| ref_add: "at_owner s i Sharing \<Longrightarrow> at_owner s j None_held \<Longrightarrow> Ref_add (object s) = Inr r \<Longrightarrow>
    ref_step s (set_owner i Held (set_owner j Held (s\<lparr>object := r\<rparr>)))"
| ref_add_fails: "at_owner s i Sharing \<Longrightarrow> Ref_add (object s) = Inl e \<Longrightarrow>
    ref_step s (set_owner i (Failed e) s)"
| unref_check: "at_owner s i Held \<Longrightarrow>
    ref_step s (set_owner i (after (Unref_check (object s)) (\<lambda>_. Checked)) s)"
| unref_sub: "at_owner s i Checked \<Longrightarrow>
    ref_step s (set_owner i (after (Unref_sub (object s)) (\<lambda>_. Decremented))
      (set_object (Unref_sub (object s)) s))"
| unref_load: "at_owner s i Decremented \<Longrightarrow>
    ref_step s (set_owner i
      (after (Unref_load (object s)) (\<lambda>zero. if zero then Read_zero else Returned False)) s)"
| unref_delete: "at_owner s i Read_zero \<Longrightarrow>
    ref_step s (set_owner i (Returned True) (s\<lparr>object := Unref_delete (object s)\<rparr>))"

definition ref_init :: "nat \<Rightarrow> ref_system" where
  "ref_init n = \<lparr>object = RefCounted_new, owners = Held # replicate n None_held\<rparr>"

text \<open>The references that count: those held, and those whose decrement is still to come.\<close>

definition counts :: "owner \<Rightarrow> bool" where
  "counts w \<longleftrightarrow> w \<in> {Held, Sharing, Checked}"

definition live :: "owner list \<Rightarrow> nat" where
  "live ws = length (filter counts ws)"

definition ref_inv :: "ref_system \<Rightarrow> bool" where
  "ref_inv s \<longleftrightarrow> ref (object s) = int (live (owners s))
     \<and> (0 < deletes (object s) \<or> Read_zero \<in> set (owners s) \<longrightarrow> live (owners s) = 0)
     \<and> (\<forall>e. Failed e \<in> set (owners s) \<longrightarrow> e = Undefined_Behaviour \<and> 0 < deletes (object s))"

lemma live_update:
  "i < length ws \<Longrightarrow> live (ws[i := w]) + of_bool (counts (ws ! i)) = live ws + of_bool (counts w)"
proof (induction ws arbitrary: i)
  case (Cons x ws)
  then show ?case by (cases i) (use Cons.IH in \<open>force simp: live_def split: if_splits\<close>)+
qed simp

lemma live_pos: "w \<in> set ws \<Longrightarrow> counts w \<Longrightarrow> 0 < live ws"
  by (auto simp: live_def filter_empty_conv)

lemmas owner_defs = at_owner_def set_owner_def set_object_def counts_def

lemma ref_inv_step: "ref_step s s' \<Longrightarrow> ref_inv s \<Longrightarrow> ref_inv s'"
proof (induction rule: ref_step.induct)
  case (ref_check s i)
  then have "after (Ref_check (object s)) (\<lambda>_. Sharing) = Sharing"
    using live_pos [of Held "owners s"] nth_mem [of i "owners s"]
    by (auto simp: ref_inv_def owner_defs access_defs)
  with ref_check show ?case
    using live_update [of i "owners s" Sharing]
    by (auto simp: ref_inv_def owner_defs dest!: set_update_cases)
next
  case (ref_add s i j r)
  then have "i \<noteq> j" by (auto simp: owner_defs)
  with ref_add show ?case
    using live_update [of j "owners s" Held] live_update [of i "(owners s)[j := Held]" Held]
      live_pos [of Sharing "owners s"] nth_mem [of i "owners s"]
    by (auto simp: ref_inv_def owner_defs access_defs split: if_splits dest!: set_update_cases)
next
  case (ref_add_fails s i e)
  then show ?case
    using live_pos [of Sharing "owners s"] nth_mem [of i "owners s"]
    by (auto simp: ref_inv_def owner_defs access_defs split: if_splits)
next
  case (unref_check s i)
  then have "after (Unref_check (object s)) (\<lambda>_. Checked) = Checked"
    using live_pos [of Held "owners s"] nth_mem [of i "owners s"]
    by (auto simp: ref_inv_def owner_defs access_defs)
  with unref_check show ?case
    using live_update [of i "owners s" Checked]
    by (auto simp: ref_inv_def owner_defs dest!: set_update_cases)
next
  case (unref_sub s i)
  then have "deletes (object s) = 0"
    using live_pos [of Checked "owners s"] nth_mem [of i "owners s"]
    by (auto simp: ref_inv_def owner_defs)
  with unref_sub show ?case
    using live_update [of i "owners s" Decremented]
    by (auto simp: ref_inv_def owner_defs access_defs dest!: set_update_cases)
next
  case (unref_load s i)
  then show ?case
    using live_update [of i "owners s" "after (Unref_load (object s))
      (\<lambda>zero. if zero then Read_zero else Returned False)"]
    by (auto simp: ref_inv_def owner_defs access_defs split: if_splits dest!: set_update_cases)
next
  case (unref_delete s i)
  then have "live (owners s) = 0"
    using nth_mem [of i "owners s"] by (auto simp: ref_inv_def owner_defs)
  with unref_delete show ?case
    using live_update [of i "owners s" "Returned True"]
    by (auto simp: ref_inv_def owner_defs access_defs dest!: set_update_cases)
qed

interpretation refs: inductive_invariant "\<lambda>s. s = ref_init n" ref_step ref_inv for n
  by unfold_locales
    (simp add: ref_init_def ref_inv_def RefCounted_new_def live_def counts_def, rule ref_inv_step)

text \<open>
  C28. In every interleaving the counter is the number of references that are still to be dropped,
  a thread that holds a reference always finds the object alive and the checks of \<open>Ref\<close> and
  \<open>Unref\<close> true, so no thread ends in a failed check, and an access fails only because the object
  is deleted already.
\<close>

theorem held_object_alive:
  assumes "reach (\<lambda>s. s = ref_init n) ref_step s"
  shows "ref (object s) = int (live (owners s))
    \<and> (Held \<in> set (owners s) \<longrightarrow> Ref_check (object s) = Inr () \<and> Unref_check (object s) = Inr ())
    \<and> (Failed e \<in> set (owners s) \<longrightarrow> e = Undefined_Behaviour \<and> 0 < deletes (object s))"
proof -
  have inv: "ref_inv s" by (rule refs.reachable_inv [OF assms])
  with live_pos [of Held "owners s"] show ?thesis
    by (auto simp: ref_inv_def counts_def access_defs)
qed

section \<open>Concrete runs\<close>

text \<open>
  \<open>Start_Ref i\<close>: thread \<open>i\<close> enters \<open>Ref\<close>; \<open>Share i j\<close>: it adds the reference and gives it to \<open>j\<close>;
  \<open>Step i\<close>: the next access of its \<open>Unref\<close>.
\<close>

datatype ref_event = Start_Ref nat | Share nat nat | Step nat

fun ref_schedule :: "ref_system \<Rightarrow> ref_event \<Rightarrow> ref_system" where
  "ref_schedule s (Start_Ref i) = (if at_owner s i Held
     then set_owner i (after (Ref_check (object s)) (\<lambda>_. Sharing)) s else s)"
| "ref_schedule s (Share i j) =
     (if at_owner s i Sharing \<and> at_owner s j None_held
      then case Ref_add (object s) of
        Inr r \<Rightarrow> set_owner i Held (set_owner j Held (s\<lparr>object := r\<rparr>))
      | Inl e \<Rightarrow> set_owner i (Failed e) s
      else s)"
| "ref_schedule s (Step i) =
     (if at_owner s i Held then set_owner i (after (Unref_check (object s)) (\<lambda>_. Checked)) s
      else if at_owner s i Checked
      then set_owner i (after (Unref_sub (object s)) (\<lambda>_. Decremented))
             (set_object (Unref_sub (object s)) s)
      else if at_owner s i Decremented
      then set_owner i (after (Unref_load (object s))
             (\<lambda>zero. if zero then Read_zero else Returned False)) s
      else if at_owner s i Read_zero
      then set_owner i (Returned True) (s\<lparr>object := Unref_delete (object s)\<rparr>)
      else s)"

lemma ref_schedule_step: "ref_step s (ref_schedule s e) \<or> ref_schedule s e = s"
  by (cases "(s, e)" rule: ref_schedule.cases)
    (use ref_step.intros [of s] in \<open>auto split: sum.splits\<close>)

lemma ref_schedule_reach:
  "reach (\<lambda>s. s = ref_init n) ref_step (foldl ref_schedule (ref_init n) es)"
  by (rule reach_foldl) (simp_all add: ref_schedule_step reach_init)

lemmas ref_run_simps = ref_init_def RefCounted_new_def access_defs owner_defs numeral_2_eq_2

lemma held_object_alive_witness:
  "let s = foldl ref_schedule (ref_init 2)
     [Start_Ref 0, Share 0 1, Step 0, Step 0, Start_Ref 1, Share 1 2, Step 1]
   in ref (object s) = int (live (owners s)) \<and> live (owners s) = 2 \<and> Ref_check (object s) = Inr ()"
proof -
  define s where "s = foldl ref_schedule (ref_init 2)
     [Start_Ref 0, Share 0 1, Step 0, Step 0, Start_Ref 1, Share 1 2, Step 1]"
  have r: "reach (\<lambda>s. s = ref_init 2) ref_step s"
    unfolding s_def by (rule ref_schedule_reach)
  have "owners s = [Decremented, Checked, Held]" by (simp add: s_def ref_run_simps)
  with held_object_alive [OF r] show ?thesis
    unfolding Let_def s_def [symmetric] by (simp add: live_def counts_def)
qed

text \<open>
  C40. \<open>Unref\<close> decrements the counter and then reads it with a separate load. When two threads drop
  the last two references at the same time, both can read 0 before either deletes the object, and
  then both delete it; or one can read the counter after the other has deleted the object.
\<close>

theorem concurrent_Unref_deletes_twice:
  "(\<exists>s. reach (\<lambda>s. s = ref_init 1) ref_step s \<and> deletes (object s) = 2
      \<and> owners s = [Returned True, Returned True])
   \<and> (\<exists>s. reach (\<lambda>s. s = ref_init 1) ref_step s
      \<and> owners s = [Returned True, Failed Undefined_Behaviour])"
proof (intro conjI exI)
  let ?s = "foldl ref_schedule (ref_init 1)
     [Start_Ref 0, Share 0 1, Step 0, Step 1, Step 0, Step 1, Step 0, Step 1, Step 0, Step 1]"
  show "reach (\<lambda>s. s = ref_init 1) ref_step ?s" by (rule ref_schedule_reach)
  show "deletes (object ?s) = 2" "owners ?s = [Returned True, Returned True]"
    by (simp_all add: ref_run_simps)
  let ?t = "foldl ref_schedule (ref_init 1)
     [Start_Ref 0, Share 0 1, Step 0, Step 1, Step 0, Step 1, Step 0, Step 0, Step 1]"
  show "reach (\<lambda>s. s = ref_init 1) ref_step ?t" by (rule ref_schedule_reach)
  show "owners ?t = [Returned True, Failed Undefined_Behaviour]" by (simp add: ref_run_simps)
qed

end
