(* ===== verification/Thread_Local.thy ===== *)
theory Thread_Local
  imports Prelude
begin

text \<open>
  Thread-local storage: \<open>ThreadLocal\<close> of base/thread_local.h, which keeps one value for each thread
  under a pthread key, and \<open>ThreadLocalSingleton\<close> of the same file, which also lists the instances
  so that it can delete them. The pthread calls are taken to succeed (an error would only be
  constructed, not thrown). Threads are natural numbers; \<open>init\<close> is the value of \<open>T()\<close>.
\<close>

section \<open>ThreadLocal\<close>

type_synonym 'v ThreadLocal = "nat \<Rightarrow> 'v option"

definition ThreadLocal_new :: "'v ThreadLocal" where
  "ThreadLocal_new = (\<lambda>_. None)"

text \<open>\<open>Value()\<close> in thread \<open>t\<close>: the object of the thread, made on first use.\<close>

definition TL_Value :: "'v \<Rightarrow> nat \<Rightarrow> 'v ThreadLocal \<Rightarrow> 'v ThreadLocal \<times> 'v" where
  "TL_Value init t l = (case l t of None \<Rightarrow> (l(t \<mapsto> init), init) | Some v \<Rightarrow> (l, v))"

text \<open>Assigning through the reference that \<open>Value()\<close> returns, and the end of a thread.\<close>

definition TL_assign :: "'v \<Rightarrow> nat \<Rightarrow> 'v \<Rightarrow> 'v ThreadLocal \<Rightarrow> 'v ThreadLocal" where
  "TL_assign init t v l = (fst (TL_Value init t l))(t \<mapsto> v)"

definition TL_Destructor :: "nat \<Rightarrow> 'v ThreadLocal \<Rightarrow> 'v ThreadLocal" where
  "TL_Destructor t l = l(t := None)"

text \<open>
  Threads do not see each other's values: after an assignment the thread reads the assigned
  value, however often it asks, and every other thread reads what it would have read before.
\<close>

lemma ThreadLocal_isolated:
  "snd (TL_Value init u (TL_assign init t v l)) = (if u = t then v else snd (TL_Value init u l))
   \<and> snd (TL_Value init u (fst (TL_Value init t (TL_assign init t v l)))) =
       (if u = t then v else snd (TL_Value init u l))
   \<and> snd (TL_Value init t (TL_Destructor t l)) = init"
  by (simp add: TL_Value_def TL_assign_def TL_Destructor_def split: option.splits)

section \<open>ThreadLocalSingleton\<close>

text \<open>\<open>tptr\<close>: the instance of each thread; \<open>instances\<close>: the pointers in \<open>data_\<close>.\<close>

record TLSingleton =
  tptr :: "nat \<Rightarrow> nat option"
  instances :: "nat list"
  fresh_instance :: nat

definition TLSingleton_new :: TLSingleton where
  "TLSingleton_new = \<lparr>tptr = (\<lambda>_. None), instances = [], fresh_instance = 0\<rparr>"

definition TLS_Get :: "nat \<Rightarrow> TLSingleton \<Rightarrow> TLSingleton \<times> nat" where
  "TLS_Get t s = (case tptr s t of
     Some p \<Rightarrow> (s, p)
   | None \<Rightarrow> (s\<lparr>tptr := (tptr s)(t \<mapsto> fresh_instance s), instances := instances s @ [fresh_instance s],
                fresh_instance := fresh_instance s + 1\<rparr>, fresh_instance s))"

text \<open>The destructor deletes these instances, in order.\<close>

definition TLS_deleted :: "TLSingleton \<Rightarrow> nat list" where
  "TLS_deleted s = instances s"

definition tls_inv :: "TLSingleton \<Rightarrow> bool" where
  "tls_inv s \<longleftrightarrow> distinct (instances s) \<and> (\<forall>p \<in> set (instances s). p < fresh_instance s)
     \<and> (\<forall>p. p \<in> set (instances s) \<longleftrightarrow> (\<exists>t. tptr s t = Some p))
     \<and> (\<forall>t u p. tptr s t = Some p \<longrightarrow> tptr s u = Some p \<longrightarrow> t = u)"

lemma tls_invD:
  assumes "tls_inv s"
  shows "distinct (instances s)" "p \<in> set (instances s) \<Longrightarrow> p < fresh_instance s"
    "p \<in> set (instances s) \<longleftrightarrow> (\<exists>t. tptr s t = Some p)"
    "tptr s t = Some p \<Longrightarrow> tptr s u = Some p \<Longrightarrow> t = u"
  using assms unfolding tls_inv_def by blast+

lemma tls_inv_Get:
  assumes inv: "tls_inv s"
  shows "tls_inv (fst (TLS_Get t s))"
proof (cases "tptr s t")
  case (Some p)
  with inv show ?thesis by (simp add: TLS_Get_def)
next
  case None
  let ?f = "fresh_instance s" and ?tp = "(tptr s)(t \<mapsto> fresh_instance s)"
  have new: "?f \<notin> set (instances s)" using tls_invD(2) [OF inv, of ?f] by auto
  have tp: "?tp u = Some p \<longleftrightarrow> (if u = t then p = ?f else tptr s u = Some p)" for u p by auto
  have fresh: "tptr s u \<noteq> Some ?f" for u using new tls_invD(3) [OF inv, of ?f] by auto
  have "distinct (instances s @ [?f])" using tls_invD(1) [OF inv] new by simp
  moreover have "\<forall>p \<in> set (instances s @ [?f]). p < ?f + 1" using tls_invD(2) [OF inv] by fastforce
  moreover have "p \<in> set (instances s @ [?f]) \<longleftrightarrow> (\<exists>u. ?tp u = Some p)" for p
    using tls_invD(3) [OF inv, of p] None unfolding tp by (cases "p = ?f") force+
  moreover have "u = u'" if "?tp u = Some p" "?tp u' = Some p" for u u' p
    using that fresh tls_invD(4) [OF inv, of u p u'] unfolding tp by (auto split: if_splits)
  moreover have "tptr (fst (TLS_Get t s)) = ?tp" "instances (fst (TLS_Get t s)) = instances s @ [?f]"
    "fresh_instance (fst (TLS_Get t s)) = ?f + 1"
    using None by (simp_all add: TLS_Get_def)
  ultimately show ?thesis unfolding tls_inv_def by metis
qed

text \<open>
  After any sequence of calls of \<open>Get\<close> the singleton deletes every instance exactly once, and
  there is one instance for each thread that called it and never one for two threads.
\<close>

lemma ThreadLocalSingleton_one_per_thread:
  "let s = foldl (\<lambda>s t. fst (TLS_Get t s)) TLSingleton_new ts in
   distinct (TLS_deleted s) \<and> length (TLS_deleted s) = card (set ts)
   \<and> (\<forall>t. tptr s t = None \<longleftrightarrow> t \<notin> set ts)"
proof -
  let ?s = "foldl (\<lambda>s t. fst (TLS_Get t s)) TLSingleton_new ts"
  have dom: "tptr (foldl (\<lambda>s t. fst (TLS_Get t s)) s ts) t = None \<longleftrightarrow> tptr s t = None \<and> t \<notin> set ts" for s t
  proof (induction ts arbitrary: s)
    case (Cons u ts)
    then show ?case by (auto simp: TLS_Get_def split: option.splits if_splits)
  qed simp
  have inv: "tls_inv s \<Longrightarrow> tls_inv (foldl (\<lambda>s t. fst (TLS_Get t s)) s ts)" for s
    by (induction ts arbitrary: s) (simp_all add: tls_inv_Get)
  have i: "tls_inv ?s" by (rule inv) (simp add: tls_inv_def TLSingleton_new_def)
  have d: "tptr ?s t = None \<longleftrightarrow> t \<notin> set ts" for t by (simp add: dom TLSingleton_new_def)
  have "bij_betw (\<lambda>t. the (tptr ?s t)) (set ts) (set (instances ?s))"
  proof (rule bij_betwI')
    fix t u
    assume "t \<in> set ts" "u \<in> set ts"
    then obtain p q where "tptr ?s t = Some p" "tptr ?s u = Some q" using d by (meson not_None_eq)
    then show "the (tptr ?s t) = the (tptr ?s u) \<longleftrightarrow> t = u" using tls_invD(4) [OF i] by auto
  next
    fix t
    assume "t \<in> set ts"
    then obtain p where "tptr ?s t = Some p" using d by (meson not_None_eq)
    then show "the (tptr ?s t) \<in> set (instances ?s)" using tls_invD(3) [OF i, of p] by auto
  next
    fix p
    assume "p \<in> set (instances ?s)"
    then obtain t where t: "tptr ?s t = Some p" using tls_invD(3) [OF i, of p] by auto
    with d [of t] have "t \<in> set ts" by auto
    with t show "\<exists>t \<in> set ts. p = the (tptr ?s t)" by force
  qed
  then have "card (set ts) = card (set (instances ?s))" by (rule bij_betw_same_card)
  with i d show ?thesis
    by (simp add: Let_def TLS_deleted_def tls_inv_def distinct_card)
qed

end
