(* ===== verification/Registry.thy ===== *)
theory Registry
  imports Prelude "HOL-Library.List_Lexorder" "HOL-Library.Char_ord"
begin

text \<open>
  Tables from names to functions: the global \<open>Register\<close> of base/register.h with the allocators
  that base/allocator_registry.h and base/allocator.cc put into it, and the \<open>GeneralFactory\<close> of
  base/general_factory.h. Both log their failed lookups; these messages are not modelled. The
  registered functions are values of an arbitrary type.
\<close>

section \<open>std::map\<close>

text \<open>A \<open>std::map\<close> is the list of its pairs, ordered by the keys.\<close>

fun map_put :: "'k::linorder \<Rightarrow> 'v \<Rightarrow> ('k \<times> 'v) list \<Rightarrow> ('k \<times> 'v) list" where
  "map_put k v [] = [(k, v)]"
| "map_put k v ((k', v') # xs) =
     (if k < k' then (k, v) # (k', v') # xs
      else if k = k' then (k, v) # xs
      else (k', v') # map_put k v xs)"

definition ordered :: "('k::linorder \<times> 'v) list \<Rightarrow> bool" where
  "ordered xs \<longleftrightarrow> sorted_wrt (<) (map fst xs)"

lemma keys_map_put: "fst ` set (map_put k v xs) = insert k (fst ` set xs)"
  by (induction k v xs rule: map_put.induct) auto

lemma ordered_map_put: "ordered xs \<Longrightarrow> ordered (map_put k v xs)"
proof (induction k v xs rule: map_put.induct)
  case (2 k v k' v' xs)
  have "k' < x" if "k' < k" "x \<in> fst ` set (map_put k v xs)" for x
    using that 2(2) unfolding keys_map_put by (auto simp: ordered_def)
  with 2 show ?case by (auto simp: ordered_def)
qed (simp add: ordered_def)

lemma map_of_map_put: "ordered xs \<Longrightarrow> map_of (map_put k v xs) = (map_of xs)(k \<mapsto> v)"
proof (induction k v xs rule: map_put.induct)
  case (2 k v k' v' xs)
  then show ?case by (auto simp: ordered_def fun_eq_iff)
qed simp

section \<open>Contracts of name tables\<close>

text \<open>
  A table binds names; binding one name leaves the others alone. Two tables differ in what
  happens to a name that is bound already.
\<close>

locale name_table =
  fixes register :: "string \<Rightarrow> 'v \<Rightarrow> 't \<Rightarrow> 't"
    and lookup :: "'t \<Rightarrow> string \<Rightarrow> 'v option"
    and inv :: "'t \<Rightarrow> bool"
  assumes register_other: "inv t \<Longrightarrow> k' \<noteq> k \<Longrightarrow> lookup (register k v t) k' = lookup t k'"
    and register_new: "inv t \<Longrightarrow> lookup t k = None \<Longrightarrow> lookup (register k v t) k = Some v"
    and register_inv: "inv t \<Longrightarrow> inv (register k v t)"
begin

definition register_all :: "(string \<times> 'v) list \<Rightarrow> 't \<Rightarrow> 't" where
  "register_all kvs t = foldl (\<lambda>t (k, v). register k v t) t kvs"

lemma register_all_simps [simp]:
  "register_all [] t = t"
  "register_all ((k, v) # kvs) t = register_all kvs (register k v t)"
  by (simp_all add: register_all_def)

end

locale last_wins_table = name_table register lookup inv
  for register :: "string \<Rightarrow> 'v \<Rightarrow> 't \<Rightarrow> 't" and lookup :: "'t \<Rightarrow> string \<Rightarrow> 'v option"
    and inv :: "'t \<Rightarrow> bool" +
  assumes register_again: "inv t \<Longrightarrow> lookup t k = Some w \<Longrightarrow> lookup (register k v t) k = Some v"
begin

lemma register_same: "inv t \<Longrightarrow> lookup (register k v t) k = Some v"
  by (cases "lookup t k") (auto intro: register_new register_again)

lemma lookup_all:
  "inv t \<Longrightarrow> lookup (register_all kvs t) k =
    (case map_of (rev kvs) k of Some v \<Rightarrow> Some v | None \<Rightarrow> lookup t k)"
proof (induction kvs arbitrary: t)
  case (Cons kv kvs)
  obtain k' v where kv: "kv = (k', v)" by (cases kv)
  have "lookup (register k' v t) k = (if k = k' then Some v else lookup t k)"
    using register_same [OF Cons.prems] register_other [OF Cons.prems] by simp
  with Cons.IH [OF register_inv [OF Cons.prems], of k' v] kv show ?case
    by (auto simp: map_add_def split: option.splits)
qed simp

end

locale first_wins_table = name_table register lookup inv
  for register :: "string \<Rightarrow> 'v \<Rightarrow> 't \<Rightarrow> 't" and lookup :: "'t \<Rightarrow> string \<Rightarrow> 'v option"
    and inv :: "'t \<Rightarrow> bool" +
  assumes register_again: "inv t \<Longrightarrow> lookup t k = Some w \<Longrightarrow> lookup (register k v t) k = Some w"
begin

lemma lookup_all:
  "inv t \<Longrightarrow> lookup (register_all kvs t) k =
    (case lookup t k of Some v \<Rightarrow> Some v | None \<Rightarrow> map_of kvs k)"
proof (induction kvs arbitrary: t)
  case Nil
  then show ?case by (simp split: option.splits)
next
  case (Cons kv kvs)
  obtain k' v where kv: "kv = (k', v)" by (cases kv)
  show ?case
  proof (cases "k = k'")
    case True
    with Cons.IH [OF register_inv [OF Cons.prems], of k' v] kv register_new [OF Cons.prems, of k' v]
      register_again [OF Cons.prems, of k' _ v]
    show ?thesis by (cases "lookup t k'") auto
  next
    case False
    with Cons.IH [OF register_inv [OF Cons.prems], of k' v] kv register_other [OF Cons.prems, of k k' v]
    show ?thesis by (auto split: option.splits)
  qed
qed

end

section \<open>Register\<close>

record 'f entry =
  entry_name :: string
  func :: "'f option"
  return_type :: string

text \<open>The entries live on the heap; the lists and the map hold pointers to them.\<close>

record 'f Register =
  entry_list :: "nat list"
  const_list :: "nat list"
  func_mapper :: "(string \<times> nat) list"
  heap :: "nat \<Rightarrow> 'f entry"
  fresh_entry :: nat

definition Register_new :: "'f Register" where
  "Register_new = \<lparr>entry_list = [], const_list = [], func_mapper = [],
     heap = (\<lambda>_. \<lparr>entry_name = [], func = None, return_type = []\<rparr>), fresh_entry = 0\<rparr>"

definition Register_List :: "'f Register \<Rightarrow> nat list" where
  "Register_List r = const_list r"

definition ListAllNames :: "'f Register \<Rightarrow> string list" where
  "ListAllNames r = map fst (func_mapper r)"

definition Find :: "'f Register \<Rightarrow> string \<Rightarrow> nat option" where
  "Find r name = map_of (func_mapper r) name"

text \<open>\<open>at\<close> throws on a missing key; the error for a taken alias is constructed but not thrown.\<close>

definition AddAlias :: "string \<Rightarrow> string \<Rightarrow> 'f Register \<Rightarrow> 'f Register cxx" where
  "AddAlias key_name alias r =
     (case map_of (func_mapper r) key_name of
        None \<Rightarrow> Inl (Exception ''map::at'')
      | Some t \<Rightarrow>
          if map_of (func_mapper r) alias \<noteq> None then Inr r
          else Inr (r\<lparr>func_mapper := map_put alias t (func_mapper r)\<rparr>))"

text \<open>The error for a name that is registered already is constructed but not thrown.\<close>

definition REGISTER :: "string \<Rightarrow> 'f Register \<Rightarrow> 'f Register \<times> nat" where
  "REGISTER name r =
     (let t = fresh_entry r in
      (r\<lparr>heap := (heap r)(t := \<lparr>entry_name = name, func = None, return_type = []\<rparr>),
         fresh_entry := t + 1, func_mapper := map_put name t (func_mapper r),
         const_list := const_list r @ [t], entry_list := entry_list r @ [t]\<rparr>, t))"

definition SetFunction :: "nat \<Rightarrow> 'f \<Rightarrow> 'f Register \<Rightarrow> 'f Register" where
  "SetFunction t f r = r\<lparr>heap := (heap r)(t := (heap r t)\<lparr>func := Some f\<rparr>)\<rparr>"

definition SetReturnType :: "nat \<Rightarrow> string \<Rightarrow> 'f Register \<Rightarrow> 'f Register" where
  "SetReturnType t ty r = r\<lparr>heap := (heap r)(t := (heap r t)\<lparr>return_type := ty\<rparr>)\<rparr>"

definition Function :: "nat \<Rightarrow> 'f Register \<Rightarrow> 'f option" where
  "Function t r = func (heap r t)"

text \<open>The entries that the destructor deletes, in order.\<close>

definition Register_destroy :: "'f Register \<Rightarrow> nat list" where
  "Register_destroy r = map (\<lambda>i. entry_list r ! i) [0..<length (entry_list r)]"

text \<open>
  \<open>REGISTER_ALLOCATOR(allocator, name)\<close>, and \<open>cpu_allocator\<close> up to the call of the function it
  finds: the null pointer for a name without entry, an exception for an entry without function.
\<close>

definition REGISTER_ALLOCATOR :: "string \<Rightarrow> 'f \<Rightarrow> 'f Register \<Rightarrow> 'f Register" where
  "REGISTER_ALLOCATOR name f r = (let (r, t) = REGISTER name r in SetFunction t f r)"

definition cpu_allocator :: "'f Register \<Rightarrow> string \<Rightarrow> 'f option cxx" where
  "cpu_allocator r name = (case Find r name of
     None \<Rightarrow> Inr None
   | Some t \<Rightarrow> (case Function t r of
       None \<Rightarrow> Inl (Exception ''std::bad_function_call'')
     | Some f \<Rightarrow> Inr (Some f)))"

text \<open>The function registered under a name.\<close>

definition registered :: "'f Register \<Rightarrow> string \<Rightarrow> 'f option" where
  "registered r name = (case Find r name of None \<Rightarrow> None | Some t \<Rightarrow> Function t r)"

text \<open>
  The map is ordered and points to entries that were made, and the list of entries has each of them
  once.
\<close>

definition register_inv :: "'f Register \<Rightarrow> bool" where
  "register_inv r \<longleftrightarrow> ordered (func_mapper r)
     \<and> (\<forall>k t. map_of (func_mapper r) k = Some t \<longrightarrow> t < fresh_entry r)
     \<and> entry_list r = [0..<fresh_entry r] \<and> const_list r = [0..<fresh_entry r]"

lemma REGISTER_inv: "register_inv r \<Longrightarrow> register_inv (fst (REGISTER name r))"
  by (auto simp: register_inv_def REGISTER_def Let_def ordered_map_put map_of_map_put less_Suc_eq
      split: if_splits)

lemma AddAlias_inv: "register_inv r \<Longrightarrow> AddAlias key alias r = Inr r' \<Longrightarrow> register_inv r'"
  by (auto simp: register_inv_def AddAlias_def ordered_map_put map_of_map_put
      split: option.splits if_splits)

lemma SetFunction_inv [simp]: "register_inv (SetFunction t f r) = register_inv r"
  by (simp add: register_inv_def SetFunction_def)

lemma SetReturnType_inv [simp]: "register_inv (SetReturnType t ty r) = register_inv r"
  by (simp add: register_inv_def SetReturnType_def)

text \<open>
  The destructor deletes every entry that was made exactly once, however many names and aliases
  point to it, and also the entries whose name was taken over.
\<close>

lemma Register_destroy_all:
  assumes "register_inv r"
  shows "Register_destroy r = [0..<fresh_entry r]" and "ran (map_of (func_mapper r)) \<subseteq> set (Register_destroy r)"
proof -
  show "Register_destroy r = [0..<fresh_entry r]"
    using assms map_nth [of "entry_list r"] by (simp add: Register_destroy_def register_inv_def)
  with assms show "ran (map_of (func_mapper r)) \<subseteq> set (Register_destroy r)"
    by (auto simp: register_inv_def ran_def)
qed

lemma REGISTER_ALLOCATOR_inv: "register_inv r \<Longrightarrow> register_inv (REGISTER_ALLOCATOR name f r)"
  using REGISTER_inv [of r name] by (auto simp: REGISTER_ALLOCATOR_def split: prod.split)

lemma REGISTER_ALLOCATOR_lookup:
  "register_inv r \<Longrightarrow> registered (REGISTER_ALLOCATOR name f r) k =
    (if k = name then Some f else registered r k)"
  by (auto simp: registered_def Find_def Function_def REGISTER_ALLOCATOR_def REGISTER_def SetFunction_def
      Let_def register_inv_def map_of_map_put split: option.splits)

interpretation allocators: last_wins_table REGISTER_ALLOCATOR registered register_inv
  by unfold_locales (simp_all add: REGISTER_ALLOCATOR_inv REGISTER_ALLOCATOR_lookup)

text \<open>If every entry has its function, the lookup of \<open>cpu_allocator\<close> succeeds.\<close>

definition all_set :: "'f Register \<Rightarrow> bool" where
  "all_set r \<longleftrightarrow> (\<forall>k t. Find r k = Some t \<longrightarrow> Function t r \<noteq> None)"

lemma cpu_allocator_registered: "all_set r \<Longrightarrow> cpu_allocator r k = Inr (registered r k)"
  by (fastforce simp: all_set_def cpu_allocator_def registered_def split: option.split)

lemma REGISTER_ALLOCATOR_set: "register_inv r \<Longrightarrow> all_set r \<Longrightarrow> all_set (REGISTER_ALLOCATOR name f r)"
  by (auto simp: all_set_def Find_def Function_def REGISTER_ALLOCATOR_def REGISTER_def SetFunction_def
      Let_def register_inv_def map_of_map_put split: if_splits)

lemma register_all_set: "register_inv r \<Longrightarrow> all_set r \<Longrightarrow> all_set (allocators.register_all regs r)"
  by (induction regs arbitrary: r) (auto simp: REGISTER_ALLOCATOR_set REGISTER_ALLOCATOR_inv)

text \<open>A name that is registered by \<open>OPENMI_REGISTER_OBJECT\<close> alone makes \<open>cpu_allocator\<close> throw.\<close>

lemma no_function_throws:
  "register_inv r \<Longrightarrow> cpu_allocator (fst (REGISTER name r)) name = Inl (Exception ''std::bad_function_call'')"
  by (simp add: cpu_allocator_def Find_def Function_def REGISTER_def Let_def register_inv_def map_of_map_put)

lemma REGISTER_ALLOCATOR_lists:
  "const_list (REGISTER_ALLOCATOR name f r) = const_list r @ [fresh_entry r]"
  "fresh_entry (REGISTER_ALLOCATOR name f r) = fresh_entry r + 1"
  by (simp_all add: REGISTER_ALLOCATOR_def REGISTER_def SetFunction_def Let_def)

lemma register_new_inv: "register_inv Register_new"
  by (simp add: register_inv_def Register_new_def ordered_def)

lemma register_all_inv: "register_inv r \<Longrightarrow> register_inv (allocators.register_all regs r)"
  by (induction regs arbitrary: r) (auto simp: REGISTER_ALLOCATOR_inv)

lemma register_all_const_list:
  "const_list (allocators.register_all regs r) =
    const_list r @ [fresh_entry r..<fresh_entry r + length regs]"
proof (induction regs arbitrary: r)
  case (Cons kv regs)
  then show ?case
    using upt_conv_Cons [of "fresh_entry r" "fresh_entry r + length (kv # regs)"]
    by (cases kv) (simp add: REGISTER_ALLOCATOR_lists del: upt_Suc)
qed simp

text \<open>
  C30. A name that is registered again is overwritten without an error: after any sequence of
  registrations \<open>cpu_allocator\<close> finds the last function registered under the name, while the list
  of all registered entries keeps one entry for every registration, and the destructor deletes each
  of them once.
\<close>

theorem register_last_wins:
  "let r = foldl (\<lambda>r (k, f). REGISTER_ALLOCATOR k f r) Register_new regs
   in cpu_allocator r name = Inr (map_of (rev regs) name)
      \<and> length (Register_List r) = length regs \<and> Register_destroy r = Register_List r
      \<and> distinct (Register_destroy r)"
proof -
  define r where "r = allocators.register_all regs Register_new"
  have r: "foldl (\<lambda>r (k, f). REGISTER_ALLOCATOR k f r) Register_new regs = r"
    by (simp add: r_def allocators.register_all_def)
  have inv: "register_inv r"
    unfolding r_def by (rule register_all_inv [OF register_new_inv])
  have "all_set (Register_new :: 'a Register)" by (simp add: all_set_def Find_def Register_new_def)
  from cpu_allocator_registered [OF register_all_set [OF register_new_inv this]]
  have c: "cpu_allocator r name = Inr (registered r name)" by (simp add: r_def)
  have "registered (Register_new :: 'a Register) name = None"
    by (simp add: registered_def Find_def Register_new_def)
  moreover have "length (const_list (allocators.register_all regs Register_new)) = length regs"
    by (simp add: register_all_const_list) (simp add: Register_new_def)
  ultimately show ?thesis
    using allocators.lookup_all [OF register_new_inv, of regs name] c Register_destroy_all(1) [OF inv] inv
    unfolding r by (simp add: r_def Register_List_def register_inv_def split: option.splits)
qed

text \<open>An alias finds the entry of its key, if the alias was free.\<close>

lemma AddAlias_found:
  assumes "register_inv r" "Find r key = Some t" "Find r alias = None"
  shows "\<exists>r'. AddAlias key alias r = Inr r' \<and> register_inv r' \<and> Find r' alias = Some t
    \<and> (\<forall>k. k \<noteq> alias \<longrightarrow> Find r' k = Find r k)"
  using assms
  by (auto simp: AddAlias_def Find_def register_inv_def map_of_map_put ordered_map_put)

section \<open>The allocator interface\<close>

text \<open>
  \<open>Allocate<T>(n)\<close> of base/allocator.h with \<open>sizeof(T) = sz\<close>: the number of bytes it asks
  \<open>AllocateRaw\<close> for, or \<open>None\<close> for the null pointer it returns when the product would not fit.
\<close>

definition Allocate_bytes :: "nat \<Rightarrow> nat \<Rightarrow> nat option" where
  "Allocate_bytes sz num_elements =
     (if num_elements > (2 ^ 64 - 1) div sz then None else Some (to_uint64 (int num_elements * int sz)))"

text \<open>
  An allocation never asks for fewer bytes than its elements need: it is refused exactly when
  the product of count and size does not fit 64 bits, and otherwise the product does not wrap.
\<close>

lemma Allocate_exact:
  assumes "0 < sz"
  shows "Allocate_bytes sz n = (if n * sz < 2 ^ 64 then Some (n * sz) else None)"
proof -
  have "n > (2 ^ 64 - 1) div sz \<longleftrightarrow> \<not> n * sz < 2 ^ 64"
  proof -
    have "n > (2 ^ 64 - 1) div sz \<longleftrightarrow> (2 ^ 64 - 1 :: nat) < n * sz"
      using assms by (simp add: div_less_iff_less_mult)
    then show ?thesis by auto
  qed
  moreover have "to_uint64 (int n * int sz) = n * sz" if "n * sz < 2 ^ 64"
    using to_uint64_of_nat [OF that] by simp
  ultimately show ?thesis by (simp add: Allocate_bytes_def)
qed

lemma Allocate_exact_witness:
  "Allocate_bytes 8 1000 = Some 8000 \<and> Allocate_bytes 8 (2 ^ 61) = None"
  using Allocate_exact [of 8 1000] Allocate_exact [of 8 "2 ^ 61"] by simp

text \<open>
  The memory of the allocators: the blocks that are live, with their sizes. The default
  \<open>AllocateRaw\<close> and the one of \<open>CPUAllocator\<close>, which ignores the alignment, are \<open>new char[n]\<close>;
  \<open>DeallocateRaw\<close> is \<open>delete[]\<close>.
\<close>

record raw_memory =
  live :: "nat \<Rightarrow> nat option"
  next_block :: nat

definition kAlignment :: nat where
  "kAlignment = 32"

definition AllocateRaw :: "nat \<Rightarrow> nat \<Rightarrow> raw_memory \<Rightarrow> raw_memory \<times> nat" where
  "AllocateRaw alignment num_bytes m =
     (m\<lparr>live := (live m)(next_block m \<mapsto> num_bytes), next_block := next_block m + 1\<rparr>, next_block m)"

definition DeallocateRaw :: "nat \<Rightarrow> raw_memory \<Rightarrow> raw_memory cxx" where
  "DeallocateRaw p m =
     (if live m p = None then Inl Undefined_Behaviour else Inr (m\<lparr>live := (live m)(p := None)\<rparr>))"

definition Allocate :: "nat \<Rightarrow> nat \<Rightarrow> raw_memory \<Rightarrow> raw_memory \<times> nat option" where
  "Allocate sz num_elements m = (case Allocate_bytes sz num_elements of
     None \<Rightarrow> (m, None)
   | Some num_bytes \<Rightarrow> (let (m, p) = AllocateRaw kAlignment num_bytes m in (m, Some p)))"

definition Deallocate :: "nat option \<Rightarrow> nat \<Rightarrow> raw_memory \<Rightarrow> raw_memory cxx" where
  "Deallocate p num_elements m = (case p of None \<Rightarrow> Inr m | Some p \<Rightarrow> DeallocateRaw p m)"

text \<open>
  What \<open>Allocate\<close> returns can be given back, whether it succeeded or not, which frees exactly what
  was allocated; a second time is undefined. A block has room for all its elements.
\<close>

lemma Allocate_Deallocate:
  assumes "0 < sz" "\<forall>p. next_block m \<le> p \<longrightarrow> live m p = None" "Allocate sz n m = (m', p)"
  shows "\<exists>m''. Deallocate p k m' = Inr m'' \<and> live m'' = live m
    \<and> (p = None \<longleftrightarrow> 2 ^ 64 \<le> n * sz)
    \<and> (\<forall>q. p = Some q \<longrightarrow> live m q = None \<and> live m' q = Some (n * sz)
         \<and> Deallocate p k m'' = Inl Undefined_Behaviour)"
  using assms(2,3) Allocate_exact [OF assms(1), of n]
  by (auto simp: Allocate_def AllocateRaw_def Deallocate_def DeallocateRaw_def fun_upd_idem split: if_splits)

section \<open>GeneralFactory\<close>

type_synonym 'g GeneralFactory = "string \<Rightarrow> 'g option"

definition RegisterClass :: "string \<Rightarrow> 'g \<Rightarrow> 'g GeneralFactory \<Rightarrow> 'g GeneralFactory" where
  "RegisterClass class_name factory m = (if m class_name \<noteq> None then m else m(class_name \<mapsto> factory))"

text \<open>The constructor of \<open>GeneralClassRegister\<close>, for the factory it gets.\<close>

definition GeneralClassRegister :: "string \<Rightarrow> 'g \<Rightarrow> 'g GeneralFactory \<Rightarrow> 'g GeneralFactory" where
  "GeneralClassRegister class_name factory m = RegisterClass class_name factory m"

definition CreateObj :: "('g \<Rightarrow> 'o) \<Rightarrow> 'g GeneralFactory \<Rightarrow> string \<Rightarrow> 'o option" where
  "CreateObj create m class_name = map_option create (m class_name)"

interpretation factory: first_wins_table RegisterClass "\<lambda>m k. m k" "\<lambda>_. True"
  by unfold_locales (simp_all add: RegisterClass_def)

text \<open>
  The class factory keeps the first registration of a name: after any sequence of
  registrations an object is made by the first factory registered under its class name, and no
  object is made for a name that was never registered.
\<close>

lemma factory_first_wins:
  "CreateObj create (foldl (\<lambda>m (k, g). RegisterClass k g m) Map.empty regs) name =
     map_option create (map_of regs name)"
  using factory.lookup_all [of regs Map.empty name]
  by (simp add: CreateObj_def factory.register_all_def)

end
