(* ===== verification/Timer.thy ===== *)
theory Timer
  imports Prelude
begin

text \<open>
  The timers of base/timer.h. Times are pairs of seconds and microseconds as \<open>gettimeofday\<close>
  returns them; the clock is an argument of every operation that reads it. A timer that was never
  ended has an end time of arbitrary content.
\<close>

type_synonym timeval = "int \<times> int"

record Timer =
  start :: timeval
  end_tv :: timeval

definition GetTime :: "int \<Rightarrow> int" where
  "GetTime now = now"

definition TimeStamp :: "int \<Rightarrow> nat" where
  "TimeStamp now = to_uint64 now"

definition CurrentTimeUs :: "timeval \<Rightarrow> nat" where
  "CurrentTimeUs tv = to_uint64 (fst tv * 1000000 + snd tv)"

definition Timer_new :: "timeval \<Rightarrow> timeval \<Rightarrow> Timer" where
  "Timer_new garbage tv = \<lparr>start = tv, end_tv = garbage\<rparr>"

text \<open>Both results are computed in 64 bits and returned as an \<open>int\<close>.\<close>

definition Elapsed :: "bool \<Rightarrow> timeval \<Rightarrow> Timer \<Rightarrow> Timer \<times> int" where
  "Elapsed restart tv t =
     (let t = t\<lparr>end_tv := tv\<rparr>;
          d = to_int32 ((fst (end_tv t) - fst (start t)) * 1000 * 1000 + (snd (end_tv t) - snd (start t)))
      in (if restart then t\<lparr>start := end_tv t\<rparr> else t, d))"

definition Timer_GetElapsed :: "Timer \<Rightarrow> int" where
  "Timer_GetElapsed t =
     to_int32 (int (to_uint64 ((fst (end_tv t) - fst (start t)) * 1000000 + (snd (end_tv t) - snd (start t)))))"

definition Timer_EndTimer :: "timeval \<Rightarrow> Timer \<Rightarrow> Timer" where
  "Timer_EndTimer tv t = t\<lparr>end_tv := tv\<rparr>"

definition Restart :: "timeval \<Rightarrow> Timer \<Rightarrow> Timer" where
  "Restart tv t = t\<lparr>start := tv\<rparr>"

definition CurTimeStamp :: "Timer \<Rightarrow> int" where
  "CurTimeStamp t = fst (start t)"

section \<open>TimerManager\<close>

text \<open>The manager shares its timers: the map holds pointers to timers on the heap.\<close>

record TimerManager =
  timer_map :: "string \<Rightarrow> nat option"
  timers :: "nat \<Rightarrow> Timer"
  fresh_timer :: nat

definition AddTimer :: "string \<Rightarrow> timeval \<Rightarrow> timeval \<Rightarrow> TimerManager \<Rightarrow> TimerManager \<times> nat" where
  "AddTimer name garbage tv m = (case timer_map m name of
     Some p \<Rightarrow> (m, p)
   | None \<Rightarrow> (m\<lparr>timer_map := (timer_map m)(name \<mapsto> fresh_timer m),
                timers := (timers m)(fresh_timer m := Timer_new garbage tv),
                fresh_timer := fresh_timer m + 1\<rparr>, fresh_timer m))"

definition EndTimer :: "string \<Rightarrow> timeval \<Rightarrow> TimerManager \<Rightarrow> TimerManager" where
  "EndTimer name tv m = (case timer_map m name of
     None \<Rightarrow> m
   | Some p \<Rightarrow> m\<lparr>timers := (timers m)(p := Timer_EndTimer tv (timers m p))\<rparr>)"

definition GetElapsed :: "string \<Rightarrow> TimerManager \<Rightarrow> int" where
  "GetElapsed name m = (case timer_map m name of
     None \<Rightarrow> -1 | Some p \<Rightarrow> Timer_GetElapsed (timers m p))"

definition GetTimer :: "string \<Rightarrow> TimerManager \<Rightarrow> nat option" where
  "GetTimer name m = timer_map m name"

section \<open>Properties\<close>

text \<open>The microseconds from \<open>a\<close> to \<open>b\<close>.\<close>

definition micros :: "timeval \<Rightarrow> timeval \<Rightarrow> int" where
  "micros a b = (fst b - fst a) * 1000000 + (snd b - snd a)"

lemma to_int32_of_uint64: "to_int32 (int (to_uint64 i)) = to_int32 i"
proof (rule to_int32_cong)
  have "(i mod 2 ^ 64) mod 2 ^ 32 = i mod (2 ^ 32 :: int)"
    by (rule mod_mod_cancel) (rule le_imp_power_dvd, simp)
  then show "int (to_uint64 i) mod 2 ^ 32 = i mod 2 ^ 32" by (simp add: to_uint64_def)
qed

text \<open>
  Both ways to read a timer agree, and they are right exactly for intervals below 2^31
  microseconds (35 minutes and 47 seconds): a longer interval wraps around.
\<close>

lemma elapsed_exact_iff:
  "snd (Elapsed r tv t) = Timer_GetElapsed (Timer_EndTimer tv t)
   \<and> (snd (Elapsed r tv t) = micros (start t) tv \<longleftrightarrow>
        - (2 ^ 31) \<le> micros (start t) tv \<and> micros (start t) tv < 2 ^ 31)
   \<and> start (fst (Elapsed r tv t)) = (if r then tv else start t)"
proof -
  have "snd (Elapsed r tv t) = to_int32 (micros (start t) tv)"
    by (simp add: Elapsed_def micros_def Let_def algebra_simps)
  moreover have "Timer_GetElapsed (Timer_EndTimer tv t) = to_int32 (micros (start t) tv)"
    by (simp add: Timer_GetElapsed_def Timer_EndTimer_def micros_def to_int32_of_uint64)
  moreover have "to_int32 i = i \<longleftrightarrow> - (2 ^ 31) \<le> i \<and> i < 2 ^ 31" for i
    using to_int32_range [of i] to_int32_id [of i] by auto
  ultimately show ?thesis by (simp add: Elapsed_def Let_def)
qed

text \<open>
  A named timer measures from its first \<open>AddTimer\<close> to its last \<open>EndTimer\<close>: adding the name again
  returns the same timer without restarting it, and timers of other names are not touched.
\<close>

lemma TimerManager_measures_from_first_add:
  assumes "timer_map m name = None" and "other \<noteq> name"
    and "timer_map m other = Some p" and "p < fresh_timer m"
  shows "let m1 = fst (AddTimer name g tv0 m); m2 = fst (AddTimer name g' tv1 m1);
             m3 = EndTimer name tv2 m2
         in GetElapsed name m3 = to_int32 (micros tv0 tv2) \<and> GetTimer name m3 = GetTimer name m1
            \<and> GetElapsed other m3 = GetElapsed other m"
  using assms
  by (simp add: Let_def AddTimer_def EndTimer_def GetElapsed_def GetTimer_def Timer_EndTimer_def
      Timer_new_def Timer_GetElapsed_def to_int32_of_uint64 micros_def)

lemma TimerManager_measures_from_first_add_witness:
  "let m = \<lparr>timer_map = [''b'' \<mapsto> 0], timers = (\<lambda>_. Timer_new (0, 0) (5, 0)), fresh_timer = 1\<rparr>;
       m1 = fst (AddTimer ''a'' (0, 0) (10, 5) m); m2 = fst (AddTimer ''a'' (0, 0) (11, 0) m1)
   in GetElapsed ''a'' (EndTimer ''a'' (12, 7) m2) = 2000002"
  using TimerManager_measures_from_first_add [of "\<lparr>timer_map = [''b'' \<mapsto> 0],
      timers = (\<lambda>_. Timer_new (0, 0) (5, 0)), fresh_timer = 1\<rparr>" "''a''" "''b''" 0 "(0, 0)" "(10, 5)"
      "(0, 0)" "(11, 0)" "(12, 7)"]
  by (simp add: Let_def micros_def)

end
