(* ===== verification/System_Info.thy ===== *)
theory System_Info
  imports Prelude
begin

text \<open>
  \<open>SystemInfo\<close> of base/system_info.h (and its copy in base/logging.cc). What the system calls
  return is an argument. Local arrays are not initialised: the bytes they hold beforehand are an
  argument \<open>garbage\<close>.
\<close>

text \<open>
  \<open>fread\<close> fills the array with the output of uname, which has no NUL; the string runs to the
  first NUL of the rest of the array, and past the array if there is none. \<open>pop_back\<close> on an empty
  string is undefined.
\<close>

definition OsName :: "string \<Rightarrow> string \<Rightarrow> string cxx" where
  "OsName uname garbage =
     (let res = take 100 (take 100 uname @ drop (length (take 100 uname)) garbage) in
      if NUL \<notin> set res then Inl Undefined_Behaviour
      else if c_str res = [] then Inl Undefined_Behaviour
      else Inr (butlast (c_str res)))"

text \<open>
  \<open>gethostname\<close>: the bytes it leaves in the array, or \<open>None\<close> on failure, when the last byte of the
  uninitialised array is set to NUL.
\<close>

definition gethostname_result :: "string option \<Rightarrow> string \<Rightarrow> string" where
  "gethostname_result res garbage = (case res of
     Some s \<Rightarrow> c_str s | None \<Rightarrow> c_str (take 127 garbage @ [NUL]))"

record SystemInfo =
  host_name :: string

definition Hostname :: "string option \<Rightarrow> string \<Rightarrow> SystemInfo \<Rightarrow> SystemInfo \<times> string" where
  "Hostname res garbage s =
     (let s = (if host_name s = [] then s\<lparr>host_name := gethostname_result res garbage\<rparr> else s)
      in (s, host_name s))"

text \<open>The name is asked for until it is not empty, and kept from then on.\<close>

lemma Hostname_cached:
  "snd (Hostname res g s) \<noteq> [] \<Longrightarrow>
    Hostname res' g' (fst (Hostname res g s)) = (fst (Hostname res g s), snd (Hostname res g s))"
  by (auto simp: Hostname_def Let_def)

section \<open>The thread's number\<close>

text \<open>
  The macros the preprocessor asks for, and what the system calls of the running thread return.
\<close>

record platform =
  OS_LINUX :: bool
  OS_MACOSX :: bool
  OS_WINDOWS :: bool
  OS_CYGWIN :: bool

record thread_calls =
  sys_gettid :: int
  getpid :: int
  GetCurrentThreadId :: nat
  pthread_self :: nat

text \<open>
  \<open>GetTID\<close>; \<open>lacks_gettid\<close> is its static variable. A number becomes a \<open>pthread_t\<close>, which is
  an unsigned 64-bit integer.
\<close>

definition GetTID :: "platform \<Rightarrow> thread_calls \<Rightarrow> bool \<Rightarrow> bool \<times> nat" where
  "GetTID os call lacks_gettid =
     (let tid = sys_gettid call;
          tries = (OS_LINUX os \<or> OS_MACOSX os) \<and> \<not> lacks_gettid
      in if tries \<and> tid \<noteq> -1 then (lacks_gettid, to_uint64 tid)
         else (lacks_gettid \<or> tries,
           if OS_LINUX os then to_uint64 (getpid call)
           else if OS_WINDOWS os \<and> \<not> OS_CYGWIN os then GetCurrentThreadId call
           else pthread_self call))"

text \<open>
  While \<open>gettid\<close> works every thread gets its own number; after it has failed once, in any thread,
  no thread asks for it again, and on Linux all threads of a process get the number of the process.
\<close>

lemma GetTID_numbers:
  "OS_LINUX os \<Longrightarrow> 0 \<le> sys_gettid c \<Longrightarrow> sys_gettid c < 2 ^ 31 \<Longrightarrow>
    GetTID os c False = (False, nat (sys_gettid c))"
  "OS_LINUX os \<Longrightarrow> sys_gettid c = -1 \<Longrightarrow> GetTID os c l = (True, to_uint64 (getpid c))"
  "OS_LINUX os \<Longrightarrow> GetTID os c True = (True, to_uint64 (getpid c))"
  by (simp_all add: GetTID_def Let_def to_uint64_def)

section \<open>The name of the system\<close>

text \<open>
  \<open>OsName\<close> is right only by luck: for a system name that fits the array it returns the name
  exactly when the uninitialised byte of the array after the newline happens to be NUL.
\<close>

lemma OsName_right_iff:
  assumes "NUL \<notin> set os" "length os < 99" "length garbage = 100"
  shows "OsName (os @ [newline]) garbage = Inr os \<longleftrightarrow> garbage ! (length os + 1) = NUL"
proof -
  obtain b rest where d: "drop (length os + 1) garbage = b # rest"
    using assms(2,3) by (cases "drop (length os + 1) garbage") auto
  have b: "garbage ! Suc (length os) = b" using nth_via_drop [OF d] by simp
  have "length (drop (length os + 1) garbage) = length (b # rest)" by (simp only: d)
  then have r: "length rest = 98 - length os" using assms(2,3) by simp
  define res where "res = os @ newline # b # rest"
  have "take 100 (take 100 (os @ [newline]) @ drop (length (take 100 (os @ [newline]))) garbage) = res"
    using assms(2) d r by (simp add: res_def)
  then have os: "OsName (os @ [newline]) garbage =
      (if NUL \<notin> set res then Inl Undefined_Behaviour
       else if c_str res = [] then Inl Undefined_Behaviour else Inr (butlast (c_str res)))"
    unfolding OsName_def Let_def by simp
  have c: "c_str res = os @ newline # takeWhile (\<lambda>c. c \<noteq> NUL) (b # rest)"
  proof -
    have "\<forall>c \<in> set os. c \<noteq> NUL" using assms(1) by auto
    then show ?thesis by (simp add: c_str_def res_def)
  qed
  show ?thesis
  proof (cases "b = NUL")
    case True
    then show ?thesis by (simp add: os c b butlast_append) (simp add: res_def)
  next
    case False
    then have "length (butlast (c_str res)) \<noteq> length os" by (simp add: c)
    then have "butlast (c_str res) \<noteq> os" by auto
    with False show ?thesis by (simp add: os b)
  qed
qed

lemma OsName_right_iff_witness:
  "OsName (''Linux'' @ [newline]) (replicate 100 NUL) = Inr ''Linux''
   \<and> OsName (''Linux'' @ [newline]) (replicate 100 (CHR ''x'')) \<noteq> Inr ''Linux''"
  using OsName_right_iff [of "''Linux''" "replicate 100 NUL"]
    OsName_right_iff [of "''Linux''" "replicate 100 (CHR ''x'')"] by simp

end
