(* ===== verification/File_IO.thy ===== *)
theory File_IO
  imports Text_Util
begin

text \<open>
  File access: \<open>Write\<close> of base/write_op.h and base/write_op.cc (and \<open>internal::WriteOp\<close> of
  base/logging.h and base/logging.cc, which is the same class), \<open>Read\<close> and \<open>MMap\<close> of base/read_op.h and
  base/read_op.cc, and \<open>FileOp\<close> of base/file_op.h.

  The file system maps paths to files and files to their contents, so a file that was
  unlinked while it is open still receives what is written to it. Which paths are directories, which
  can be opened for writing and which can be made directories are fields of the file system. Writes reach the file at once (a stream's
  buffer is not modelled), and nobody else writes to a file that is open.
\<close>

record file_system =
  names :: "string \<Rightarrow> nat option"
  data :: "nat \<Rightarrow> string"
  next_file :: nat
  links :: "string \<Rightarrow> string option"
  creatable :: "string \<Rightarrow> bool"
  dirs :: "string \<Rightarrow> bool"
  dir_creatable :: "string \<Rightarrow> bool"

definition file_content :: "file_system \<Rightarrow> string \<Rightarrow> string option" where
  "file_content fs path = map_option (data fs) (names fs path)"

text \<open>\<open>open\<close> for writing: an existing file is truncated unless it is opened to append.\<close>

definition fs_open :: "bool \<Rightarrow> string \<Rightarrow> file_system \<Rightarrow> file_system \<times> nat option" where
  "fs_open app path fs =
     (if \<not> creatable fs path then (fs, None)
      else case names fs path of
        Some f \<Rightarrow> (if app then fs else fs\<lparr>data := (data fs)(f := [])\<rparr>, Some f)
      | None \<Rightarrow> (fs\<lparr>names := (names fs)(path \<mapsto> next_file fs),
                    data := (data fs)(next_file fs := []), next_file := next_file fs + 1\<rparr>,
                 Some (next_file fs)))"

text \<open>\<open>access\<close> and \<open>mkdir\<close>.\<close>

definition fs_exists :: "file_system \<Rightarrow> string \<Rightarrow> bool" where
  "fs_exists fs path \<longleftrightarrow> dirs fs path \<or> names fs path \<noteq> None"

definition fs_mkdir :: "string \<Rightarrow> file_system \<Rightarrow> file_system \<times> bool" where
  "fs_mkdir path fs =
     (if dir_creatable fs path \<and> \<not> fs_exists fs path
      then (fs\<lparr>dirs := (dirs fs)(path := True)\<rparr>, True) else (fs, False))"

definition fs_append :: "nat \<Rightarrow> string \<Rightarrow> file_system \<Rightarrow> file_system" where
  "fs_append f s fs = fs\<lparr>data := (data fs)(f := data fs f @ s)\<rparr>"

section \<open>Writing\<close>

text \<open>\<open>handle\<close> is the open file and \<open>good\<close> the state of the stream.\<close>

record WriteOp =
  handle :: "nat option"
  good :: bool
  app_mode :: bool
  is_binary :: bool
  written_bytes :: int

text \<open>Opening a stream that is open already fails.\<close>

definition Write_open :: "string \<Rightarrow> file_system \<Rightarrow> WriteOp \<Rightarrow> file_system \<times> WriteOp \<times> bool" where
  "Write_open path fs w =
     (if handle w \<noteq> None then (fs, w\<lparr>good := False\<rparr>, False)
      else case fs_open (app_mode w) path fs of
        (fs', Some f) \<Rightarrow> (fs', w\<lparr>handle := Some f, good := True\<rparr>, True)
      | (fs', None) \<Rightarrow> (fs', w\<lparr>good := False\<rparr>, False))"

definition Write_new :: "string \<Rightarrow> bool \<Rightarrow> bool \<Rightarrow> file_system \<Rightarrow> file_system \<times> WriteOp" where
  "Write_new path binary app fs =
     (let (fs', w, ok) = Write_open path fs
        \<lparr>handle = None, good = True, app_mode = app, is_binary = binary, written_bytes = 0\<rparr>
      in (fs', w))"

text \<open>Output on the stream: without a file it fails and marks the stream.\<close>

definition put :: "string \<Rightarrow> file_system \<times> WriteOp \<Rightarrow> file_system \<times> WriteOp" where
  "put s = (\<lambda>(fs, w).
     if \<not> good w then (fs, w)
     else case handle w of Some f \<Rightarrow> (fs_append f s fs, w) | None \<Rightarrow> (fs, w\<lparr>good := False\<rparr>))"

definition count_bytes :: "int \<Rightarrow> file_system \<times> WriteOp \<Rightarrow> file_system \<times> WriteOp" where
  "count_bytes n = (\<lambda>(fs, w). (fs, w\<lparr>written_bytes := written_bytes w + n\<rparr>))"

text \<open>
  \<open>write(msg, length, endln)\<close>. A message is the memory at \<open>msg\<close>, a NUL following it; a positive
  length takes that many characters of it, a negative one the characters before the first NUL.
\<close>

definition Write_write ::
  "string option \<Rightarrow> int \<Rightarrow> bool \<Rightarrow> file_system \<times> WriteOp \<Rightarrow> ((file_system \<times> WriteOp) \<times> bool) cxx" where
  "Write_write msg len endln = (\<lambda>(fs, w).
     case msg of
       None \<Rightarrow> Inr ((fs, w), True)
     | Some m \<Rightarrow>
         if len = 0 then Inr ((fs, w), True)
         else if is_binary w then Inr ((fs, w), False)
         else if good w then
           cxx_bind
             (if len > 0 then
                if nat len \<le> length m + 1
                then Inr (count_bytes len (put (take (nat len) (m @ [NUL])) (fs, w)))
                else Inl Undefined_Behaviour
              else Inr (count_bytes (int (length (c_str m))) (put (c_str m) (fs, w))))
             (\<lambda>s. Inr (if endln then count_bytes 1 (put [newline] s) else s, True))
         else Inr ((fs, w), False))"

definition Write_write_line ::
  "string option \<Rightarrow> int \<Rightarrow> file_system \<times> WriteOp \<Rightarrow> ((file_system \<times> WriteOp) \<times> bool) cxx" where
  "Write_write_line msg len = (\<lambda>(fs, w).
     if msg = None \<or> len = 0 then Inr ((fs, w), True)
     else if is_binary w then Inr ((fs, w), False)
     else Write_write msg len True (fs, w))"

definition Write_write_binary ::
  "string \<Rightarrow> file_system \<times> WriteOp \<Rightarrow> (file_system \<times> WriteOp) \<times> bool" where
  "Write_write_binary content = (\<lambda>(fs, w).
     if \<not> is_binary w then ((fs, w), False)
     else (count_bytes (int (length content)) (put content (fs, w)), True))"

definition Write_is_open :: "WriteOp \<Rightarrow> bool" where
  "Write_is_open w \<longleftrightarrow> handle w \<noteq> None"

text \<open>Closing a stream that is not open marks it as failed.\<close>

definition Write_close :: "WriteOp \<Rightarrow> WriteOp" where
  "Write_close w = (if handle w = None then w\<lparr>good := False\<rparr> else w\<lparr>handle := None\<rparr>)"

section \<open>Reading\<close>

text \<open>The characters still to be read, or \<open>None\<close> when the file could not be opened.\<close>

record Read =
  input :: "string option"
  rgood :: bool
  r_is_binary :: bool

definition Read_open :: "string \<Rightarrow> bool \<Rightarrow> file_system \<Rightarrow> Read \<Rightarrow> Read \<times> bool" where
  "Read_open path binary fs r =
     (let r = r\<lparr>r_is_binary := binary\<rparr> in
      if input r \<noteq> None then (r\<lparr>rgood := False\<rparr>, False)
      else case file_content fs path of
        Some s \<Rightarrow> (r\<lparr>input := Some s, rgood := True\<rparr>, True)
      | None \<Rightarrow> (r\<lparr>rgood := False\<rparr>, False))"

definition Read_new :: "string \<Rightarrow> bool \<Rightarrow> file_system \<Rightarrow> Read" where
  "Read_new path binary fs =
     fst (Read_open path binary fs \<lparr>input = None, rgood = True, r_is_binary = binary\<rparr>)"

text \<open>
  \<open>get_line\<close>: \<open>std::getline\<close> clears the line, and reaching the end of the input without a
  newline sets the stream's end-of-file state.
\<close>

definition get_line :: "Read \<Rightarrow> (Read \<times> string) option" where
  "get_line r =
     (if \<not> rgood r then None
      else case input r of
        None \<Rightarrow> None
      | Some s \<Rightarrow> (case getline newline s of
           None \<Rightarrow> None
         | Some (line, rest) \<Rightarrow> Some (r\<lparr>input := Some rest, rgood := newline \<in> set s\<rparr>, line)))"

text \<open>Closing a stream that is not open marks it as failed.\<close>

definition Read_close :: "Read \<Rightarrow> Read" where
  "Read_close r = (if input r = None then r\<lparr>rgood := False\<rparr> else r\<lparr>input := None\<rparr>)"

definition Read_is_open :: "Read \<Rightarrow> bool" where
  "Read_is_open r \<longleftrightarrow> input r \<noteq> None"

fun read_lines :: "nat \<Rightarrow> Read \<Rightarrow> string list" where
  "read_lines 0 r = []"
| "read_lines (Suc n) r = (case get_line r of None \<Rightarrow> [] | Some (r', l) \<Rightarrow> l # read_lines n r')"

section \<open>Memory-mapped files\<close>

record MMap =
  store :: "string option"
  map_size :: nat

definition MMap_new :: MMap where
  "MMap_new = \<lparr>store = None, map_size = 0\<rparr>"

text \<open>
  \<open>::err\<close> ends the process, so the \<open>return false\<close> after it is never reached. Mapping a directory or
  zero bytes fails, and so does unmapping zero bytes.
\<close>

definition MMap_load :: "string option \<Rightarrow> file_system \<Rightarrow> MMap \<Rightarrow> (MMap \<times> bool) cxx" where
  "MMap_load path fs m =
     (case path of
        None \<Rightarrow> Inl (Process_Exit ''path is empty'')
      | Some p \<Rightarrow>
          if c_str p = [] then Inl (Process_Exit ''path is empty'')
          else if dirs fs (c_str p) then Inl (Process_Exit (''MMap map failed. file: '' @ c_str p))
          else case file_content fs (c_str p) of
            None \<Rightarrow> Inl (Process_Exit (''MMap open failed. file: '' @ c_str p))
          | Some s \<Rightarrow>
              if s = [] then Inl (Process_Exit (''MMap map failed. file: '' @ c_str p))
              else Inr (m\<lparr>store := Some s, map_size := length s\<rparr>, True))"

definition MMap_close :: "MMap \<Rightarrow> MMap cxx" where
  "MMap_close m =
     (if map_size m = 0 then Inl (Process_Exit ''MMap munmap failed.'')
      else Inr (m\<lparr>store := None, map_size := 0\<rparr>))"

text \<open>
  \<open>TextContent\<close> reads up to a NUL. The rest of the last page of a mapping is zero, so there is one
  unless the file fills its pages.
\<close>

definition page_size :: nat where "page_size = 4096"

definition TextContent :: "MMap \<Rightarrow> string cxx" where
  "TextContent m = (case store m of
     None \<Rightarrow> Inl Undefined_Behaviour
   | Some s \<Rightarrow> if NUL \<in> set s \<or> map_size m mod page_size \<noteq> 0 then Inr (c_str s)
               else Inl Undefined_Behaviour)"

definition TextContent_path :: "string \<Rightarrow> file_system \<Rightarrow> MMap \<Rightarrow> (MMap \<times> string) cxx" where
  "TextContent_path path fs m =
     cxx_bind (MMap_load (Some path) fs m) (\<lambda>(m', ok). cxx_bind (TextContent m') (\<lambda>s. Inr (m', s)))"

section \<open>Directories\<close>

text \<open>The result of the system call is a parameter; \<open>return -1\<close> from a \<open>bool\<close> function is true.\<close>

definition access_dir :: "(string \<Rightarrow> int) \<Rightarrow> string option \<Rightarrow> bool" where
  "access_dir access path = (case path of None \<Rightarrow> (-1 :: int) \<noteq> 0 | Some p \<Rightarrow> access p = 0)"

definition mk_dir :: "(string \<Rightarrow> int) \<Rightarrow> string option \<Rightarrow> bool" where
  "mk_dir mkdir path = (case path of None \<Rightarrow> (-1 :: int) \<noteq> 0 | Some p \<Rightarrow> mkdir p = 0)"

definition rm_dir :: "(string \<Rightarrow> int) \<Rightarrow> string option \<Rightarrow> bool" where
  "rm_dir rmdir path = (case path of None \<Rightarrow> (-1 :: int) \<noteq> 0 | Some p \<Rightarrow> rmdir p = 0)"

section \<open>What writing does to the file\<close>

text \<open>A text stream in working order on file \<open>f\<close>.\<close>

definition writes_to :: "nat \<Rightarrow> WriteOp \<Rightarrow> bool" where
  "writes_to f w \<longleftrightarrow> handle w = Some f \<and> good w \<and> \<not> is_binary w"

lemma put_good: "writes_to f w \<Longrightarrow> put s (fs, w) = (fs_append f s fs, w)"
  by (simp add: put_def writes_to_def)

lemma fs_append_append [simp]: "fs_append f t (fs_append f s fs) = fs_append f (s @ t) fs"
  by (simp add: fs_append_def)

lemma file_content_append:
  "names fs path = Some f \<Longrightarrow> file_content (fs_append f s fs) path = Some (data fs f @ s)"
  by (simp add: file_content_def fs_append_def)

lemma names_append [simp]: "names (fs_append f s fs) = names fs"
  by (simp add: fs_append_def)

lemma data_append [simp]: "data (fs_append f s fs) f = data fs f @ s"
  "g \<noteq> f \<Longrightarrow> data (fs_append f s fs) g = data fs g"
  by (simp_all add: fs_append_def)

lemma Write_write_bytes:
  assumes "writes_to f w" "0 < len" "nat len \<le> length m + 1"
  shows "Write_write (Some m) len endln (fs, w) =
    Inr ((fs_append f (take (nat len) (m @ [NUL]) @ (if endln then [newline] else [])) fs,
          w\<lparr>written_bytes := written_bytes w + len + (if endln then 1 else 0)\<rparr>), True)"
proof -
  have "writes_to f (w\<lparr>written_bytes := written_bytes w + len\<rparr>)" using assms(1) by (simp add: writes_to_def)
  with assms show ?thesis
    by (simp add: Write_write_def put_good count_bytes_def) (simp add: writes_to_def)
qed

lemma Write_write_string:
  assumes "writes_to f w" "len < 0"
  shows "Write_write (Some m) len endln (fs, w) =
    Inr ((fs_append f (c_str m @ (if endln then [newline] else [])) fs,
          w\<lparr>written_bytes := written_bytes w + int (length (c_str m)) + (if endln then 1 else 0)\<rparr>), True)"
proof -
  have "writes_to f (w\<lparr>written_bytes := written_bytes w + int (length (c_str m))\<rparr>)"
    using assms(1) by (simp add: writes_to_def)
  with assms show ?thesis
    by (simp add: Write_write_def put_good count_bytes_def) (simp add: writes_to_def)
qed

lemma Write_write_line_string:
  assumes "writes_to f w" "NUL \<notin> set l"
  shows "Write_write_line (Some l) (- 1) (fs, w) =
    Inr ((fs_append f (l @ [newline]) fs,
          w\<lparr>written_bytes := written_bytes w + int (length (l @ [newline]))\<rparr>), True)"
  using Write_write_string [OF assms(1), of "-1" l True fs] assms
  by (simp add: Write_write_line_def c_str_id writes_to_def ac_simps)

fun write_lines :: "string list \<Rightarrow> file_system \<times> WriteOp \<Rightarrow> (file_system \<times> WriteOp) cxx" where
  "write_lines [] s = Inr s"
| "write_lines (l # ls) s =
     cxx_bind (Write_write_line (Some l) (- 1) s) (\<lambda>(s', ok). write_lines ls s')"

lemma write_lines_result:
  "writes_to f w \<Longrightarrow> \<forall>l \<in> set ls. NUL \<notin> set l \<Longrightarrow>
    write_lines ls (fs, w) = Inr (fs_append f (concat (map (\<lambda>l. l @ [newline]) ls)) fs,
      w\<lparr>written_bytes := written_bytes w + int (length (concat (map (\<lambda>l. l @ [newline]) ls)))\<rparr>)"
proof (induction ls arbitrary: fs w)
  case Nil
  then show ?case by (simp add: fs_append_def)
next
  case (Cons l ls)
  have "writes_to f (w\<lparr>written_bytes := written_bytes w + int (length (l @ [newline]))\<rparr>)"
    using Cons.prems(1) by (simp add: writes_to_def)
  from Cons.IH [OF this] Cons.prems Write_write_line_string [OF Cons.prems(1), of l fs]
  show ?case by (simp add: ac_simps)
qed

lemma read_lines_result:
  "\<forall>l \<in> set ls. newline \<notin> set l \<Longrightarrow> length ls < n \<Longrightarrow> rgood r \<Longrightarrow>
    input r = Some (concat (map (\<lambda>l. l @ [newline]) ls)) \<Longrightarrow> read_lines n r = ls"
proof (induction ls arbitrary: r n)
  case Nil
  then show ?case by (cases n) (simp_all add: get_line_def getline_def)
next
  case (Cons l ls)
  then obtain k where k: "n = Suc k" by (cases n) auto
  with Cons getline_piece [of newline l "concat (map (\<lambda>l. l @ [newline]) ls)"] show ?case
    by (simp add: get_line_def)
qed

text \<open>
  C29. Lines without newlines and NULs that are written to a fresh file with \<open>write_line\<close> are read
  back unchanged, in order and no more, by \<open>Read::get_line\<close>, and \<open>written_bytes\<close> is the size of
  the file.
\<close>

theorem write_read_lines:
  assumes "creatable fs path" and "\<forall>l \<in> set ls. NUL \<notin> set l \<and> newline \<notin> set l"
    and "length ls < n"
  shows "\<exists>fs' w. write_lines ls (Write_new path False False fs) = Inr (fs', w)
    \<and> read_lines n (Read_new path False fs') = ls
    \<and> (\<exists>s. file_content fs' path = Some s \<and> written_bytes w = int (length s))"
proof -
  let ?text = "concat (map (\<lambda>l. l @ [newline]) ls)"
  obtain fs1 f w where w: "Write_new path False False fs = (fs1, w)" "writes_to f w"
      "written_bytes w = 0" "names fs1 path = Some f" "data fs1 f = []"
    using assms(1)
    by (cases "names fs path") (auto simp: Write_new_def Write_open_def fs_open_def writes_to_def)
  from write_lines_result [OF w(2), of ls fs1] assms(2) w(1)
  have "write_lines ls (Write_new path False False fs) =
      Inr (fs_append f ?text fs1, w\<lparr>written_bytes := int (length ?text)\<rparr>)"
    by (simp add: w(3))
  moreover have c: "file_content (fs_append f ?text fs1) path = Some ?text"
    using file_content_append [OF w(4)] w(5) by simp
  moreover have "read_lines n (Read_new path False (fs_append f ?text fs1)) = ls"
    using read_lines_result [of ls n] assms(2,3) c by (simp add: Read_new_def Read_open_def)
  ultimately show ?thesis by auto
qed

lemma write_read_lines_witness:
  "let fs = \<lparr>names = Map.empty, data = (\<lambda>_. ''''), next_file = 0, links = Map.empty,
             creatable = (\<lambda>_. True), dirs = (\<lambda>_. False), dir_creatable = (\<lambda>_. True)\<rparr>
   in \<exists>fs' w. write_lines [''ab'', '''', ''c''] (Write_new ''f'' False False fs) = Inr (fs', w)
        \<and> read_lines 9 (Read_new ''f'' False fs') = [''ab'', '''', ''c'']"
  unfolding Let_def
  using write_read_lines [of "\<lparr>names = Map.empty, data = (\<lambda>_. ''''), next_file = 0, links = Map.empty,
      creatable = (\<lambda>_. True), dirs = (\<lambda>_. False), dir_creatable = (\<lambda>_. True)\<rparr>" "''f''" "[''ab'', '''', ''c'']" 9] by auto

text \<open>
  An \<open>MMap\<close> can be destroyed only while it maps a file: \<open>close\<close>, which the destructor calls,
  ends the process on an object that never loaded a file, and on one that was closed before.
\<close>

lemma MMap_close_needs_mapping:
  "MMap_close MMap_new = Inl (Process_Exit ''MMap munmap failed.'')
   \<and> cxx_bind (MMap_close m) MMap_close = Inl (Process_Exit ''MMap munmap failed.'')
   \<and> (MMap_load path fs MMap_new = Inr (m', ok) \<longrightarrow> MMap_close m' = Inr MMap_new)"
  by (auto simp: MMap_close_def MMap_new_def MMap_load_def Let_def split: option.splits if_splits)

lemma MMap_close_needs_mapping_witness:
  "let fs = \<lparr>names = [''f'' \<mapsto> 0], data = (\<lambda>_. ''text''), next_file = 1, links = Map.empty,
             creatable = (\<lambda>_. True), dirs = (\<lambda>_. False), dir_creatable = (\<lambda>_. True)\<rparr>
   in \<exists>m'. MMap_load (Some ''f'') fs MMap_new = Inr (m', True) \<and> MMap_close m' = Inr MMap_new"
  unfolding Let_def
  using MMap_close_needs_mapping [of MMap_new "Some ''f''" "\<lparr>names = [''f'' \<mapsto> 0], data = (\<lambda>_. ''text''),
      next_file = 1, links = Map.empty, creatable = (\<lambda>_. True), dirs = (\<lambda>_. False), dir_creatable = (\<lambda>_. True)\<rparr>" _ True]
  by (simp add: MMap_load_def file_content_def c_str_def)

end
