(* ===== verification/Protobuf_Op.thy ===== *)
theory Protobuf_Op
  imports File_IO
begin

text \<open>
  The wrappers of base/protobuf_op.h around the protobuf library. The library is not part of the
  repository: the functions of the message type are arguments, \<open>parse_text\<close> and \<open>parse\<close> for
  \<open>TextFormat::Parse\<close> and \<open>ParseFromString\<close>/\<open>ParseFromIstream\<close> (\<open>None\<close> on failure), \<open>serialize\<close> for
  \<open>SerializeToString\<close>/\<open>SerializeToOstream\<close>, where the failed form may leave anything in the string. A result is the return code with the object afterwards;
  an object that could not be parsed keeps the value \<open>partial\<close> gives. The log messages are not
  modelled.
\<close>

definition LoadObjectFromPbFile ::
  "(string \<Rightarrow> 'm option) \<Rightarrow> ('m \<Rightarrow> 'm) \<Rightarrow> string option \<Rightarrow> file_system \<Rightarrow> 'm \<Rightarrow> int \<times> 'm" where
  "LoadObjectFromPbFile parse_text partial file_name fs obj =
     (case file_name of
        None \<Rightarrow> (-1, obj)
      | Some f \<Rightarrow> (case file_content fs f of
          None \<Rightarrow> (-1, obj)
        | Some s \<Rightarrow> (case parse_text s of None \<Rightarrow> (-1, partial obj) | Some m \<Rightarrow> (0, m))))"

definition ParsePbFromString ::
  "(string \<Rightarrow> 'm option) \<Rightarrow> ('m \<Rightarrow> 'm) \<Rightarrow> string \<Rightarrow> 'm option \<Rightarrow> int \<times> 'm option" where
  "ParsePbFromString parse_text partial buffer obj =
     (case obj of
        None \<Rightarrow> (-1, None)
      | Some m \<Rightarrow> (case parse_text buffer of None \<Rightarrow> (-1, Some (partial m)) | Some m' \<Rightarrow> (0, Some m')))"

definition SerializeToString ::
  "('m \<Rightarrow> string \<Rightarrow> bool \<times> string) \<Rightarrow> 'm option \<Rightarrow> string \<Rightarrow> int \<times> string" where
  "SerializeToString serialize_to obj out =
     (case obj of
        None \<Rightarrow> (-1, out)
      | Some m \<Rightarrow> (let (ok, out) = serialize_to m out in if \<not> ok then (-1, out) else (0, out)))"

definition ParseFromString ::
  "(string \<Rightarrow> 'm option) \<Rightarrow> ('m \<Rightarrow> 'm) \<Rightarrow> string \<Rightarrow> 'm option \<Rightarrow> int \<times> 'm option" where
  "ParseFromString parse partial buffer obj =
     (case obj of
        None \<Rightarrow> (-1, None)
      | Some m \<Rightarrow> (case parse buffer of None \<Rightarrow> (-1, Some (partial m)) | Some m' \<Rightarrow> (0, Some m')))"

text \<open>
  The stream is opened with truncation. Serializing to a stream that did not open fails; the test
  of the result is the code's.
\<close>

definition SerializeToOstream ::
  "('m \<Rightarrow> string option) \<Rightarrow> string \<Rightarrow> 'm option \<Rightarrow> file_system \<Rightarrow> file_system \<times> int" where
  "SerializeToOstream serialize file_path obj fs =
     (case obj of
        None \<Rightarrow> (fs, -1)
      | Some m \<Rightarrow>
          let (fs, f) = fs_open False file_path fs;
              (fs, result) = (case (f, serialize m) of
                (Some f, Some s) \<Rightarrow> (fs_append f s fs, True) | _ \<Rightarrow> (fs, False))
          in if result then (fs, -1) else (fs, 0))"

definition ParseFromIstream ::
  "(string \<Rightarrow> 'm option) \<Rightarrow> ('m \<Rightarrow> 'm) \<Rightarrow> string \<Rightarrow> 'm option \<Rightarrow> file_system \<Rightarrow> int \<times> 'm option" where
  "ParseFromIstream parse partial file_path obj fs =
     (case obj of
        None \<Rightarrow> (-1, None)
      | Some m \<Rightarrow>
          let parsed = (case file_content fs file_path of None \<Rightarrow> None | Some s \<Rightarrow> parse s) in
          (case parsed of None \<Rightarrow> (-1, Some (partial m)) | Some m' \<Rightarrow> (0, Some m')))"

text \<open>
  Storing a message with \<open>SerializeToOstream\<close> and loading it with \<open>ParseFromIstream\<close> gives the
  message back, provided the library's parser inverts its serializer. But the return code of
  the first function is inverted: it is -1 exactly when the message was stored, and 0 when nothing
  was.
\<close>

lemma protobuf_file_roundtrip:
  assumes library: "\<And>m s. serialize m = Some s \<Longrightarrow> parse s = Some m"
    and "creatable fs path" and "serialize m = Some s"
  shows "\<exists>fs'. SerializeToOstream serialize path (Some m) fs = (fs', -1)
    \<and> file_content fs' path = Some s
    \<and> ParseFromIstream parse partial path (Some m0) fs' = (0, Some m)
    \<and> snd (SerializeToOstream (\<lambda>_. None) path (Some m) fs) = 0"
proof -
  have "parse s = Some m" by (rule library [OF assms(3)])
  then show ?thesis
    using assms(2,3)
    by (cases "names fs path")
      (simp_all add: SerializeToOstream_def ParseFromIstream_def fs_open_def file_content_def
        fs_append_def)
qed

lemma protobuf_file_roundtrip_witness:
  "let fs = \<lparr>names = Map.empty, data = (\<lambda>_. ''''), next_file = 0, links = Map.empty,
             creatable = (\<lambda>_. True), dirs = (\<lambda>_. False), dir_creatable = (\<lambda>_. True)\<rparr>;
       fs' = fst (SerializeToOstream Some ''f'' (Some ''msg'') fs)
   in ParseFromIstream Some (\<lambda>m. m) ''f'' (Some []) fs' = (0, Some ''msg'')
      \<and> snd (SerializeToOstream Some ''f'' (Some ''msg'') fs) = -1"
  using protobuf_file_roundtrip [of Some Some "\<lparr>names = Map.empty, data = (\<lambda>_. ''''), next_file = 0,
      links = Map.empty, creatable = (\<lambda>_. True), dirs = (\<lambda>_. False), dir_creatable = (\<lambda>_. True)\<rparr>" "''f''" "''msg''" "''msg''" "\<lambda>m. m" "[]"]
  by (auto simp: Let_def)

end
