(* ===== verification/Log_Internal.thy ===== *)
theory Log_Internal
  imports File_IO System_Info
begin

text \<open>
  The namespace \<open>internal\<close> of base/logging.cc repeats two classes of the library, so that logging
  does not depend on the rest: \<open>WriteOp\<close> (\<open>Write\<close> of base/write_op.cc) and \<open>SystemInfo\<close>
  (base/system_info.h). The copies are modelled from their own text and shown to behave as the
  originals; the log files use the copies.
\<close>

section \<open>internal::WriteOp\<close>

definition WriteOp_open :: "string \<Rightarrow> file_system \<times> WriteOp \<Rightarrow> (file_system \<times> WriteOp) \<times> bool" where
  "WriteOp_open path = (\<lambda>(fs, w).
     let (fs, w) = (if handle w \<noteq> None then (fs, w\<lparr>good := False\<rparr>)
       else case fs_open (app_mode w) path fs of
         (fs, None) \<Rightarrow> (fs, w\<lparr>good := False\<rparr>)
       | (fs, Some f) \<Rightarrow> (fs, w\<lparr>handle := Some f, good := True\<rparr>))
     in ((fs, w), handle w \<noteq> None \<and> good w))"

definition WriteOp_new :: "string \<Rightarrow> bool \<Rightarrow> bool \<Rightarrow> file_system \<Rightarrow> file_system \<times> WriteOp" where
  "WriteOp_new path binary app fs =
     fst (WriteOp_open path
       (fs, \<lparr>handle = None, good = True, app_mode = app, is_binary = binary, written_bytes = 0\<rparr>))"

definition WriteOp_write ::
  "string option \<Rightarrow> int \<Rightarrow> bool \<Rightarrow> file_system \<times> WriteOp \<Rightarrow> ((file_system \<times> WriteOp) \<times> bool) cxx" where
  "WriteOp_write msg length_arg endln s =
     (if msg = None \<or> length_arg = 0 then Inr (s, True)
      else if is_binary (snd s) then Inr (s, False)
      else if \<not> good (snd s) then Inr (s, False)
      else let m = the msg in
        if length_arg > int (length m) + 1 then Inl Undefined_Behaviour
        else let bytes = (if length_arg > 0 then take (nat length_arg) (m @ [NUL]) else c_str m);
                 s = count_bytes (int (length bytes)) (put bytes s)
             in Inr (if endln then count_bytes 1 (put [newline] s) else s, True))"

definition WriteOp_write_line ::
  "string option \<Rightarrow> int \<Rightarrow> file_system \<times> WriteOp \<Rightarrow> ((file_system \<times> WriteOp) \<times> bool) cxx" where
  "WriteOp_write_line msg length_arg s =
     (if msg = None \<or> length_arg = 0 then Inr (s, True)
      else if is_binary (snd s) then Inr (s, False)
      else WriteOp_write msg length_arg True s)"

definition WriteOp_write_binary ::
  "string \<Rightarrow> file_system \<times> WriteOp \<Rightarrow> (file_system \<times> WriteOp) \<times> bool" where
  "WriteOp_write_binary content s =
     (if is_binary (snd s) then (count_bytes (int (length content)) (put content s), True) else (s, False))"

lemma WriteOp_open_same:
  "WriteOp_open path (fs, w) = (let (fs', w', ok) = Write_open path fs w in ((fs', w'), ok))"
  by (auto simp: WriteOp_open_def Write_open_def split: option.split prod.split)

text \<open>The copy of \<open>WriteOp\<close> behaves as the original.\<close>

lemma WriteOp_same:
  "WriteOp_new = Write_new"
  "WriteOp_write = Write_write"
  "WriteOp_write_line = Write_write_line"
  "WriteOp_write_binary = Write_write_binary"
proof -
  show "WriteOp_new = Write_new"
    by (auto simp: fun_eq_iff WriteOp_new_def Write_new_def WriteOp_open_same split: prod.split)
  show w: "WriteOp_write = Write_write"
  proof (intro ext)
    fix msg n endln and s :: "file_system \<times> WriteOp"
    obtain fs w where s: "s = (fs, w)" by (cases s)
    show "WriteOp_write msg n endln s = Write_write msg n endln s"
    proof (cases msg)
      case (Some m)
      have "nat n \<le> length m + 1 \<longleftrightarrow> n \<le> int (length m) + 1" by linarith
      moreover have "int (length (take (nat n) (m @ [NUL]))) = n" if "0 < n" "n \<le> int (length m) + 1"
        using that by simp
      ultimately show ?thesis
        using Some s by (auto simp: WriteOp_write_def Write_write_def Let_def)
    qed (simp add: s WriteOp_write_def Write_write_def)
  qed
  show "WriteOp_write_line = Write_write_line"
    by (auto simp: fun_eq_iff WriteOp_write_line_def Write_write_line_def w)
  show "WriteOp_write_binary = Write_write_binary"
    by (auto simp: fun_eq_iff WriteOp_write_binary_def Write_write_binary_def)
qed

section \<open>internal::SystemInfo\<close>

definition internal_OsName :: "string \<Rightarrow> string \<Rightarrow> string cxx" where
  "internal_OsName uname garbage =
     (let n = min (length uname) 100;
          res = take n uname @ take (100 - n) (drop n garbage)
      in if list_all (\<lambda>c. c \<noteq> NUL) res then Inl Undefined_Behaviour
         else let os_name = c_str res in
           if os_name = [] then Inl Undefined_Behaviour else Inr (butlast os_name))"

definition internal_Hostname :: "string option \<Rightarrow> string \<Rightarrow> SystemInfo \<Rightarrow> SystemInfo \<times> string" where
  "internal_Hostname res garbage s =
     (if host_name s \<noteq> [] then (s, host_name s)
      else let name = (case res of None \<Rightarrow> c_str (take 127 garbage @ [NUL]) | Some h \<Rightarrow> c_str h)
           in (s\<lparr>host_name := name\<rparr>, name))"

definition internal_GetTID :: "platform \<Rightarrow> thread_calls \<Rightarrow> bool \<Rightarrow> bool \<times> nat" where
  "internal_GetTID os call lacks_gettid =
     (let otherwise = (if OS_LINUX os then to_uint64 (getpid call)
            else if OS_WINDOWS os \<and> \<not> OS_CYGWIN os then GetCurrentThreadId call
            else pthread_self call)
      in if (OS_LINUX os \<or> OS_MACOSX os) \<and> \<not> lacks_gettid
         then if sys_gettid call \<noteq> -1 then (lacks_gettid, to_uint64 (sys_gettid call)) else (True, otherwise)
         else (lacks_gettid, otherwise))"

lemma SystemInfo_same:
  "internal_OsName = OsName"
  "internal_Hostname = Hostname"
  "internal_GetTID = GetTID"
proof -
  show "internal_OsName = OsName"
  proof (intro ext)
    fix uname garbage :: string
    have "take 100 (take 100 uname @ drop (length (take 100 uname)) garbage) =
        take (min (length uname) 100) uname @ take (100 - min (length uname) 100) (drop (min (length uname) 100) garbage)"
      by (simp add: min_def)
    then show "internal_OsName uname garbage = OsName uname garbage"
      unfolding internal_OsName_def OsName_def Let_def list_all_iff by (auto simp del: take_append)
  qed
  show "internal_Hostname = Hostname"
    by (auto simp: fun_eq_iff internal_Hostname_def Hostname_def gethostname_result_def Let_def split: option.split)
  show "internal_GetTID = GetTID"
    by (auto simp: fun_eq_iff internal_GetTID_def GetTID_def Let_def)
qed

end
