(* ===== verification/Log_Severity.thy ===== *)
theory Log_Severity
  imports Prelude
begin

text \<open>
  The severities of base/logging.h and their log files: a log file exists for INFO, WARN and ERROR,
  and a message goes to the file of its class and to those of the lower classes.
\<close>

datatype LogSeverity = TRACE | DEBUG | INFO | WARN | ERROR | FATAL

definition LOG_FILE_SEVERITIES :: nat where
  "LOG_FILE_SEVERITIES = 3"

fun severity_num :: "LogSeverity \<Rightarrow> nat" where
  "severity_num TRACE = 0" | "severity_num DEBUG = 1" | "severity_num INFO = 2"
| "severity_num WARN = 3" | "severity_num ERROR = 4" | "severity_num FATAL = 5"

instantiation LogSeverity :: linorder
begin

definition less_eq_LogSeverity :: "LogSeverity \<Rightarrow> LogSeverity \<Rightarrow> bool" where
  "less_eq_LogSeverity a b \<longleftrightarrow> severity_num a \<le> severity_num b"

definition less_LogSeverity :: "LogSeverity \<Rightarrow> LogSeverity \<Rightarrow> bool" where
  "less_LogSeverity a b \<longleftrightarrow> severity_num a < severity_num b"

lemma severity_num_inject: "severity_num a = severity_num b \<Longrightarrow> a = b"
  by (cases a; cases b) simp_all

instance
  by intro_classes (auto simp: less_eq_LogSeverity_def less_LogSeverity_def intro: severity_num_inject)

end

definition log_severity_names :: "string list" where
  "log_severity_names = [''TRACE'', ''DEBUG'', ''INFO'', ''WARN'', ''ERROR'', ''FATAL'']"

definition severity_tags :: string where
  "severity_tags = ''TDIWEF''"

definition g_log_file_severity_names :: "string list" where
  "g_log_file_severity_names = [''INFO'', ''WARN'', ''ERROR'']"

definition GetLogFileSeverityIndex :: "LogSeverity \<Rightarrow> nat" where
  "GetLogFileSeverityIndex severity =
     (if severity \<le> INFO then 0 else if severity \<le> WARN then 1 else 2)"

definition GetLogSeverityType :: "string \<Rightarrow> LogSeverity" where
  "GetLogSeverityType log_severity_name =
     (if log_severity_name = ''TRACE'' \<or> log_severity_name = ''DEBUG'' \<or> log_severity_name = ''INFO''
      then INFO
      else if log_severity_name = ''WARN'' then WARN
      else ERROR)"

lemma severity_index_simps [simp]:
  "GetLogFileSeverityIndex TRACE = 0" "GetLogFileSeverityIndex DEBUG = 0"
  "GetLogFileSeverityIndex INFO = 0" "GetLogFileSeverityIndex WARN = 1"
  "GetLogFileSeverityIndex ERROR = 2" "GetLogFileSeverityIndex FATAL = 2"
  by (simp_all add: GetLogFileSeverityIndex_def less_eq_LogSeverity_def)

lemma severity_index_less: "GetLogFileSeverityIndex s < LOG_FILE_SEVERITIES"
  by (cases s) (simp_all add: LOG_FILE_SEVERITIES_def)

text \<open>The severity a log file's name stands for is filed under the file itself.\<close>

lemma file_severity_index:
  assumes "i < LOG_FILE_SEVERITIES"
  shows "GetLogFileSeverityIndex (GetLogSeverityType (g_log_file_severity_names ! i)) = i"
proof -
  from assms consider "i = 0" | "i = 1" | "i = 2" by (force simp: LOG_FILE_SEVERITIES_def)
  then show ?thesis
    by cases (simp_all add: g_log_file_severity_names_def GetLogSeverityType_def)
qed

end
