(* ===== verification/Log_File.thy ===== *)
theory Log_File
  imports Log_Internal Calendar
begin

text \<open>
  The log files of base/logging.cc: \<open>internal::LogFile\<close> writes to a text file in append mode and
  rolls over to a new one, whose name holds the time, when the old one is too large, was deleted or
  belongs to another day. What an operation reads from outside (the clock, the date
  \<open>HumanDate\<close> computes from it, the second in the thread's own \<open>g_date\<close>, the host's name, whether the implementation unwinds the stack before it
  terminates the program) is an argument; the clock does not advance within an operation.
\<close>

record env =
  now :: int
  date :: DateInfo
  tls_second :: int
  hostname :: string
  unwinds_stack :: bool

record LogFile =
  base_filename :: string
  bin_name :: string
  roll_size :: int
  thread_safe :: bool
  log_severity :: string
  start_of_period :: int
  last_roll :: int
  last_flush :: int
  symlink_name :: string
  current_filename :: string
  cur_log_fullname :: string
  first_link :: bool
  flush_interval :: int
  check_every_n :: int
  count :: int
  cur_file :: "WriteOp option"

definition roll_per_seconds :: int where
  "roll_per_seconds = 60 * 60 * 24"

section \<open>Names and header\<close>

definition log_name :: "env \<Rightarrow> string \<Rightarrow> string \<Rightarrow> string" where
  "log_name e bin sev =
     bin @ ''.'' @ hostname e @ ''.log.'' @ sev @
     snprintf 20 (''.'' @ fmt0 4 (year (date e)) @ fmt0 2 (month (date e)) @ fmt0 2 (day (date e)) @ ''-'' @
       fmt0 2 (hour (date e)) @ fmt0 2 (minute (date e)) @ fmt0 2 (second (date e)))"

definition PrettyLogFileName :: "env \<Rightarrow> LogFile \<Rightarrow> string" where
  "PrettyLogFileName e lf = log_name e (bin_name lf) (log_severity lf)"

definition header_date :: "DateInfo \<Rightarrow> string" where
  "header_date d = snprintf 41 (''Log file created at: '' @ fmt0 4 (year d) @ ''/'' @ fmt0 2 (month d) @
     ''/'' @ fmt0 2 (day d) @ '' '' @ fmt0 2 (hour d) @ '':'' @ fmt0 2 (minute d) @ '':'' @
     fmt0 2 (second d))"

definition machine_label :: string where
  "machine_label = ''Running on machine: ''"

definition format_line :: string where
  "format_line = ''Log line format: [I|W|E|F]mmdd hh:mm:ss.uuuuuu threadid file:line] msg''"

text \<open>The four writes of the header; the first one passes the size of the array, 41.\<close>

definition write_header :: "env \<Rightarrow> file_system \<times> WriteOp \<Rightarrow> (file_system \<times> WriteOp) cxx" where
  "write_header e s =
     cxx_bind (WriteOp_write (Some (header_date (date e))) 41 True s) (\<lambda>(s, _).
     cxx_bind (WriteOp_write (Some machine_label) (int (length machine_label)) False s) (\<lambda>(s, _).
     cxx_bind (WriteOp_write (Some (hostname e)) (to_int32 (int (length (hostname e)))) True s) (\<lambda>(s, _).
     cxx_bind (WriteOp_write (Some format_line) (int (length format_line)) True s) (\<lambda>(s, _). Inr s))))"

lemmas write_header_eq = write_header_def [unfolded WriteOp_same]

text \<open>What they write: the array of the first line ends in a NUL.\<close>

definition log_header :: "env \<Rightarrow> string" where
  "log_header e = header_date (date e) @ [NUL, newline] @ ''Running on machine: '' @ hostname e @ [newline] @
     format_line @ [newline]"

section \<open>Operations\<close>

definition relink :: "string \<Rightarrow> string \<Rightarrow> file_system \<Rightarrow> file_system" where
  "relink path target fs =
     fs\<lparr>names := (names fs)(path := None), links := (links fs)(path \<mapsto> target)\<rparr>"

definition RollFile :: "env \<Rightarrow> file_system \<times> LogFile \<Rightarrow> ((file_system \<times> LogFile) \<times> bool) cxx" where
  "RollFile e = (\<lambda>(fs, lf).
     let cur_log_filename = PrettyLogFileName e lf;
         start = now e sdiv roll_per_seconds * roll_per_seconds
     in if now e > last_roll lf then
          let full = base_filename lf @ ''/'' @ cur_log_filename;
              lf = lf\<lparr>last_roll := now e, last_flush := now e, start_of_period := start,
                      cur_log_fullname := full\<rparr>
          in cxx_bind (write_header e (WriteOp_new full False True fs)) (\<lambda>(fs, w).
             Inr ((relink (base_filename lf @ ''/'' @ symlink_name lf) cur_log_filename fs,
                   lf\<lparr>cur_file := Some w, first_link := False, current_filename := cur_log_filename\<rparr>),
                  True))
        else Inr ((fs, lf), False))"

lemmas RollFile_eq = RollFile_def [unfolded WriteOp_same]

text \<open>
  The directory of a new log file is made if nothing stands at its path. That \<open>mkdir\<close> or \<open>opendir\<close>
  failed is not noticed (the exceptions are constructed but not thrown): then \<open>dirfd\<close> gets the null
  pointer.
\<close>

definition open_directory :: "string \<Rightarrow> file_system \<Rightarrow> file_system cxx" where
  "open_directory base fs =
     (let fs' = (if \<not> fs_exists fs base then fst (fs_mkdir base fs) else fs) in
      if dirs fs' base then Inr fs' else Inl Undefined_Behaviour)"

definition LogFile_new ::
  "env \<Rightarrow> string \<Rightarrow> string \<Rightarrow> int \<Rightarrow> string \<Rightarrow> bool \<Rightarrow> file_system \<Rightarrow> (file_system \<times> LogFile) cxx" where
  "LogFile_new e base bin roll sev safe fs =
     cxx_bind (open_directory base fs) (\<lambda>fs.
     cxx_bind (RollFile e (fs,
       \<lparr>base_filename = base, bin_name = bin, roll_size = roll, thread_safe = safe, log_severity = sev,
        start_of_period = 0, last_roll = 0, last_flush = 0, symlink_name = bin @ ''.'' @ sev,
        current_filename = [], cur_log_fullname = [], first_link = True, flush_interval = 3,
        check_every_n = 1024, count = 0, cur_file = None\<rparr>)) (\<lambda>(s, _). Inr s))"

text \<open>Writing to \<open>file_\<close> when it is null is undefined.\<close>

definition file_write ::
  "string \<Rightarrow> int \<Rightarrow> file_system \<times> LogFile \<Rightarrow> (file_system \<times> LogFile) cxx" where
  "file_write msg n = (\<lambda>(fs, lf). case cur_file lf of
     None \<Rightarrow> Inl Undefined_Behaviour
   | Some w \<Rightarrow> cxx_bind (WriteOp_write (Some msg) n False (fs, w)) (\<lambda>((fs, w), _).
       Inr (fs, lf\<lparr>cur_file := Some w\<rparr>)))"

lemmas file_write_eq = file_write_def [unfolded WriteOp_same]

definition file_bytes :: "LogFile \<Rightarrow> int" where
  "file_bytes lf = (case cur_file lf of None \<Rightarrow> 0 | Some w \<Rightarrow> written_bytes w)"

definition LogFile_Flush :: "LogFile \<Rightarrow> LogFile cxx" where
  "LogFile_Flush lf = (case cur_file lf of None \<Rightarrow> Inl Undefined_Behaviour | Some w \<Rightarrow> Inr lf)"

text \<open>The destructor flushes (and closes the directory).\<close>

definition LogFile_destroy :: "LogFile \<Rightarrow> unit cxx" where
  "LogFile_destroy lf = cxx_bind (LogFile_Flush lf) (\<lambda>_. Inr ())"

text \<open>The counting branch of \<open>WriteUnlocked\<close>.\<close>

definition count_write :: "env \<Rightarrow> file_system \<times> LogFile \<Rightarrow> (file_system \<times> LogFile) cxx" where
  "count_write e = (\<lambda>(fs, lf).
     let lf = lf\<lparr>count := count lf + 1\<rparr> in
     if count lf \<ge> check_every_n lf then
       let lf = lf\<lparr>count := 0\<rparr>;
           this_period = now e sdiv roll_per_seconds * roll_per_seconds
       in if this_period \<noteq> start_of_period lf then cxx_bind (RollFile e (fs, lf)) (\<lambda>(s, _). Inr s)
          else if now e - last_flush lf > flush_interval lf then
            cxx_bind (LogFile_Flush (lf\<lparr>last_flush := now e\<rparr>)) (\<lambda>lf. Inr (fs, lf))
          else Inr (fs, lf)
     else Inr (fs, lf))"

definition WriteUnlocked ::
  "env \<Rightarrow> string \<Rightarrow> file_system \<times> LogFile \<Rightarrow> (file_system \<times> LogFile) cxx" where
  "WriteUnlocked e msg s =
     cxx_bind (file_write msg (to_int32 (int (length msg))) s) (\<lambda>(fs, lf).
     cxx_bind
       (if tls_second e smod 2 = 0 \<and> names fs (cur_log_fullname lf) = None
        then cxx_bind (RollFile e (fs, lf)) (\<lambda>(s, _). Inr (s, True))
        else Inr ((fs, lf), False)) (\<lambda>((fs, lf), is_rolled).
     if file_bytes lf > roll_size lf \<and> \<not> is_rolled
     then cxx_bind (RollFile e (fs, lf)) (\<lambda>(s, _). Inr s)
     else count_write e (fs, lf)))"

text \<open>\<open>Write\<close> locks \<open>mutex_\<close> when the file is thread-safe; its effect is that of \<open>WriteUnlocked\<close>.\<close>

definition LogFile_Write ::
  "env \<Rightarrow> string \<Rightarrow> file_system \<times> LogFile \<Rightarrow> (file_system \<times> LogFile) cxx" where
  "LogFile_Write e msg s = (if thread_safe (snd s) then WriteUnlocked e msg s else WriteUnlocked e msg s)"

section \<open>The invariant of a log file\<close>

text \<open>
  The file is a text stream (which may have failed to open), the period is the day of the last
  roll, and the counter stays below \<open>check_every_n\<close>.
\<close>

definition logfile_inv :: "LogFile \<Rightarrow> bool" where
  "logfile_inv lf \<longleftrightarrow>
     (\<exists>w. cur_file lf = Some w \<and> \<not> is_binary w \<and> (good w \<longrightarrow> (\<exists>f. handle w = Some f)))
     \<and> start_of_period lf = last_roll lf sdiv roll_per_seconds * roll_per_seconds
     \<and> last_roll lf \<le> last_flush lf \<and> 0 \<le> flush_interval lf
     \<and> 0 \<le> count lf \<and> count lf < check_every_n lf"

definition env_ok :: "env \<Rightarrow> bool" where
  "env_ok e \<longleftrightarrow> length (hostname e) < 2 ^ 31 \<and> 0 < now e"

lemma length_zero_pad: "length (zero_pad w s) = max w (length s)"
  by (simp add: zero_pad_def max_def)

lemma length_fmt0: "0 < w \<Longrightarrow> w \<le> length (fmt0 w i)"
  by (auto simp: fmt0_def length_zero_pad)

text \<open>The date line of the header always has 40 characters, so its 41 bytes include the NUL.\<close>

lemma length_header_date: "length (header_date d) = 40"
proof -
  have "40 \<le> length (''Log file created at: '' @ fmt0 4 (year d) @ ''/'' @ fmt0 2 (month d) @
     ''/'' @ fmt0 2 (day d) @ '' '' @ fmt0 2 (hour d) @ '':'' @ fmt0 2 (minute d) @ '':'' @
     fmt0 2 (second d))"
    using length_fmt0 [of 4 "year d"] length_fmt0 [of 2 "month d"] length_fmt0 [of 2 "day d"]
      length_fmt0 [of 2 "hour d"] length_fmt0 [of 2 "minute d"] length_fmt0 [of 2 "second d"]
    by simp
  then show ?thesis unfolding header_date_def snprintf_def length_take by simp
qed

lemma write_header_result:
  assumes "writes_to f w" "hostname e \<noteq> []" "length (hostname e) < 2 ^ 31"
  shows "\<exists>n. write_header e (fs, w) = Inr (fs_append f (log_header e) fs, w\<lparr>written_bytes := n\<rparr>)"
proof -
  have ok: "writes_to f (w\<lparr>written_bytes := n\<rparr>)" for n using assms(1) by (simp add: writes_to_def)
  show ?thesis
    using Write_write_bytes [OF assms(1), of 41 "header_date (date e)" True fs]
    using Write_write_bytes [OF ok, of "int (length machine_label)" machine_label False]
    using Write_write_bytes [OF ok, of "int (length (hostname e))" "hostname e" True]
    using Write_write_bytes [OF ok, of "int (length format_line)" format_line True]
    using assms(2,3)
    by (simp add: write_header_eq length_header_date log_header_def machine_label_def)
      (simp add: format_line_def, blast)
qed

section \<open>Existing files only grow\<close>

definition grows :: "file_system \<Rightarrow> file_system \<Rightarrow> bool" where
  "grows fs fs' \<longleftrightarrow> next_file fs \<le> next_file fs' \<and> (\<forall>d. dirs fs d \<longrightarrow> dirs fs' d)
     \<and> (\<forall>g < next_file fs. \<exists>t. data fs' g = data fs g @ t)"

lemma grows_refl [simp]: "grows fs fs"
  by (simp add: grows_def)

lemma grows_trans: "grows fs fs' \<Longrightarrow> grows fs' fs'' \<Longrightarrow> grows fs fs''"
  unfolding grows_def by (metis append.assoc order_less_le_trans order_trans)

definition stream_ok :: "WriteOp \<Rightarrow> bool" where
  "stream_ok w \<longleftrightarrow> \<not> is_binary w \<and> (good w \<longrightarrow> (\<exists>f. handle w = Some f))"

lemma Write_write_ok:
  assumes "stream_ok w" "nat len \<le> length m + 1"
  shows "\<exists>fs' w' b. Write_write (Some m) len endln (fs, w) = Inr ((fs', w'), b)
    \<and> stream_ok w' \<and> grows fs fs'"
proof -
  consider "\<not> good w \<or> len = 0" | f where "writes_to f w" "0 < len" | f where "writes_to f w" "len < 0"
    using assms(1) by (force simp: writes_to_def stream_ok_def)
  then show ?thesis
  proof cases
    case 1
    with assms show ?thesis by (cases "len = 0") (auto simp: Write_write_def stream_ok_def)
  next
    case (2 f)
    then show ?thesis
      using Write_write_bytes [OF 2(1,2) assms(2), of endln fs]
      by (auto simp: stream_ok_def writes_to_def grows_def fs_append_def)
  next
    case (3 f)
    then show ?thesis
      using Write_write_string [OF 3, of m endln fs]
      by (auto simp: stream_ok_def writes_to_def grows_def fs_append_def)
  qed
qed

lemma write_header_ok:
  assumes "stream_ok w" "length (hostname e) < 2 ^ 31"
  shows "\<exists>fs' w'. write_header e (fs, w) = Inr (fs', w') \<and> stream_ok w' \<and> grows fs fs'"
proof -
  obtain fs1 w1 b1 where 1: "Write_write (Some (header_date (date e))) 41 True (fs, w) = Inr ((fs1, w1), b1)"
      "stream_ok w1" "grows fs fs1"
    using Write_write_ok [OF assms(1), of 41 "header_date (date e)" True fs] by (auto simp: length_header_date)
  obtain fs2 w2 b2 where 2: "Write_write (Some machine_label) (int (length machine_label)) False (fs1, w1) =
      Inr ((fs2, w2), b2)" "stream_ok w2" "grows fs1 fs2"
    using Write_write_ok [OF 1(2), of "int (length machine_label)" machine_label False fs1] by auto
  obtain fs3 w3 b3 where 3: "Write_write (Some (hostname e)) (to_int32 (int (length (hostname e)))) True (fs2, w2) =
      Inr ((fs3, w3), b3)" "stream_ok w3" "grows fs2 fs3"
    using Write_write_ok [OF 2(2), of "int (length (hostname e))" "hostname e" True fs2] assms(2) by auto
  obtain fs4 w4 b4 where 4: "Write_write (Some format_line) (int (length format_line)) True (fs3, w3) =
      Inr ((fs4, w4), b4)" "stream_ok w4" "grows fs3 fs4"
    using Write_write_ok [OF 3(2), of "int (length format_line)" format_line True fs3] by auto
  from 1 2 3 4 show ?thesis
    by (auto simp: write_header_eq intro: grows_trans)
qed

lemma Write_new_ok: "\<exists>fs' w. Write_new path False True fs = (fs', w) \<and> stream_ok w \<and> grows fs fs'"
  by (auto simp: Write_new_def Write_open_def fs_open_def stream_ok_def grows_def
      split: option.splits if_splits)

lemma grows_relink [simp]: "grows fs (relink path target fs')  \<longleftrightarrow> grows fs fs'"
  by (simp add: grows_def relink_def)

text \<open>Everything of the invariant but the bound of the counter, for the states in between.\<close>

definition roll_inv :: "LogFile \<Rightarrow> bool" where
  "roll_inv lf \<longleftrightarrow> (\<exists>w. cur_file lf = Some w \<and> stream_ok w)
     \<and> start_of_period lf = last_roll lf sdiv roll_per_seconds * roll_per_seconds
     \<and> last_roll lf \<le> last_flush lf \<and> 0 \<le> flush_interval lf"

lemma logfile_inv_alt:
  "logfile_inv lf \<longleftrightarrow> roll_inv lf \<and> 0 \<le> count lf \<and> count lf < check_every_n lf"
  by (auto simp: logfile_inv_def roll_inv_def stream_ok_def)

lemma RollFile_ok:
  assumes "env_ok e" "now e > last_roll lf \<or> roll_inv lf" "0 \<le> flush_interval lf"
  shows "\<exists>fs' lf'. RollFile e (fs, lf) = Inr ((fs', lf'), now e > last_roll lf) \<and> roll_inv lf' \<and> grows fs fs'
    \<and> count lf' = count lf \<and> check_every_n lf' = check_every_n lf \<and> thread_safe lf' = thread_safe lf
    \<and> (now e \<le> last_roll lf \<longrightarrow> fs' = fs \<and> lf' = lf)"
proof (cases "now e > last_roll lf")
  case False
  with assms show ?thesis by (simp add: RollFile_eq Let_def)
next
  case True
  let ?full = "base_filename lf @ ''/'' @ PrettyLogFileName e lf"
  obtain fs1 w1 where 1: "Write_new ?full False True fs = (fs1, w1)" "stream_ok w1" "grows fs fs1"
    using Write_new_ok by blast
  obtain fs2 w2 where 2: "write_header e (fs1, w1) = Inr (fs2, w2)" "stream_ok w2" "grows fs1 fs2"
    using write_header_ok [OF 1(2), of e fs1] assms(1) by (auto simp: env_ok_def)
  from 1 2 True grows_trans [OF 1(3) 2(3)] show ?thesis
    using assms(3) by (simp add: RollFile_eq Let_def roll_inv_def)
qed

lemma count_write_ok:
  assumes "env_ok e" "roll_inv lf" "0 \<le> count lf" "count lf < check_every_n lf"
  shows "\<exists>fs' lf'. count_write e (fs, lf) = Inr (fs', lf') \<and> logfile_inv lf' \<and> grows fs fs'
    \<and> check_every_n lf' = check_every_n lf"
proof (cases "count lf + 1 \<ge> check_every_n lf")
  case False
  with assms show ?thesis by (auto simp: count_write_def Let_def logfile_inv_alt roll_inv_def)
next
  case True
  define lf0 where "lf0 = lf\<lparr>count := 0\<rparr>"
  have r: "roll_inv lf0" using assms(2) by (simp add: roll_inv_def lf0_def)
  have c: "count lf0 = 0" "check_every_n lf0 = check_every_n lf" by (simp_all add: lf0_def)
  have step: "count_write e (fs, lf) =
     (if now e sdiv roll_per_seconds * roll_per_seconds \<noteq> start_of_period lf0
      then cxx_bind (RollFile e (fs, lf0)) (\<lambda>(s, _). Inr s)
      else if now e - last_flush lf0 > flush_interval lf0
      then cxx_bind (LogFile_Flush (lf0\<lparr>last_flush := now e\<rparr>)) (\<lambda>lf. Inr (fs, lf)) else Inr (fs, lf0))"
    using True by (simp add: count_write_def Let_def lf0_def)
  show ?thesis
  proof (cases "now e sdiv roll_per_seconds * roll_per_seconds \<noteq> start_of_period lf0")
    case True
    from r have "0 \<le> flush_interval lf0" by (simp add: roll_inv_def)
    with RollFile_ok [OF assms(1), of lf0 fs] r step True c assms(3,4) show ?thesis
      by (auto simp: logfile_inv_alt)
  next
    case False
    obtain w where "cur_file lf0 = Some w" using r by (auto simp: roll_inv_def)
    then show ?thesis
      using False r c step assms(3,4) by (auto simp: logfile_inv_alt roll_inv_def LogFile_Flush_def)
  qed
qed

lemma roll_inv_stream:
  "roll_inv lf \<Longrightarrow> stream_ok w \<Longrightarrow> roll_inv (lf\<lparr>cur_file := Some w\<rparr>)"
  by (simp add: roll_inv_def)

text \<open>What happens after the message has been written: a roll, or counting.\<close>

lemma after_write_ok:
  assumes e: "env_ok e" and inv: "logfile_inv lf"
  shows "\<exists>fs' lf'. cxx_bind
       (if tls_second e smod 2 = 0 \<and> names fs (cur_log_fullname lf) = None
        then cxx_bind (RollFile e (fs, lf)) (\<lambda>(s, _). Inr (s, True))
        else Inr ((fs, lf), False)) (\<lambda>((fs, lf), is_rolled).
     if file_bytes lf > roll_size lf \<and> \<not> is_rolled
     then cxx_bind (RollFile e (fs, lf)) (\<lambda>(s, _). Inr s)
     else count_write e (fs, lf)) = Inr (fs', lf') \<and> logfile_inv lf' \<and> grows fs fs'"
proof -
  have r: "roll_inv lf" and c: "0 \<le> count lf" "count lf < check_every_n lf"
    and fi: "0 \<le> flush_interval lf"
    using inv by (auto simp: logfile_inv_alt roll_inv_def)
  obtain fs1 lf1 where roll: "RollFile e (fs, lf) = Inr ((fs1, lf1), now e > last_roll lf)"
      "roll_inv lf1" "grows fs fs1" "count lf1 = count lf" "check_every_n lf1 = check_every_n lf"
    using RollFile_ok [OF e _ fi] r by blast
  obtain fs2 lf2 where cnt: "count_write e (fs1, lf1) = Inr (fs2, lf2)" "logfile_inv lf2" "grows fs1 fs2"
    using count_write_ok [OF e roll(2), of fs1] c roll by auto
  obtain fs3 lf3 where cnt': "count_write e (fs, lf) = Inr (fs3, lf3)" "logfile_inv lf3" "grows fs fs3"
    using count_write_ok [OF e r c, of fs] by auto
  from roll cnt cnt' c grows_trans [OF roll(3) cnt(3)] show ?thesis
    by (auto simp: logfile_inv_alt)
qed

text \<open>The file a log file writes to, if its stream works.\<close>

definition log_target :: "LogFile \<Rightarrow> nat option" where
  "log_target lf = (case cur_file lf of None \<Rightarrow> None | Some w \<Rightarrow> if good w then handle w else None)"

lemma LogFile_Write_ok:
  assumes "env_ok e" "logfile_inv lf" "length msg < 2 ^ 31"
  shows "\<exists>fs' lf'. LogFile_Write e msg (fs, lf) = Inr (fs', lf') \<and> logfile_inv lf' \<and> grows fs fs'
    \<and> (\<forall>f. log_target lf = Some f \<longrightarrow> f < next_file fs \<longrightarrow> (\<exists>t. data fs' f = data fs f @ msg @ t))"
proof -
  obtain w where w: "cur_file lf = Some w" "stream_ok w"
    using assms(2) by (auto simp: logfile_inv_alt roll_inv_def)
  obtain fs1 w1 b where 1: "Write_write (Some msg) (int (length msg)) False (fs, w) = Inr ((fs1, w1), b)"
      "stream_ok w1" "grows fs fs1"
    using Write_write_ok [OF w(2), of "int (length msg)" msg False fs] by auto
  define lf1 where "lf1 = lf\<lparr>cur_file := Some w1\<rparr>"
  have wr: "file_write msg (to_int32 (int (length msg))) (fs, lf) = Inr (fs1, lf1)"
    using w(1) 1(1) assms(3) by (simp add: file_write_eq lf1_def)
  have "logfile_inv lf1"
    using assms(2) 1(2) by (simp add: logfile_inv_alt lf1_def roll_inv_def)
  from after_write_ok [OF assms(1) this, of fs1] obtain fs' lf' where
    a: "LogFile_Write e msg (fs, lf) = Inr (fs', lf')" "logfile_inv lf'" "grows fs1 fs'"
    by (auto simp: LogFile_Write_def WriteUnlocked_def wr)
  have "\<exists>t. data fs' f = data fs f @ msg @ t" if "log_target lf = Some f" "f < next_file fs" for f
  proof -
    have "writes_to f w"
      using that(1) w by (auto simp: log_target_def writes_to_def stream_ok_def split: if_splits)
    with Write_write_bytes [OF this, of "int (length msg)" msg False fs] 1(1)
    have "fs1 = fs_append f msg fs"
      by (cases "msg = []") (auto simp: Write_write_def fs_append_def)
    moreover have "\<exists>t. data fs' f = data fs1 f @ t"
      using a(3) 1(3) that(2) by (auto simp: grows_def)
    ultimately show ?thesis by auto
  qed
  with a grows_trans [OF 1(3) a(3)] show ?thesis by blast
qed

section \<open>Properties\<close>

text \<open>
  C22. Writing a message to a log file never fails: the message is appended to the file that is open,
  before the file may be rolled, no existing file ever loses a character, and the invariant of the
  log file (a stream is open, the period is the day of the last roll, the counter is below its
  limit) is kept.
\<close>

theorem LogFile_Write_appends:
  assumes "env_ok e" "logfile_inv lf" "cur_file lf = Some w" "writes_to f w" "f < next_file fs"
    and "length msg < 2 ^ 31"
  shows "\<exists>fs' lf' t. LogFile_Write e msg (fs, lf) = Inr (fs', lf') \<and> logfile_inv lf'
    \<and> data fs' f = data fs f @ msg @ t
    \<and> (\<forall>g < next_file fs. \<exists>t. data fs' g = data fs g @ t)"
proof -
  have "log_target lf = Some f" using assms(3,4) by (simp add: log_target_def writes_to_def)
  with LogFile_Write_ok [OF assms(1,2,6), of fs] assms(5) show ?thesis
    by (auto simp: grows_def)
qed

text \<open>
  A log file rolls exactly when the clock has advanced by at least a second since its last roll.
  If the new name is unused and can be created, the new file holds the three lines of the
  header, and the symbolic link names it; the first line ends in a NUL character, because the size of
  the array is written and not the length of the text.
\<close>

lemma RollFile_header:
  assumes "env_ok e" "now e > last_roll lf" "hostname e \<noteq> []"
    and "full = base_filename lf @ ''/'' @ PrettyLogFileName e lf"
    and "creatable fs full" "names fs full = None"
    and "link = base_filename lf @ ''/'' @ symlink_name lf" "link \<noteq> full"
  shows "\<exists>fs' lf'. RollFile e (fs, lf) = Inr ((fs', lf'), True)
    \<and> file_content fs' full = Some (log_header e)
    \<and> links fs' link = Some (PrettyLogFileName e lf)
    \<and> cur_log_fullname lf' = full \<and> last_roll lf' = now e"
proof -
  define f where "f = next_file fs"
  define fs0 where "fs0 = fs\<lparr>names := (names fs)(full \<mapsto> f), data := (data fs)(f := []), next_file := f + 1\<rparr>"
  define w0 where "w0 = \<lparr>handle = Some f, good = True, app_mode = True, is_binary = False, written_bytes = 0\<rparr>"
  have new: "Write_new full False True fs = (fs0, w0)"
    using assms(5,6) by (simp add: Write_new_def Write_open_def fs_open_def fs0_def w0_def f_def)
  have w0: "writes_to f w0" by (simp add: writes_to_def w0_def)
  have len: "length (hostname e) < 2 ^ 31" using assms(1) by (simp add: env_ok_def)
  obtain n where hd: "write_header e (fs0, w0) = Inr (fs_append f (log_header e) fs0, w0\<lparr>written_bytes := n\<rparr>)"
    using write_header_result [OF w0 assms(3) len] by blast
  have "RollFile e (fs, lf) = Inr ((relink link (PrettyLogFileName e lf) (fs_append f (log_header e) fs0),
      lf\<lparr>last_roll := now e, last_flush := now e,
         start_of_period := now e sdiv roll_per_seconds * roll_per_seconds, cur_log_fullname := full,
         cur_file := Some (w0\<lparr>written_bytes := n\<rparr>), first_link := False,
         current_filename := PrettyLogFileName e lf\<rparr>), True)"
    using assms(2,4,7) new hd by (simp add: RollFile_eq Let_def)
  moreover have "file_content (relink link l (fs_append f (log_header e) fs0)) full = Some (log_header e)" for l
    using assms(8) by (simp add: relink_def file_content_def) (simp add: fs0_def fs_append_def)
  moreover have "links (relink link l fs1) link = Some l" for l fs1 by (simp add: relink_def)
  ultimately show ?thesis by simp
qed

text \<open>A new log file is open and satisfies the invariant.\<close>

lemma open_directory_simps:
  "dirs fs base \<Longrightarrow> open_directory base fs = Inr fs"
  "\<not> fs_exists fs base \<Longrightarrow> dir_creatable fs base \<Longrightarrow>
     open_directory base fs = Inr (fs\<lparr>dirs := (dirs fs)(base := True)\<rparr>)"
  "\<not> dirs fs base \<Longrightarrow> fs_exists fs base \<or> \<not> dir_creatable fs base \<Longrightarrow>
     open_directory base fs = Inl Undefined_Behaviour"
  by (auto simp: open_directory_def fs_mkdir_def fs_exists_def)

lemma LogFile_new_ok:
  assumes "env_ok e" "dirs fs base"
  shows "\<exists>fs' lf. LogFile_new e base bin roll sev safe fs = Inr (fs', lf) \<and> logfile_inv lf \<and> grows fs fs'"
proof -
  let ?lf = "\<lparr>base_filename = base, bin_name = bin, roll_size = roll, thread_safe = safe,
    log_severity = sev, start_of_period = 0, last_roll = 0, last_flush = 0,
    symlink_name = bin @ ''.'' @ sev, current_filename = [], cur_log_fullname = [],
    first_link = True, flush_interval = 3, check_every_n = 1024, count = 0, cur_file = None\<rparr>"
  have "now e > last_roll ?lf" using assms by (simp add: env_ok_def)
  with RollFile_ok [OF assms(1), of ?lf fs] show ?thesis
    by (auto simp: LogFile_new_def logfile_inv_alt open_directory_simps(1) [OF assms(2)])
qed

text \<open>
  The constructor succeeds exactly if the directory exists or can be made; it then makes it.
\<close>

lemma LogFile_new_iff:
  assumes "env_ok e"
  shows "is_error (LogFile_new e base bin roll sev safe fs) \<longleftrightarrow>
    \<not> dirs fs base \<and> (names fs base \<noteq> None \<or> \<not> dir_creatable fs base)"
proof -
  let ?fs = "fs\<lparr>dirs := (dirs fs)(base := True)\<rparr>"
  have d: "\<not> is_error (LogFile_new e base bin roll sev safe fs)" if "dirs fs base" for fs
    using LogFile_new_ok [OF assms that, of bin roll sev safe] by auto
  have "open_directory base ?fs = Inr ?fs" by (rule open_directory_simps) simp
  then have "LogFile_new e base bin roll sev safe fs = LogFile_new e base bin roll sev safe ?fs"
    if "\<not> fs_exists fs base" "dir_creatable fs base"
    using open_directory_simps(2) [OF that] by (simp add: LogFile_new_def)
  note eq = this
  consider "dirs fs base" | "\<not> fs_exists fs base" "dir_creatable fs base"
    | "\<not> dirs fs base" "fs_exists fs base \<or> \<not> dir_creatable fs base" by blast
  then show ?thesis
  proof cases
    case 1
    with d [OF 1] show ?thesis by simp
  next
    case 2
    with d [of ?fs] eq show ?thesis by (simp add: fs_exists_def)
  next
    case 3
    with open_directory_simps(3) [OF 3] show ?thesis by (auto simp: LogFile_new_def fs_exists_def)
  qed
qed

lemma LogFile_destroy_ok: "logfile_inv lf \<Longrightarrow> LogFile_destroy lf = Inr ()"
  by (auto simp: LogFile_destroy_def LogFile_Flush_def logfile_inv_def)

section \<open>A concrete log file\<close>

definition example_env :: env where
  "example_env = \<lparr>now = 1000000000,
     date = \<lparr>year = 2001, month = 9, day = 9, hour = 9, minute = 46, second = 40, usecond = 0\<rparr>,
     tls_second = 40, hostname = ''host'', unwinds_stack = False\<rparr>"

definition example_fs :: file_system where
  "example_fs = \<lparr>names = [''log/a'' \<mapsto> 0], data = (\<lambda>f. if f = 0 then ''old'' else []), next_file = 1,
     links = Map.empty, creatable = (\<lambda>_. True), dirs = (\<lambda>d. d = ''log''), dir_creatable = (\<lambda>_. True)\<rparr>"

definition example_log :: LogFile where
  "example_log = \<lparr>base_filename = ''log'', bin_name = ''prog'', roll_size = 1024, thread_safe = True,
     log_severity = ''INFO'', start_of_period = 0, last_roll = 0, last_flush = 0,
     symlink_name = ''prog.INFO'', current_filename = ''a'', cur_log_fullname = ''log/a'',
     first_link = False, flush_interval = 3, check_every_n = 1024, count = 1023,
     cur_file = Some \<lparr>handle = Some 0, good = True, app_mode = True, is_binary = False,
       written_bytes = 3\<rparr>\<rparr>"

lemmas example_log_simps = example_env_def example_fs_def example_log_def env_ok_def logfile_inv_def
  writes_to_def

lemma LogFile_Write_appends_witness:
  "\<exists>fs' lf' t. LogFile_Write example_env ''msg'' (example_fs, example_log) = Inr (fs', lf')
     \<and> logfile_inv lf' \<and> data fs' 0 = ''oldmsg'' @ t"
  using LogFile_Write_appends [of example_env example_log "the (cur_file example_log)" 0 example_fs "''msg''"]
  by (auto simp: example_log_simps)

lemma RollFile_header_witness:
  "\<exists>fs' lf'. RollFile example_env (example_fs, example_log) = Inr ((fs', lf'), True)
     \<and> links fs' ''log/prog.INFO'' = Some (PrettyLogFileName example_env example_log)"
proof -
  have "''log/prog.INFO'' \<noteq> ''log/'' @ PrettyLogFileName example_env example_log"
    by (simp add: PrettyLogFileName_def log_name_def example_env_def example_log_def)
  moreover have "names example_fs (''log/'' @ PrettyLogFileName example_env example_log) = None"
    by (simp add: PrettyLogFileName_def log_name_def example_log_simps)
  ultimately show ?thesis
    using RollFile_header [OF _ _ _ refl _ _ refl, of example_env example_log example_fs]
    by (auto simp: example_log_simps)
qed

end
