(* ===== verification/Log_Disk.thy ===== *)
theory Log_Disk
  imports Log_File
begin

text \<open>
  A sequence of writes to one log file (\<open>LogFile\<close> of base/logging.cc), as the consumer of the
  asynchronous logger makes them: every message reaches a file, whatever rolls happen in between,
  and the messages of one file stand there in the order in which they were written.
\<close>

section \<open>A disk that takes every file\<close>

definition fs_ready :: "file_system \<Rightarrow> bool" where
  "fs_ready fs \<longleftrightarrow> (\<forall>p. creatable fs p) \<and> (\<forall>p f. names fs p = Some f \<longrightarrow> f < next_file fs)"

definition ready_stream :: "file_system \<times> WriteOp \<Rightarrow> bool" where
  "ready_stream = (\<lambda>(fs, w). fs_ready fs \<and> (\<exists>f. writes_to f w \<and> f < next_file fs))"

definition log_ready :: "file_system \<times> LogFile \<Rightarrow> bool" where
  "log_ready = (\<lambda>(fs, lf). \<exists>w. cur_file lf = Some w \<and> ready_stream (fs, w))"

lemma put_ready: "ready_stream s \<Longrightarrow> ready_stream (put t s)"
  by (cases s) (auto simp: ready_stream_def put_good fs_ready_def fs_append_def, blast)

lemma count_bytes_ready [simp]: "ready_stream (count_bytes n s) \<longleftrightarrow> ready_stream s"
  by (cases s) (simp add: ready_stream_def count_bytes_def writes_to_def)

text \<open>What every output on a stream keeps, a write and the header keep.\<close>

lemma Write_write_keeps:
  assumes "\<And>t s. P s \<Longrightarrow> P (put t s)" "\<And>n s. P s \<Longrightarrow> P (count_bytes n s)" "P s"
  shows "ensures (Write_write m len endln s) (\<lambda>(s', ok). P s')"
proof (cases s)
  case (Pair fs w)
  have "ensures (cxx_bind
      (if len > 0 then if nat len \<le> length t + 1
         then Inr (count_bytes len (put (take (nat len) (t @ [NUL])) (fs, w))) else Inl Undefined_Behaviour
       else Inr (count_bytes (int (length (c_str t))) (put (c_str t) (fs, w))))
      (\<lambda>s. Inr (if endln then count_bytes 1 (put [newline] s) else s, True))) (\<lambda>(s', ok). P s')" for t
    using assms Pair by (intro ensures_bind [where P = P]) simp_all
  with assms(3) Pair show ?thesis by (simp add: Write_write_def split: option.split)
qed

lemma write_header_keeps:
  assumes "\<And>t s. P s \<Longrightarrow> P (put t s)" "\<And>n s. P s \<Longrightarrow> P (count_bytes n s)" "P s"
  shows "ensures (write_header e s) P"
proof -
  note step = ensures_bind [where P = "\<lambda>(s', ok). P s'", OF Write_write_keeps [of P, OF assms(1,2)]]
  show ?thesis
    unfolding write_header_eq using assms(3)
    by (auto intro!: step split: prod.splits)
qed

lemma write_header_ready: "ready_stream s \<Longrightarrow> ensures (write_header e s) ready_stream"
  by (rule write_header_keeps) (simp_all add: put_ready)

lemma Write_new_ready: "fs_ready fs \<Longrightarrow> ready_stream (Write_new path False True fs)"
  by (cases "names fs path")
    (auto simp: Write_new_def Write_open_def fs_open_def ready_stream_def fs_ready_def writes_to_def
      intro: less_SucI)

lemma relink_ready: "ready_stream (fs, w) \<Longrightarrow> ready_stream (relink path target fs, w)"
  by (auto simp: ready_stream_def fs_ready_def relink_def)

lemma log_ready_fs: "log_ready (fs, lf) \<Longrightarrow> fs_ready fs"
  by (auto simp: log_ready_def ready_stream_def)

lemma RollFile_ready:
  assumes "fs_ready (fst s)" "now e > last_roll (snd s) \<or> log_ready s"
  shows "ensures (RollFile e s) (\<lambda>(s', b). log_ready s')"
proof (cases s)
  case (Pair fs lf)
  have h: "ensures (write_header e (Write_new path False True fs)) ready_stream" for path
    using assms(1) Pair by (intro write_header_ready Write_new_ready) simp
  show ?thesis
  proof (cases "now e > last_roll lf")
    case True
    then show ?thesis
      unfolding Pair RollFile_eq Let_def
      by simp (rule ensures_bind [OF h], auto simp: log_ready_def relink_ready)
  next
    case False
    with assms Pair show ?thesis by (simp add: RollFile_eq Let_def)
  qed
qed

lemma RollFile_again: "log_ready s \<Longrightarrow> ensures (RollFile e s) (\<lambda>(s', b). log_ready s')"
  by (rule RollFile_ready) (auto simp: log_ready_fs [of "fst s" "snd s", simplified])

lemma log_ready_update:
  "log_ready (fs, lf) \<Longrightarrow> log_ready (fs, lf\<lparr>count := n\<rparr>)"
  "log_ready (fs, lf) \<Longrightarrow> log_ready (fs, lf\<lparr>last_flush := t\<rparr>)"
  by (simp_all add: log_ready_def)

lemma file_write_ready:
  assumes "log_ready s"
  shows "ensures (file_write msg n s) log_ready"
proof -
  obtain fs lf w where s: "s = (fs, lf)" "cur_file lf = Some w" "ready_stream (fs, w)"
    using assms by (cases s) (auto simp: log_ready_def)
  have "ensures (Write_write (Some msg) n False (fs, w)) (\<lambda>(s', ok). ready_stream s')"
    using s(3) by (intro Write_write_keeps) (simp_all add: put_ready)
  then show ?thesis
    unfolding s(1) file_write_eq using s(2)
    by simp (erule ensures_bind, auto simp: log_ready_def)
qed

lemma LogFile_Flush_id: "ensures (LogFile_Flush lf) (\<lambda>lf'. lf' = lf)"
  by (simp add: LogFile_Flush_def split: option.split)

text \<open>What a roll, a write to the stream and the counters keep, \<open>Write\<close> keeps.\<close>

lemma LogFile_Write_keeps:
  assumes roll: "\<And>s. P s \<Longrightarrow> ensures (RollFile e s) (\<lambda>(s', b). P s')"
    and emit: "\<And>n s. P s \<Longrightarrow> ensures (file_write msg n s) P"
    and update: "\<And>fs lf n. P (fs, lf) \<Longrightarrow> P (fs, lf\<lparr>count := n\<rparr>)"
      "\<And>fs lf t. P (fs, lf) \<Longrightarrow> P (fs, lf\<lparr>last_flush := t\<rparr>)"
    and "P s"
  shows "ensures (LogFile_Write e msg s) P"
proof -
  have then_roll: "ensures (cxx_bind (RollFile e s) (\<lambda>(s, _). Inr s)) P" if "P s" for s
    by (rule ensures_bind [OF roll [OF that]]) auto
  have flush: "ensures (cxx_bind (LogFile_Flush (lf\<lparr>last_flush := now e\<rparr>)) (\<lambda>lf. Inr (fs, lf))) P"
    if "P (fs, lf)" for fs lf
    using update that by (intro ensures_bind [OF LogFile_Flush_id]) simp
  have counted: "ensures (count_write e (fs, lf)) P" if "P (fs, lf)" for fs lf
    unfolding count_write_def Let_def using that by (auto intro!: ensures_if then_roll flush update)
  have rolled: "ensures (if c then cxx_bind (RollFile e s1) (\<lambda>(s, _). Inr (s, True)) else Inr (s1, False))
      (\<lambda>(s', b). P s')" if "P s1" for c s1
    using that by (intro ensures_if ensures_bind [OF roll [OF that]]) auto
  have "ensures (WriteUnlocked e msg s) P"
    unfolding WriteUnlocked_def
  proof (rule ensures_bind [OF emit [OF assms(5)]], clarify)
    fix fs lf
    assume r: "P (fs, lf)"
    show "ensures (cxx_bind
         (if tls_second e smod 2 = 0 \<and> names fs (cur_log_fullname lf) = None
          then cxx_bind (RollFile e (fs, lf)) (\<lambda>(s, _). Inr (s, True)) else Inr ((fs, lf), False))
         (\<lambda>((fs, lf), is_rolled). if file_bytes lf > roll_size lf \<and> \<not> is_rolled
            then cxx_bind (RollFile e (fs, lf)) (\<lambda>(s, _). Inr s) else count_write e (fs, lf))) P"
      by (rule ensures_bind [OF rolled [OF r]]) (clarsimp, intro conjI impI counted then_roll)
  qed
  then show ?thesis by (simp add: LogFile_Write_def)
qed

lemma LogFile_Write_ready: "log_ready s \<Longrightarrow> ensures (LogFile_Write e msg s) log_ready"
  by (rule LogFile_Write_keeps) (simp_all add: RollFile_again file_write_ready log_ready_update)

section \<open>A sequence of writes\<close>

primrec write_all :: "(env \<times> string) list \<Rightarrow> file_system \<times> LogFile \<Rightarrow> (file_system \<times> LogFile) cxx" where
  "write_all [] s = Inr s"
| "write_all (x # xs) s = cxx_bind (LogFile_Write (fst x) (snd x) s) (write_all xs)"

text \<open>
  The messages that went to file \<open>g\<close>, where \<open>targets\<close> lists the file of each message, and what it
  means that a file holds messages: each stands there in one piece, and after the one before it.
\<close>

definition part :: "nat \<Rightarrow> nat list \<Rightarrow> string list \<Rightarrow> string list" where
  "part g targets msgs = map snd (filter (\<lambda>x. fst x = g) (zip targets msgs))"

primrec in_order :: "string list \<Rightarrow> string \<Rightarrow> bool" where
  "in_order [] t = True"
| "in_order (m # ms) t = (\<exists>s u. t = s @ m @ u \<and> in_order ms u)"

lemma part_simps [simp]:
  "part g [] msgs = []"
  "part g (f # fs) (m # ms) = (if f = g then m # part g fs ms else part g fs ms)"
  by (simp_all add: part_def)

lemma in_order_prepend: "in_order ms u \<Longrightarrow> in_order ms (s @ u)"
  by (cases ms) (auto, metis append.assoc)

lemma write_one:
  assumes "env_ok e" "logfile_inv lf" "log_ready (fs, lf)" "length msg < 2 ^ 31"
  obtains fs' lf' f t where "LogFile_Write e msg (fs, lf) = Inr (fs', lf')" "logfile_inv lf'"
    "log_ready (fs', lf')" "grows fs fs'" "f < next_file fs" "data fs' f = data fs f @ msg @ t"
proof -
  obtain f where f: "log_target lf = Some f" "f < next_file fs"
    using assms(3) by (auto simp: log_ready_def ready_stream_def log_target_def writes_to_def)
  from LogFile_Write_ok [OF assms(1,2,4), of fs] obtain fs' lf' where
    w: "LogFile_Write e msg (fs, lf) = Inr (fs', lf')" "logfile_inv lf'" "grows fs fs'"
    and d: "\<exists>t. data fs' f = data fs f @ msg @ t"
    using f by blast
  from d obtain t where "data fs' f = data fs f @ msg @ t" ..
  from that [OF w(1,2) ensuresD [OF LogFile_Write_ready [OF assms(3)] w(1)] w(3) f(2) this]
  show ?thesis .
qed

text \<open>
  Every message is in a file: the files keep what they held (\<open>old_data\<close>, nothing if they are new),
  and after it the messages for a file stand there in order, each whole or not.
\<close>

definition old_data :: "file_system \<Rightarrow> nat \<Rightarrow> string" where
  "old_data fs g = (if g < next_file fs then data fs g else [])"

definition all_delivered :: "nat list \<Rightarrow> string list \<Rightarrow> file_system \<Rightarrow> file_system \<Rightarrow> bool" where
  "all_delivered targets msgs fs fs' \<longleftrightarrow> length targets = length msgs
     \<and> (\<forall>g. \<exists>u. data fs' g = old_data fs g @ u \<and> in_order (part g targets msgs) u)"

lemma grows_old_data: "grows fs fs' \<Longrightarrow> \<exists>u. data fs' g = old_data fs g @ u"
  by (auto simp: grows_def old_data_def)

lemma old_data_later:
  assumes "grows fs fs1" "data fs' g = old_data fs1 g @ v"
  shows "\<exists>t. data fs' g = old_data fs g @ t @ v"
proof (cases "g < next_file fs")
  case True
  with assms show ?thesis by (auto simp: grows_def old_data_def)
next
  case False
  with assms show ?thesis by (auto simp: old_data_def)
qed

lemma all_delivered_Nil: "grows fs fs' \<Longrightarrow> all_delivered [] [] fs fs'"
  using grows_old_data by (auto simp: all_delivered_def)

lemma all_delivered_in_order:
  "all_delivered ts ms fs fs' \<Longrightarrow> in_order (part g ts ms) (data fs' g)"
  unfolding all_delivered_def by (metis in_order_prepend)

lemma all_delivered_skip:
  assumes "grows fs fs1" "all_delivered ts ms fs1 fs'"
  shows "all_delivered ts ms fs fs'"
  unfolding all_delivered_def
proof (intro conjI allI)
  fix g
  from assms(2) obtain v where "data fs' g = old_data fs1 g @ v" "in_order (part g ts ms) v"
    unfolding all_delivered_def by blast
  with old_data_later [OF assms(1)] show "\<exists>u. data fs' g = old_data fs g @ u \<and> in_order (part g ts ms) u"
    by (metis in_order_prepend)
qed (use assms(2) in \<open>simp add: all_delivered_def\<close>)

lemma all_delivered_Cons:
  assumes "grows fs fs1" "f < next_file fs1" "data fs1 f = old_data fs f @ s @ m @ t"
    and "all_delivered ts ms fs1 fs'"
  shows "all_delivered (f # ts) (m # ms) fs fs'"
  unfolding all_delivered_def
proof (intro conjI allI)
  fix g
  from assms(4) obtain v where v: "data fs' g = old_data fs1 g @ v" "in_order (part g ts ms) v"
    unfolding all_delivered_def by blast
  show "\<exists>u. data fs' g = old_data fs g @ u \<and> in_order (part g (f # ts) (m # ms)) u"
  proof (cases "f = g")
    case True
    have "in_order (m # part g ts ms) (s @ m @ t @ v)"
      using in_order_prepend [OF v(2)] by auto
    with True assms(2,3) v(1) show ?thesis by (simp add: old_data_def [of fs1])
  next
    case False
    with old_data_later [OF assms(1) v(1)] v(2) show ?thesis by (auto intro: in_order_prepend)
  qed
qed (use assms(4) in \<open>simp add: all_delivered_def\<close>)

text \<open>The same from the other end: what is delivered stays, and one more message is delivered after it.\<close>

lemma in_order_append: "in_order ms u \<Longrightarrow> in_order ms (u @ v)"
  by (induction ms arbitrary: u) (simp, force)

lemma in_order_snoc: "in_order ms u \<Longrightarrow> in_order (ms @ [m]) (u @ s @ m @ t)"
proof (induction ms arbitrary: u)
  case (Cons a ms)
  then obtain b c where "u = b @ a @ c" "in_order ms c" by auto
  with Cons.IH [of c] show ?case by auto
next
  case Nil
  have "u @ s @ m @ t = (u @ s) @ m @ t" by simp
  then show ?case by (metis append_Nil in_order.simps)
qed

lemma part_snoc:
  "length ts = length ms \<Longrightarrow> part g (ts @ [f]) (ms @ [m]) = part g ts ms @ (if f = g then [m] else [])"
  by (simp add: part_def)

lemma part_outside: "g \<notin> set ts \<Longrightarrow> part g ts ms = []"
  by (auto simp: part_def filter_empty_conv dest: set_zip_leftD)

lemma all_delivered_later:
  assumes "all_delivered ts ms fs fs1" "set ts \<subseteq> {..<next_file fs1}" "grows fs fs1" "grows fs1 fs'"
  shows "all_delivered ts ms fs fs'"
  unfolding all_delivered_def
proof (intro conjI allI)
  fix g
  show "\<exists>u. data fs' g = old_data fs g @ u \<and> in_order (part g ts ms) u"
  proof (cases "g < next_file fs1")
    case True
    with assms(4) obtain v where "data fs' g = data fs1 g @ v" by (auto simp: grows_def)
    with assms(1) show ?thesis unfolding all_delivered_def by (metis append.assoc in_order_append)
  next
    case False
    with assms(2) have "g \<notin> set ts" by auto
    with False assms(3) have "part g ts ms = []" "old_data fs g = []"
      by (auto simp: part_outside old_data_def grows_def)
    then show ?thesis by simp
  qed
qed (use assms(1) in \<open>simp add: all_delivered_def\<close>)

lemma all_delivered_snoc:
  assumes d: "all_delivered ts ms fs fs1" and ts: "set ts \<subseteq> {..<next_file fs1}"
    and g: "grows fs fs1" "grows fs1 fs'" and f: "data fs' f = old_data fs1 f @ s @ m @ t"
  shows "all_delivered (ts @ [f]) (ms @ [m]) fs fs'"
  unfolding all_delivered_def
proof (intro conjI allI)
  have l: "length ts = length ms" using d by (simp add: all_delivered_def)
  then show "length (ts @ [f]) = length (ms @ [m])" by simp
  fix h
  show "\<exists>u. data fs' h = old_data fs h @ u \<and> in_order (part h (ts @ [f]) (ms @ [m])) u"
  proof (cases "h = f")
    case False
    with all_delivered_later [OF d ts g] show ?thesis
      by (simp add: part_snoc [OF l] all_delivered_def)
  next
    case True
    obtain u where "old_data fs1 f = old_data fs f @ u" "in_order (part f ts ms) u"
    proof (cases "f < next_file fs1")
      case True
      with d that show ?thesis by (auto simp: all_delivered_def old_data_def)
    next
      case False
      with ts have "f \<notin> set ts" by auto
      with False g(1) have "part f ts ms = []" "old_data fs1 f = old_data fs f @ []"
        by (auto simp: part_outside old_data_def grows_def)
      then show ?thesis using that by simp
    qed
    with in_order_snoc [of "part f ts ms" u m s t] f True show ?thesis
      by (simp add: part_snoc [OF l])
  qed
qed

lemma write_all_result:
  assumes "list_all (\<lambda>x. env_ok (fst x) \<and> length (snd x) < 2 ^ 31) ws" "logfile_inv lf" "log_ready (fs, lf)"
  shows "\<exists>fs' lf' targets. write_all ws (fs, lf) = Inr (fs', lf') \<and> logfile_inv lf' \<and> log_ready (fs', lf')
    \<and> grows fs fs' \<and> all_delivered targets (map snd ws) fs fs'"
  using assms
proof (induction ws arbitrary: fs lf)
  case Nil
  with all_delivered_Nil [of fs fs] show ?case by auto
next
  case (Cons x xs)
  have x: "env_ok (fst x)" "length (snd x) < 2 ^ 31" using Cons.prems(1) by simp_all
  obtain fs1 lf1 f t where w: "LogFile_Write (fst x) (snd x) (fs, lf) = Inr (fs1, lf1)"
      "logfile_inv lf1" "log_ready (fs1, lf1)" and g: "grows fs fs1"
    and f: "f < next_file fs" "data fs1 f = data fs f @ snd x @ t"
    by (rule write_one [OF x(1) Cons.prems(2,3) x(2)])
  from Cons.IH [OF _ w(2,3)] Cons.prems(1) obtain fs' lf' ts where
    r: "write_all xs (fs1, lf1) = Inr (fs', lf')" "logfile_inv lf'" "log_ready (fs', lf')" "grows fs1 fs'"
      "all_delivered ts (map snd xs) fs1 fs'" by auto
  have "f < next_file fs1" "data fs1 f = old_data fs f @ [] @ snd x @ t"
    using f g by (auto simp: old_data_def grows_def)
  from all_delivered_Cons [OF g this r(5)] w(1) r(1-4) grows_trans [OF g r(4)] show ?case
    by (intro exI [of _ fs'] exI [of _ lf'] exI [of _ "f # ts"]) simp
qed

text \<open>A log file from its constructor on.\<close>

lemma open_directory_ready: "fs_ready fs \<Longrightarrow> ensures (open_directory base fs) fs_ready"
  by (auto simp: open_directory_def Let_def fs_mkdir_def fs_ready_def)

lemma LogFile_new_ready:
  assumes "env_ok e" "fs_ready fs"
  shows "ensures (LogFile_new e base bin roll sev safe fs) log_ready"
  unfolding LogFile_new_def using assms
  by (intro ensures_bind [OF open_directory_ready] ensures_bind [OF RollFile_ready]) (auto simp: env_ok_def)

lemma log_session:
  assumes "env_ok e" "fs_ready fs" "list_all (\<lambda>x. env_ok (fst x) \<and> length (snd x) < 2 ^ 31) ws"
    and "dirs fs base"
  shows "\<exists>fs' lf' targets. cxx_bind (LogFile_new e base bin roll sev safe fs) (write_all ws) = Inr (fs', lf')
    \<and> length targets = length ws \<and> (\<forall>g. in_order (part g targets (map snd ws)) (data fs' g))"
proof -
  obtain fs1 lf1 where n: "LogFile_new e base bin roll sev safe fs = Inr (fs1, lf1)" "logfile_inv lf1"
    using LogFile_new_ok [OF assms(1,4)] by blast
  obtain fs' lf' targets where
    "write_all ws (fs1, lf1) = Inr (fs', lf')" "all_delivered targets (map snd ws) fs1 fs'"
    using write_all_result [OF assms(3) n(2) ensuresD [OF LogFile_new_ready [OF assms(1,2)] n(1)]]
    by blast
  moreover from this have "length targets = length ws" by (simp add: all_delivered_def)
  ultimately show ?thesis using n(1) all_delivered_in_order by (intro exI [of _ fs'] exI [of _ lf']) auto
qed

end
