(* ===== verification/Log_Message.thy ===== *)
theory Log_Message
  imports Log_File Log_Severity
begin

text \<open>
  Log messages: base/logging.h and base/logging.cc without the log files themselves. A statement
  such as LOG(WARN) builds a message in a bounded stream buffer (\<open>LogStreamBuf\<close>, \<open>LogMessage\<close>)
  and \<open>Flush\<close> sends it to the log files of its severity (\<open>LogDestination\<close>) and to the send method.
  The CHECK macros end in \<open>LogMessageFatal\<close>.
\<close>

section \<open>The destinations of a message\<close>

text \<open>
  \<open>log_destination(i)\<close> makes the destination on first use; \<open>write_destinations\<close> is the loop of
  \<open>LogMessage::Flush\<close>. Both are stated over the operations of a log file.
\<close>

definition log_destination ::
  "(nat \<Rightarrow> file_system \<Rightarrow> (file_system \<times> 'd) cxx) \<Rightarrow> nat \<Rightarrow> file_system \<times> 'd option list \<Rightarrow>
   ((file_system \<times> 'd option list) \<times> 'd) cxx" where
  "log_destination create i = (\<lambda>(fs, ds). case ds ! i of
     Some d \<Rightarrow> Inr ((fs, ds), d)
   | None \<Rightarrow> cxx_bind (create i fs) (\<lambda>(fs, d). Inr ((fs, ds[i := Some d]), d)))"

fun write_destinations ::
  "(nat \<Rightarrow> file_system \<Rightarrow> (file_system \<times> 'd) cxx) \<Rightarrow>
   (string \<Rightarrow> file_system \<times> 'd \<Rightarrow> (file_system \<times> 'd) cxx) \<Rightarrow> ('d \<Rightarrow> 'd cxx) \<Rightarrow> string \<Rightarrow>
   nat list \<Rightarrow> file_system \<times> 'd option list \<Rightarrow> (file_system \<times> 'd option list) cxx" where
  "write_destinations create emit flush msg [] s = Inr s"
| "write_destinations create emit flush msg (i # is) s =
     cxx_bind (log_destination create i s) (\<lambda>((fs, ds), d).
     cxx_bind (emit msg (fs, d)) (\<lambda>(fs, d).
     cxx_bind (flush d) (\<lambda>d.
       write_destinations create emit flush msg is (fs, ds[i := Some d]))))"

text \<open>What a log file promises to the messages.\<close>

locale log_sink =
  fixes ok :: "'e \<Rightarrow> bool"
    and create :: "'e \<Rightarrow> nat \<Rightarrow> file_system \<Rightarrow> (file_system \<times> 'd) cxx"
    and emit :: "'e \<Rightarrow> string \<Rightarrow> file_system \<times> 'd \<Rightarrow> (file_system \<times> 'd) cxx"
    and flush :: "'d \<Rightarrow> 'd cxx"
    and inv :: "'d \<Rightarrow> bool"
    and target :: "'d \<Rightarrow> nat option"
    and usable :: "file_system \<Rightarrow> bool"
  assumes usable_grows: "usable fs \<Longrightarrow> grows fs fs' \<Longrightarrow> usable fs'"
    and create_ok: "ok e \<Longrightarrow> usable fs \<Longrightarrow> \<exists>fs' d. create e i fs = Inr (fs', d) \<and> inv d \<and> grows fs fs'"
    and write_ok: "ok e \<Longrightarrow> inv d \<Longrightarrow> msg \<noteq> [] \<Longrightarrow> length msg < 2 ^ 31 \<Longrightarrow>
      \<exists>fs' d'. emit e msg (fs, d) = Inr (fs', d') \<and> inv d' \<and> grows fs fs' \<and>
        (\<forall>f. target d = Some f \<longrightarrow> f < next_file fs \<longrightarrow> (\<exists>t. data fs' f = data fs f @ msg @ t))"
    and flush_ok: "inv d \<Longrightarrow> flush d = Inr d"
begin

definition sinks_inv :: "'d option list \<Rightarrow> bool" where
  "sinks_inv ds \<longleftrightarrow> (\<forall>i < length ds. \<forall>d. ds ! i = Some d \<longrightarrow> inv d)"

lemma log_destination_ok:
  assumes "ok e" "sinks_inv ds" "i < length ds" "usable fs"
  shows "\<exists>fs' ds' d. log_destination (create e) i (fs, ds) = Inr ((fs', ds'), d) \<and> inv d
    \<and> grows fs fs' \<and> (ds ! i \<noteq> None \<longrightarrow> ds ! i = Some d \<and> fs' = fs) \<and> ds' = ds[i := Some d]"
proof (cases "ds ! i")
  case None
  with create_ok [OF assms(1,4), of i] show ?thesis by (auto simp: log_destination_def)
next
  case (Some d)
  with assms show ?thesis using list_update_id [of ds i]
    by (auto simp: log_destination_def sinks_inv_def)
qed

definition delivered :: "string \<Rightarrow> file_system \<Rightarrow> file_system \<Rightarrow> nat \<Rightarrow> bool" where
  "delivered msg fs fs' f \<longleftrightarrow> (\<exists>s t. data fs' f = data fs f @ s @ msg @ t)"

lemma delivered_grows:
  "delivered msg fs fs' f \<Longrightarrow> grows fs' fs'' \<Longrightarrow> f < next_file fs' \<Longrightarrow> delivered msg fs fs'' f"
  unfolding delivered_def grows_def by (metis append.assoc)

lemma grows_delivered:
  "grows fs fs' \<Longrightarrow> f < next_file fs \<Longrightarrow> delivered msg fs' fs'' f \<Longrightarrow> delivered msg fs fs'' f"
  unfolding delivered_def grows_def by (metis append.assoc)

lemma write_destinations_ok:
  assumes e: "ok e" and msg: "msg \<noteq> []" "length msg < 2 ^ 31"
  shows "sinks_inv ds \<Longrightarrow> set is \<subseteq> {..<length ds} \<Longrightarrow> distinct is \<Longrightarrow> usable fs \<Longrightarrow>
    \<exists>fs' ds'. write_destinations (create e) (emit e) flush msg is (fs, ds) = Inr (fs', ds')
      \<and> sinks_inv ds' \<and> length ds' = length ds \<and> grows fs fs'
      \<and> (\<forall>k. k \<notin> set is \<longrightarrow> ds' ! k = ds ! k) \<and> (\<forall>k \<in> set is. ds' ! k \<noteq> None)
      \<and> (\<forall>k \<in> set is. \<forall>d f. ds ! k = Some d \<longrightarrow> target d = Some f \<longrightarrow> f < next_file fs \<longrightarrow>
           delivered msg fs fs' f)"
proof (induction "is" arbitrary: fs ds)
  case (Cons i "is")
  obtain fs1 d where 1: "log_destination (create e) i (fs, ds) = Inr ((fs1, ds[i := Some d]), d)" "inv d"
      "grows fs fs1" "ds ! i \<noteq> None \<longrightarrow> ds ! i = Some d \<and> fs1 = fs"
    using log_destination_ok [OF e Cons.prems(1), of i fs] Cons.prems(2,4) by auto
  obtain fs2 d2 where 2: "emit e msg (fs1, d) = Inr (fs2, d2)" "inv d2" "grows fs1 fs2"
      "\<And>f. target d = Some f \<Longrightarrow> f < next_file fs1 \<Longrightarrow> \<exists>t. data fs2 f = data fs1 f @ msg @ t"
    using write_ok [OF e 1(2) msg] by blast
  have inv2: "sinks_inv (ds[i := Some d2])"
    unfolding sinks_inv_def
  proof (intro allI impI)
    fix k d'
    assume "k < length (ds[i := Some d2])" "ds[i := Some d2] ! k = Some d'"
    with Cons.prems(1) 2(2) show "inv d'" by (cases "k = i") (auto simp: sinks_inv_def)
  qed
  have "set is \<subseteq> {..<length (ds[i := Some d2])}" "distinct is" using Cons.prems(2,3) by auto
  from Cons.IH [OF inv2 this usable_grows [OF Cons.prems(4) grows_trans [OF 1(3) 2(3)]]] obtain fs3 ds3 where
    3: "write_destinations (create e) (emit e) flush msg is (fs2, ds[i := Some d2]) = Inr (fs3, ds3)"
      "sinks_inv ds3" "length ds3 = length ds" "grows fs2 fs3"
      "\<And>k. k \<notin> set is \<Longrightarrow> ds3 ! k = ds[i := Some d2] ! k" "\<And>k. k \<in> set is \<Longrightarrow> ds3 ! k \<noteq> None"
      "\<And>k d f. k \<in> set is \<Longrightarrow> ds[i := Some d2] ! k = Some d \<Longrightarrow> target d = Some f \<Longrightarrow>
        f < next_file fs2 \<Longrightarrow> delivered msg fs2 fs3 f"
    by auto
  have run: "write_destinations (create e) (emit e) flush msg (i # is) (fs, ds) = Inr (fs3, ds3)"
    using 1 2 3(1) flush_ok [OF 2(2)] by simp
  have g: "grows fs fs2" "grows fs fs3"
    using grows_trans [OF 1(3) 2(3)] grows_trans [OF _ 3(4)] by auto
  have head: "delivered msg fs fs3 f" if "ds ! i = Some d'" "target d' = Some f" "f < next_file fs" for d' f
  proof -
    from that 1(4) have "d' = d" "fs1 = fs" by auto
    with 2(4) [of f] that have "delivered msg fs fs2 f" unfolding delivered_def by (metis append_Nil)
    moreover have "f < next_file fs2" using g(1) that(3) by (auto simp: grows_def)
    ultimately show ?thesis using delivered_grows 3(4) by blast
  qed
  have tail: "delivered msg fs fs3 f"
    if "k \<in> set is" "ds ! k = Some d'" "target d' = Some f" "f < next_file fs" for k d' f
  proof -
    have "k \<noteq> i" using that(1) Cons.prems(3) by auto
    moreover have "f < next_file fs2" using g(1) that(4) by (auto simp: grows_def)
    ultimately have "delivered msg fs2 fs3 f" using 3(7) [OF that(1)] that by simp
    with grows_delivered [OF g(1) that(4)] show ?thesis .
  qed
  have "ds3 ! i \<noteq> None"
    using 3(5) [of i] Cons.prems(2,3) by auto
  moreover have "ds3 ! k = ds ! k" if "k \<notin> set (i # is)" for k using 3(5) [of k] that by auto
  ultimately show ?case using run 3(2,3,6) g head tail by auto
qed simp

end

section \<open>Log files as destinations\<close>

text \<open>The constructor of \<open>LogDestination\<close>, with the globals \<open>g_log_dir\<close> and \<open>g_program_name\<close>.\<close>

definition new_destination ::
  "string \<Rightarrow> string \<Rightarrow> env \<Rightarrow> nat \<Rightarrow> file_system \<Rightarrow> (file_system \<times> LogFile) cxx" where
  "new_destination dir program e i fs =
     LogFile_new e dir program (1024 * 1024 * 1024) (g_log_file_severity_names ! i) True fs"

interpretation log_files: log_sink env_ok "new_destination dir program" LogFile_Write LogFile_Flush
    logfile_inv log_target "\<lambda>fs. dirs fs dir" for dir program
proof (unfold_locales, goal_cases)
  case (1 fs fs')
  then show ?case by (simp add: grows_def)
next
  case (2 e fs i)
  then show ?case using LogFile_new_ok by (simp add: new_destination_def)
next
  case (3 e d msg fs)
  from 3(1,2,4) show ?case by (rule LogFile_Write_ok)
next
  case (4 d)
  then show ?case by (auto simp: LogFile_Flush_def logfile_inv_def)
qed

text \<open>\<open>DebugString\<close>: \<open>basename_\<close> is never set.\<close>

definition LogDestination_DebugString :: "int \<Rightarrow> string" where
  "LogDestination_DebugString roll = ''basename:'' @ [] @ '', roll_size:'' @ dec_int roll"

section \<open>The state of the logging library\<close>

text \<open>
  The global variables, the destinations, the file system, the send method (\<open>None\<close> is
  \<open>WriteToStderr\<close>, \<open>Some p\<close> a function of the client) and its calls. \<open>date_alive\<close>: \<open>g_date\<close> is not
  null.
\<close>

record logging =
  g_log_dir :: string
  g_program_name :: "string option"
  g_program_invocation_short_name :: "string option"
  g_alsologtostderr :: bool
  g_async :: bool
  date_alive :: bool
  destinations :: "LogFile option list"
  files :: file_system
  sender :: "nat option"
  sent :: "(nat option \<times> string \<times> LogSeverity) list"

definition logging_start :: "file_system \<Rightarrow> logging" where
  "logging_start fs = \<lparr>g_log_dir = [], g_program_name = None, g_program_invocation_short_name = None,
     g_alsologtostderr = False, g_async = False, date_alive = True,
     destinations = replicate LOG_FILE_SEVERITIES None, files = fs, sender = None,
     sent = []\<rparr>"

definition send_method :: "string \<Rightarrow> LogSeverity \<Rightarrow> logging \<Rightarrow> logging" where
  "send_method msg sev g = g\<lparr>sent := sent g @ [(sender g, msg, sev)]\<rparr>"

definition SetSendMethod :: "nat \<Rightarrow> logging \<Rightarrow> logging" where
  "SetSendMethod p g = g\<lparr>sender := Some p\<rparr>"

definition WriteToStderr :: "string \<Rightarrow> LogSeverity \<Rightarrow> string \<Rightarrow> string" where
  "WriteToStderr msg sev err = err @ msg"

text \<open>What the calls of the send method have written to the standard error.\<close>

definition stderr_text :: "logging \<Rightarrow> string" where
  "stderr_text g =
     foldl (\<lambda>err (f, msg, sev). if f = None then WriteToStderr msg sev err else err) [] (sent g)"

text \<open>The part of a path after its last slash.\<close>

definition ConstShortFileName :: "string \<Rightarrow> string" where
  "ConstShortFileName filepath = rev (takeWhile (\<lambda>c. c \<noteq> CHR ''/'') (rev filepath))"

text \<open>\<open>InitLogging\<close> checks that it is called once; the two-argument form also sets the directory.\<close>

definition InitLogging :: "string option \<Rightarrow> logging \<Rightarrow> logging cxx" where
  "InitLogging argv0 g =
     (if g_program_invocation_short_name g \<noteq> None then Inl Terminated
      else let name = (case argv0 of Some a \<Rightarrow> ConstShortFileName a | None \<Rightarrow> ''logging'') in
           Inr (g\<lparr>g_program_name := Some name, g_program_invocation_short_name := Some name\<rparr>))"

definition InitLogging_dir :: "string option \<Rightarrow> string option \<Rightarrow> logging \<Rightarrow> logging cxx" where
  "InitLogging_dir argv0 log_dir g = cxx_bind (InitLogging argv0 g) (\<lambda>g.
     Inr (case log_dir of None \<Rightarrow> g | Some d \<Rightarrow> g\<lparr>g_log_dir := d\<rparr>))"

text \<open>Deleting the destinations, in order.\<close>

fun delete_loop :: "LogFile option list \<Rightarrow> LogFile option list cxx" where
  "delete_loop [] = Inr []"
| "delete_loop (Some d # ds) =
     cxx_bind (LogFile_destroy d) (\<lambda>_. cxx_bind (delete_loop ds) (\<lambda>ds. Inr (None # ds)))"
| "delete_loop (None # ds) = cxx_bind (delete_loop ds) (\<lambda>ds. Inr (None # ds))"

definition DeleteLogDestinations :: "logging \<Rightarrow> logging cxx" where
  "DeleteLogDestinations g =
     cxx_bind (delete_loop (destinations g)) (\<lambda>ds. Inr (g\<lparr>destinations := ds\<rparr>))"

text \<open>Deleting the null pointer that a second call finds in \<open>g_date\<close> is skipped.\<close>

definition ShutdownLogging :: "logging \<Rightarrow> logging cxx" where
  "ShutdownLogging g = cxx_bind (DeleteLogDestinations g) (\<lambda>g. Inr (g\<lparr>date_alive := False\<rparr>))"

section \<open>Building a message\<close>

definition kMaxLogMessageLen :: nat where
  "kMaxLogMessageLen = 1024 * 256"

record LogMessage =
  stream :: string
  severity_of :: LogSeverity

text \<open>
  \<open>LogStreamBuf\<close>: the put area ends two characters before the end of the buffer, and \<open>overflow\<close>
  swallows what does not fit.
\<close>

definition stream_put :: "LogMessage \<Rightarrow> string \<Rightarrow> LogMessage" where
  "stream_put m s = m\<lparr>stream := stream m @ take (kMaxLogMessageLen - 2 - length (stream m)) s\<rparr>"

definition pretty_date :: "DateInfo \<Rightarrow> string" where
  "pretty_date d = snprintf 22 (fmt0 2 (month d) @ fmt0 2 (day d) @ '' '' @ fmt0 2 (hour d) @ '':'' @
     fmt0 2 (minute d) @ '':'' @ fmt0 2 (second d) @ ''.'' @ fmt0 6 (usecond d))"

definition prefix_parts :: "env \<Rightarrow> nat \<Rightarrow> string \<Rightarrow> int \<Rightarrow> LogSeverity \<Rightarrow> string list" where
  "prefix_parts e tid file line sev =
     [[severity_tags ! severity_num sev], pretty_date (date e), '' '', dec_nat tid, '' '',
      ConstShortFileName file, '':'', dec_int line, '']'']"

text \<open>The constructor and \<open>Init\<close>: using \<open>g_date\<close> after \<open>ShutdownLogging\<close> is undefined.\<close>

definition LogMessage_new ::
  "env \<Rightarrow> nat \<Rightarrow> string \<Rightarrow> int \<Rightarrow> LogSeverity \<Rightarrow> logging \<Rightarrow> LogMessage cxx" where
  "LogMessage_new e tid file line sev g =
     (if date_alive g
      then Inr (foldl stream_put \<lparr>stream = [], severity_of = sev\<rparr> (prefix_parts e tid file line sev))
      else Inl Undefined_Behaviour)"

text \<open>What \<open>Flush\<close> sends: the text with a newline, added if it is missing.\<close>

definition message_output :: "LogMessage \<Rightarrow> string" where
  "message_output m = (if last (stream m) \<noteq> newline then stream m @ [newline] else stream m)"

definition overflow_warning :: "DateInfo \<Rightarrow> string" where
  "overflow_warning d = snprintf 100 (''......'' @ [newline] @ ''W'' @ fmt0 2 (month d) @ fmt0 2 (day d) @
     '' '' @ fmt0 2 (hour d) @ '':'' @ fmt0 2 (minute d) @ '':'' @ fmt0 2 (second d) @
     '' WARNING (logging.cc:231) data exceed out buffer range.'' @ [newline])"

text \<open>The part of \<open>Flush\<close> under the lock, and all of it; an empty message is read before its start.\<close>

definition flush_locked :: "env \<Rightarrow> LogMessage \<Rightarrow> logging \<Rightarrow> logging cxx" where
  "flush_locked e m g =
     (if g_async g then Inr (send_method (message_output m) (severity_of m) g)
      else cxx_bind
        (case g_program_name g of
           Some program \<Rightarrow>
             if g_log_dir g \<noteq> [] then
               cxx_bind (write_destinations (new_destination (g_log_dir g) program e) (LogFile_Write e)
                   LogFile_Flush (message_output m) [0..<Suc (GetLogFileSeverityIndex (severity_of m))]
                   (files g, destinations g)) (\<lambda>(fs, ds).
               Inr (g\<lparr>files := fs, destinations := ds\<rparr>))
             else Inr g
         | None \<Rightarrow> Inr g) (\<lambda>g.
        Inr (if g_log_dir g = [] \<or> g_alsologtostderr g then send_method (message_output m) INFO g else g)))"

definition Flush :: "env \<Rightarrow> LogMessage \<Rightarrow> logging \<Rightarrow> logging cxx" where
  "Flush e m g =
     (if stream m = [] then Inl Undefined_Behaviour
      else cxx_bind (flush_locked e m g) (\<lambda>g.
        Inr (if length (message_output m) > kMaxLogMessageLen - 10
             then send_method (overflow_warning (date e)) (severity_of m) g else g)))"

text \<open>
  A fatal message: the destructor of \<open>LogMessageFatal\<close> throws, which terminates. Whether the base
  class's destructor, which flushes the message, runs before that depends on whether the
  implementation unwinds the stack.
\<close>

definition fatal_statement ::
  "bool \<Rightarrow> env \<Rightarrow> nat \<Rightarrow> string \<Rightarrow> int \<Rightarrow> string list \<Rightarrow> logging \<Rightarrow> logging \<times> unit cxx" where
  "fatal_statement unwinds e tid file line parts g =
     (case LogMessage_new e tid file line FATAL g of
        Inl err \<Rightarrow> (g, Inl err)
      | Inr m \<Rightarrow>
          if unwinds then (case Flush e (foldl stream_put m parts) g of
             Inl err \<Rightarrow> (g, Inl err) | Inr g' \<Rightarrow> (g', Inl Terminated))
          else (g, Inl Terminated))"

definition LOG_FATAL ::
  "bool \<Rightarrow> env \<Rightarrow> nat \<Rightarrow> string \<Rightarrow> int \<Rightarrow> string list \<Rightarrow> logging \<Rightarrow> logging \<times> unit cxx" where
  "LOG_FATAL unwinds e tid file line parts g = fatal_statement unwinds e tid file line ('' '' # parts) g"

text \<open>
  A statement LOG(severity) << part << ...: built, and flushed by the destructor; LOG(FATAL) makes a
  \<open>LogMessageFatal\<close> and never returns.
\<close>

definition log_statement ::
  "env \<Rightarrow> nat \<Rightarrow> string \<Rightarrow> int \<Rightarrow> LogSeverity \<Rightarrow> string list \<Rightarrow> logging \<Rightarrow> logging cxx" where
  "log_statement e tid file line sev parts g =
     (if sev = FATAL
      then case LOG_FATAL (unwinds_stack e) e tid file line parts g of
        (_, Inl err) \<Rightarrow> Inl err | (g', Inr _) \<Rightarrow> Inr g'
      else cxx_bind (LogMessage_new e tid file line sev g) (\<lambda>m.
        Flush e (foldl stream_put (stream_put m '' '') parts) g))"

text \<open>CHECK(x), and CHECK_EQ and the other comparisons, which also print their operands.\<close>

definition check ::
  "bool \<Rightarrow> env \<Rightarrow> nat \<Rightarrow> string \<Rightarrow> int \<Rightarrow> string \<Rightarrow> bool \<Rightarrow> logging \<Rightarrow> logging \<times> unit cxx" where
  "check unwinds e tid file line expr x g =
     (if \<not> x then fatal_statement unwinds e tid file line ['' Check failed: '' @ expr, '' ''] g
      else (g, Inr ()))"

definition LogCheck :: "('a \<Rightarrow> 'a \<Rightarrow> bool) \<Rightarrow> ('a \<Rightarrow> string) \<Rightarrow> 'a \<Rightarrow> 'a \<Rightarrow> string option" where
  "LogCheck rel pr t1 t2 =
     (if rel t1 t2 then None else Some ('' ('' @ pr t1 @ '' vs. '' @ pr t2 @ '') ''))"

definition check_op ::
  "bool \<Rightarrow> env \<Rightarrow> nat \<Rightarrow> string \<Rightarrow> int \<Rightarrow> string \<Rightarrow> ('a \<Rightarrow> 'a \<Rightarrow> bool) \<Rightarrow> ('a \<Rightarrow> string) \<Rightarrow> 'a \<Rightarrow> 'a \<Rightarrow>
   logging \<Rightarrow> logging \<times> unit cxx" where
  "check_op unwinds e tid file line expr rel pr c1 c2 g =
     (case LogCheck rel pr c1 c2 of
        None \<Rightarrow> (g, Inr ())
      | Some str \<Rightarrow> fatal_statement unwinds e tid file line ['' Check failed: '', expr, str] g)"

text \<open>
  CHECK_NOTNULL(x): the value of the expression is the pointer, which is null only after a fatal
  message; DCHECK(x) and DCHECK_EQ and the like are CHECK on the comparison, with and without
  NDEBUG.
\<close>

definition CHECK_NOTNULL ::
  "bool \<Rightarrow> env \<Rightarrow> nat \<Rightarrow> string \<Rightarrow> int \<Rightarrow> string \<Rightarrow> 'a option \<Rightarrow> logging \<Rightarrow> logging \<times> 'a cxx" where
  "CHECK_NOTNULL unwinds e tid file line expr x g =
     (case x of
        Some p \<Rightarrow> (g, Inr p)
      | None \<Rightarrow> (case fatal_statement unwinds e tid file line ['' Check notnull: '' @ expr, '' ''] g of
           (g', Inl err) \<Rightarrow> (g', Inl err) | (g', Inr _) \<Rightarrow> (g', Inl Undefined_Behaviour)))"

definition DCHECK_op ::
  "bool \<Rightarrow> env \<Rightarrow> nat \<Rightarrow> string \<Rightarrow> int \<Rightarrow> string \<Rightarrow> ('a \<Rightarrow> 'a \<Rightarrow> bool) \<Rightarrow> 'a \<Rightarrow> 'a \<Rightarrow> logging \<Rightarrow>
   logging \<times> unit cxx" where
  "DCHECK_op unwinds e tid file line expr rel c1 c2 g = check unwinds e tid file line expr (rel c1 c2) g"

text \<open>
  The other forms of LOG: VLOG, which ignores its level, and DLOG, which does nothing and
  does not evaluate its operands when NDEBUG is defined.
\<close>

definition VLOG ::
  "'x \<Rightarrow> env \<Rightarrow> nat \<Rightarrow> string \<Rightarrow> int \<Rightarrow> string list \<Rightarrow> logging \<Rightarrow> logging cxx" where
  "VLOG x e tid file line parts g = log_statement e tid file line INFO parts g"

definition DLOG ::
  "bool \<Rightarrow> env \<Rightarrow> nat \<Rightarrow> string \<Rightarrow> int \<Rightarrow> LogSeverity \<Rightarrow> string list \<Rightarrow> logging \<Rightarrow> logging cxx" where
  "DLOG ndebug e tid file line sev parts g =
     (if ndebug then Inr g else log_statement e tid file line sev parts g)"

lemma fatal_never_returns: "snd (fatal_statement unwinds e tid file line parts g) \<noteq> Inr ()"
  by (auto simp: fatal_statement_def split: sum.split)

lemma LOG_FATAL_never_returns: "log_statement e tid file line FATAL parts g \<noteq> Inr g'"
  using fatal_never_returns [of "unwinds_stack e" e tid "file" line "'' '' # parts" g]
  by (auto simp: log_statement_def LOG_FATAL_def split: prod.split sum.split)

text \<open>A check returns exactly when its condition holds, and then changes nothing.\<close>

lemma checks_pass_iff:
  "snd (check unwinds e tid file line expr x g) = Inr () \<longleftrightarrow> x"
  "snd (check_op unwinds e tid file line expr rel pr c1 c2 g) = Inr () \<longleftrightarrow> rel c1 c2"
  "snd (CHECK_NOTNULL unwinds e tid file line expr p g) = Inr q \<longleftrightarrow> p = Some q"
  using fatal_never_returns
  by (auto simp: check_def check_op_def LogCheck_def CHECK_NOTNULL_def split: option.split sum.split prod.split)

section \<open>The text of a message\<close>

lemma stream_put_take:
  "length (stream m) \<le> kMaxLogMessageLen - 2 \<Longrightarrow>
    stream (stream_put m s) = take (kMaxLogMessageLen - 2) (stream m @ s)"
  by (simp add: stream_put_def)

lemma stream_put_length:
  "length (stream m) \<le> kMaxLogMessageLen - 2 \<Longrightarrow>
    length (stream (stream_put m s)) \<le> kMaxLogMessageLen - 2"
  by (simp add: stream_put_take)

lemma foldl_stream_put:
  "length (stream m) \<le> kMaxLogMessageLen - 2 \<Longrightarrow>
    stream (foldl stream_put m ss) = take (kMaxLogMessageLen - 2) (stream m @ concat ss)
    \<and> severity_of (foldl stream_put m ss) = severity_of m"
proof (induction ss arbitrary: m)
  case (Cons s ss)
  have sev: "severity_of (stream_put m s) = severity_of m" by (simp add: stream_put_def)
  have "take n (take n xs @ ys) = take n (xs @ ys)" for n and xs ys :: string
    by (cases "length xs \<le> n") simp_all
  with Cons.IH [OF stream_put_length [OF Cons.prems]] sev show ?case
    by (simp add: stream_put_take [OF Cons.prems] del: take_append)
qed simp

text \<open>The message of a LOG statement before it is flushed.\<close>

definition statement_message ::
  "env \<Rightarrow> nat \<Rightarrow> string \<Rightarrow> int \<Rightarrow> LogSeverity \<Rightarrow> string list \<Rightarrow> LogMessage" where
  "statement_message e tid file line sev parts =
     foldl stream_put \<lparr>stream = [], severity_of = sev\<rparr> (prefix_parts e tid file line sev @ '' '' # parts)"

lemma log_statement_eq:
  "date_alive g \<Longrightarrow> sev \<noteq> FATAL \<Longrightarrow> log_statement e tid file line sev parts g =
    Flush e (statement_message e tid file line sev parts) g"
  by (simp add: log_statement_def LogMessage_new_def statement_message_def)

lemma statement_text:
  "stream (statement_message e tid file line sev parts) =
     take (kMaxLogMessageLen - 2) (concat (prefix_parts e tid file line sev) @ '' '' @ concat parts)"
  "severity_of (statement_message e tid file line sev parts) = sev"
proof -
  note f = foldl_stream_put [of "\<lparr>stream = [], severity_of = sev\<rparr>"
      "prefix_parts e tid file line sev @ '' '' # parts"]
  show "stream (statement_message e tid file line sev parts) =
     take (kMaxLogMessageLen - 2) (concat (prefix_parts e tid file line sev) @ '' '' @ concat parts)"
    unfolding statement_message_def using f by (simp del: foldl_append take_append)
  show "severity_of (statement_message e tid file line sev parts) = sev"
    unfolding statement_message_def using f by (simp del: foldl_append take_append)
qed

lemma statement_nonempty: "stream (statement_message e tid file line sev parts) \<noteq> []"
  by (simp add: statement_text prefix_parts_def kMaxLogMessageLen_def)

text \<open>
  What a LOG statement sends is its formatted text, cut to the 262142 characters of the stream
  buffer, with exactly one newline added if it does not end in one; with the newline it still fits
  the message's array, and it is never empty.
\<close>

lemma log_statement_text:
  "let full = concat (prefix_parts e tid file line sev) @ '' '' @ concat parts;
       out = message_output (statement_message e tid file line sev parts)
   in out = (if last (take 262142 full) \<noteq> newline then take 262142 full @ [newline] else take 262142 full)
      \<and> last out = newline \<and> length out \<le> 262143 \<and> length out < kMaxLogMessageLen + 1"
proof -
  let ?full = "concat (prefix_parts e tid file line sev) @ '' '' @ concat parts"
  have k: "kMaxLogMessageLen - 2 = 262142" "kMaxLogMessageLen + 1 = 262145"
    by (simp_all add: kMaxLogMessageLen_def)
  have len: "length (take 262142 ?full) \<le> 262142" unfolding length_take by simp
  show ?thesis
    using len unfolding Let_def message_output_def statement_text k by simp
qed

lemma log_statement_text_facts:
  "message_output (statement_message e tid file line sev parts) \<noteq> []"
  "length (message_output (statement_message e tid file line sev parts)) \<le> 262143"
proof -
  show "message_output (statement_message e tid file line sev parts) \<noteq> []"
    using statement_nonempty [of e tid "file" line sev parts] by (simp add: message_output_def)
  have "length (stream (statement_message e tid file line sev parts)) \<le> 262142"
    unfolding statement_text length_take kMaxLogMessageLen_def by simp
  then show "length (message_output (statement_message e tid file line sev parts)) \<le> 262143"
    by (simp add: message_output_def)
qed

section \<open>Where a message goes\<close>

definition destinations_ok :: "logging \<Rightarrow> bool" where
  "destinations_ok g \<longleftrightarrow> length (destinations g) = LOG_FILE_SEVERITIES
     \<and> (\<forall>i < LOG_FILE_SEVERITIES. \<forall>d. destinations g ! i = Some d \<longrightarrow> logfile_inv d)"

text \<open>
  C20. With an existing log directory and no asynchronous logger, a LOG statement that is not LOG(FATAL)
  (which ends the program) never fails: its output
  is written to the log file of its severity and to those of the lower classes, which are made if
  they do not exist yet, the files of the higher classes are left alone, and the send method gets
  the output only with \<open>g_alsologtostderr\<close>, and a warning only if the message was nearly too long.
\<close>

theorem log_statement_routes:
  assumes e: "env_ok e" and g: "date_alive g" "\<not> g_async g" "g_log_dir g \<noteq> []" "g_program_name g = Some p"
      "dirs (files g) (g_log_dir g)"
    and inv: "destinations_ok g" and sev: "sev \<noteq> FATAL"
    and out: "out = message_output (statement_message e tid file line sev parts)"
  shows "\<exists>g'. log_statement e tid file line sev parts g = Inr g' \<and> destinations_ok g'
    \<and> (\<forall>k \<le> GetLogFileSeverityIndex sev. destinations g' ! k \<noteq> None \<and>
         (\<forall>d f. destinations g ! k = Some d \<longrightarrow> log_target d = Some f \<longrightarrow> f < next_file (files g) \<longrightarrow>
            (\<exists>s t. data (files g') f = data (files g) f @ s @ out @ t)))
    \<and> (\<forall>k > GetLogFileSeverityIndex sev. destinations g' ! k = destinations g ! k)
    \<and> sent g' = sent g @ (if g_alsologtostderr g then [(sender g, out, INFO)] else []) @
        (if length out > kMaxLogMessageLen - 10 then [(sender g, overflow_warning (date e), sev)] else [])"
proof -
  have o: "out \<noteq> []" "length out < 2 ^ 31"
    using log_statement_text_facts [of e tid "file" line sev parts] by (auto simp: out)
  have s: "log_files.sinks_inv (destinations g)"
    using inv by (simp add: log_files.sinks_inv_def destinations_ok_def)
  define ks where "ks = [0..<Suc (GetLogFileSeverityIndex sev)]"
  have ks: "k \<in> set ks \<longleftrightarrow> k \<le> GetLogFileSeverityIndex sev" for k by (auto simp: ks_def)
  have i: "set ks \<subseteq> {..<length (destinations g)}" "distinct ks"
    using inv severity_index_less [of sev] by (auto simp: destinations_ok_def ks_def)
  obtain fs ds where w: "write_destinations (new_destination (g_log_dir g) p e) (LogFile_Write e) LogFile_Flush
        out ks (files g, destinations g) = Inr (fs, ds)"
      "log_files.sinks_inv ds" "length ds = length (destinations g)"
      "\<And>k. k \<notin> set ks \<Longrightarrow> ds ! k = destinations g ! k" "\<And>k. k \<in> set ks \<Longrightarrow> ds ! k \<noteq> None"
      "\<And>k d f. k \<in> set ks \<Longrightarrow> destinations g ! k = Some d \<Longrightarrow>
         log_target d = Some f \<Longrightarrow> f < next_file (files g) \<Longrightarrow> log_files.delivered out (files g) fs f"
    using log_files.write_destinations_ok [OF e o s i g(5), of p] by blast
  define g1 where "g1 = g\<lparr>files := fs, destinations := ds\<rparr>"
  define g2 where "g2 = (if g_alsologtostderr g then send_method out INFO g1 else g1)"
  define g3 where "g3 = (if length out > kMaxLogMessageLen - 10
    then send_method (overflow_warning (date e)) sev g2 else g2)"
  have "log_statement e tid file line sev parts g = Inr g3"
    using g w(1) sev statement_nonempty [of e tid "file" line sev parts]
    by (simp add: log_statement_eq Flush_def flush_locked_def statement_text(2) g3_def g2_def g1_def
        del: upt_Suc flip: out ks_def)
  moreover have "destinations g3 = ds" "files g3 = fs"
    by (simp_all add: g3_def g2_def g1_def send_method_def)
  moreover have "destinations_ok g3"
    using w(2,3) inv calculation(2) by (simp add: destinations_ok_def log_files.sinks_inv_def)
  moreover have "sent g3 = sent g @ (if g_alsologtostderr g then [(sender g, out, INFO)] else []) @
      (if length out > kMaxLogMessageLen - 10 then [(sender g, overflow_warning (date e), sev)] else [])"
    by (simp add: g3_def g2_def g1_def send_method_def)
  ultimately show ?thesis
    using w(4-6) unfolding ks log_files.delivered_def by (auto simp: not_le)
qed

text \<open>With the asynchronous logger every message goes to the send method, with its severity.\<close>

lemma log_statement_async:
  assumes "date_alive g" "g_async g" "sev \<noteq> FATAL"
    and "out = message_output (statement_message e tid file line sev parts)"
  shows "\<exists>g'. log_statement e tid file line sev parts g = Inr g'
    \<and> sent g' = sent g @ [(sender g, out, sev)] @
        (if length out > kMaxLogMessageLen - 10 then [(sender g, overflow_warning (date e), sev)] else [])
    \<and> files g' = files g \<and> destinations g' = destinations g"
  using assms statement_nonempty [of e tid "file" line sev parts]
  by (simp add: log_statement_eq Flush_def flush_locked_def statement_text(2) send_method_def)

text \<open>
  Without any initialisation the statements go to the standard error, one after the other; a
  nearly full buffer also gets a warning.
\<close>

definition stderr_ready :: "logging \<Rightarrow> bool" where
  "stderr_ready g \<longleftrightarrow> date_alive g \<and> \<not> g_async g \<and> g_log_dir g = [] \<and> sender g = None"

lemma stderr_text_snoc:
  "sent g' = sent g @ map (\<lambda>(msg, sev). (None, msg, sev)) ms \<Longrightarrow>
    stderr_text g' = stderr_text g @ concat (map fst ms)"
proof -
  have "foldl (\<lambda>err (f, msg, sev). if f = None then WriteToStderr msg sev err else err) err
      (map (\<lambda>(msg, sev). (None, msg, sev)) ms) = err @ concat (map fst ms)" for err
    by (induction ms arbitrary: err) (auto simp: WriteToStderr_def)
  then show "sent g' = sent g @ map (\<lambda>(msg, sev). (None, msg, sev)) ms \<Longrightarrow>
      stderr_text g' = stderr_text g @ concat (map fst ms)"
    by (simp add: stderr_text_def)
qed

lemma log_to_stderr:
  assumes "stderr_ready g" "sev \<noteq> FATAL" and out: "out = message_output (statement_message e tid file line sev parts)"
  shows "\<exists>g'. log_statement e tid file line sev parts g = Inr g' \<and> stderr_ready g'
    \<and> files g' = files g
    \<and> stderr_text g' = stderr_text g @ out @
        (if length out > kMaxLogMessageLen - 10 then overflow_warning (date e) else [])"
proof -
  define ms where "ms = (out, INFO) #
    (if length out > kMaxLogMessageLen - 10 then [(overflow_warning (date e), sev)] else [])"
  define g' where "g' = g\<lparr>sent := sent g @ map (\<lambda>(msg, sev). (None, msg, sev)) ms\<rparr>"
  have "log_statement e tid file line sev parts g = Inr g'"
    using assms(1,2) statement_nonempty [of e tid "file" line sev parts]
    by (auto simp: stderr_ready_def log_statement_eq Flush_def flush_locked_def statement_text(2)
        send_method_def ms_def g'_def split: option.split simp flip: out)
  moreover have "stderr_text g' = stderr_text g @ concat (map fst ms)"
    by (rule stderr_text_snoc) (simp add: g'_def)
  ultimately show ?thesis using assms(1) by (simp add: g'_def stderr_ready_def ms_def)
qed

text \<open>
  A sequence of statements: the thread that executes each, what it reads from outside, and where it
  stands.
\<close>

type_synonym statement = "env \<times> nat \<times> string \<times> int \<times> LogSeverity \<times> string list"

fun log_statements :: "statement list \<Rightarrow> logging \<Rightarrow> logging cxx" where
  "log_statements [] g = Inr g"
| "log_statements ((e, tid, f, line, sev, parts) # xs) g =
     cxx_bind (log_statement e tid f line sev parts g) (log_statements xs)"

definition statement_output :: "statement \<Rightarrow> string" where
  "statement_output = (\<lambda>(e, tid, f, line, sev, parts). message_output (statement_message e tid f line sev parts))"

definition not_fatal :: "statement \<Rightarrow> bool" where
  "not_fatal = (\<lambda>(e, tid, f, line, sev, parts). sev \<noteq> FATAL)"

text \<open>A program that never initialises logging: its statements appear on the standard error in order.\<close>

lemma log_statements_to_stderr:
  "stderr_ready g \<Longrightarrow> list_all (\<lambda>x. not_fatal x \<and> length (statement_output x) \<le> kMaxLogMessageLen - 10) xs \<Longrightarrow>
    \<exists>g'. log_statements xs g = Inr g' \<and> stderr_ready g' \<and> files g' = files g
      \<and> stderr_text g' = stderr_text g @ concat (map statement_output xs)"
proof (induction xs g rule: log_statements.induct)
  case (2 e tid f line sev parts xs g)
  obtain g1 where 1: "log_statement e tid f line sev parts g = Inr g1" "stderr_ready g1" "files g1 = files g"
      "stderr_text g1 = stderr_text g @ statement_output (e, tid, f, line, sev, parts)"
    using log_to_stderr [OF 2(2) _ refl, of sev e tid f line parts] 2(3)
    by (auto simp: statement_output_def not_fatal_def)
  with 2(1) [OF 1(2)] 2(3) show ?case by auto
qed simp

section \<open>The end of logging\<close>

lemma delete_loop_ok:
  "list_all (\<lambda>d. case d of None \<Rightarrow> True | Some lf \<Rightarrow> logfile_inv lf) ds \<Longrightarrow>
    delete_loop ds = Inr (map (\<lambda>_. None) ds)"
  by (induction ds rule: delete_loop.induct) (simp_all add: LogFile_destroy_ok)


section \<open>A concrete message\<close>

definition example_logging :: logging where
  "example_logging = (logging_start example_fs)\<lparr>g_log_dir := ''log'', g_program_name := Some ''prog'',
     destinations := [Some example_log, None, None]\<rparr>"

lemma example_destinations_ok: "destinations_ok example_logging"
  by (auto simp: destinations_ok_def example_logging_def LOG_FILE_SEVERITIES_def nth_Cons split: nat.splits)
    (simp add: example_log_simps)

lemma log_statement_routes_witness:
  "\<exists>g' s t. log_statement example_env 7 ''src/a.cc'' 12 WARN [''hello''] example_logging = Inr g'
     \<and> data (files g') 0 = ''old'' @ s @
          message_output (statement_message example_env 7 ''src/a.cc'' 12 WARN [''hello'']) @ t
     \<and> destinations g' ! 1 \<noteq> None \<and> destinations g' ! 2 = None"
proof -
  note d = example_destinations_ok
  have l: "log_target example_log = Some 0" "env_ok example_env"
    by (simp_all add: log_target_def example_log_simps)
  let ?out = "message_output (statement_message example_env 7 ''src/a.cc'' 12 WARN [''hello''])"
  from log_statement_routes [OF l(2) _ _ _ _ _ d _ refl, of "''prog''" WARN 7 "''src/a.cc''" 12 "[''hello'']"]
  obtain g' where g': "log_statement example_env 7 ''src/a.cc'' 12 WARN [''hello''] example_logging = Inr g'"
      "\<forall>k \<le> 1. destinations g' ! k \<noteq> None \<and>
         (\<forall>d f. destinations example_logging ! k = Some d \<longrightarrow> log_target d = Some f \<longrightarrow>
            f < next_file (files example_logging) \<longrightarrow>
            (\<exists>s t. data (files g') f = data (files example_logging) f @ s @ ?out @ t))"
      "\<forall>k > 1. destinations g' ! k = destinations example_logging ! k"
    by (auto simp: example_logging_def logging_start_def example_fs_def)
  have x: "destinations example_logging ! 0 = Some example_log" "destinations example_logging ! 2 = None"
    "0 < next_file (files example_logging)" "data (files example_logging) 0 = ''old''"
    by (simp_all add: example_logging_def logging_start_def example_fs_def)
  obtain s t where "data (files g') 0 = ''old'' @ s @ ?out @ t"
    using g'(2) x l(1) by (metis le0)
  with g'(1) spec [OF g'(2), of 1] spec [OF g'(3), of 2] x(2) show ?thesis by auto
qed


end
