(* ===== verification/Log_Buffer.thy ===== *)
theory Log_Buffer
  imports Log_Message
begin

text \<open>
  The memory of a log message: base/logging.h and base/logging.cc at the level of the characters.
  \<open>LogMessage\<close> formats into an array through a stream buffer of its own (\<open>LogStreamBuf\<close>), and \<open>Flush\<close>
  puts a newline into that array and takes it out again. Log_Message describes the same by the
  text alone (\<open>stream_put\<close>, \<open>message_output\<close>); it is shown that the memory implements it.
\<close>

section \<open>The stream buffer\<close>

text \<open>
  The array and the pointers of the put area as positions in it. The standard library's \<open>sputc\<close> stores
  at \<open>pptr\<close> while that is below \<open>epptr\<close>, and otherwise calls \<open>overflow\<close>; inserting a string puts its
  characters one after the other. An access outside the array is undefined.
\<close>

record LogStreamBuf =
  message_text :: string
  pptr :: int
  epptr :: int

definition load :: "int \<Rightarrow> LogStreamBuf \<Rightarrow> char cxx" where
  "load i b = (if 0 \<le> i \<and> nat i < length (message_text b) then Inr (message_text b ! nat i)
     else Inl Undefined_Behaviour)"

definition store :: "int \<Rightarrow> char \<Rightarrow> LogStreamBuf \<Rightarrow> LogStreamBuf cxx" where
  "store i c b = (if 0 \<le> i \<and> nat i < length (message_text b)
     then Inr (b\<lparr>message_text := (message_text b)[nat i := c]\<rparr>) else Inl Undefined_Behaviour)"

text \<open>The constructor's \<open>setp(buf, buf + len - 2)\<close>, \<open>reset\<close>, \<open>overflow\<close> and \<open>pcount\<close>.\<close>

definition LogStreamBuf_new :: "string \<Rightarrow> int \<Rightarrow> LogStreamBuf" where
  "LogStreamBuf_new buf len = \<lparr>message_text = buf, pptr = 0, epptr = len - 2\<rparr>"

definition buf_reset :: "LogStreamBuf \<Rightarrow> LogStreamBuf" where
  "buf_reset b = b\<lparr>pptr := 0\<rparr>"

definition overflow :: "char \<Rightarrow> LogStreamBuf \<Rightarrow> LogStreamBuf \<times> char" where
  "overflow ch b = (b, ch)"

definition pcount :: "LogStreamBuf \<Rightarrow> int" where
  "pcount b = pptr b"

definition sputc :: "char \<Rightarrow> LogStreamBuf \<Rightarrow> LogStreamBuf cxx" where
  "sputc c b =
     (if pptr b < epptr b then cxx_bind (store (pptr b) c b) (\<lambda>b. Inr (b\<lparr>pptr := pptr b + 1\<rparr>))
      else Inr (fst (overflow c b)))"

fun sputn :: "string \<Rightarrow> LogStreamBuf \<Rightarrow> LogStreamBuf cxx" where
  "sputn [] b = Inr b"
| "sputn (c # cs) b = cxx_bind (sputc c b) (sputn cs)"

text \<open>
  \<open>LogMessageData\<close>: an array of \<open>kMaxLogMessageLen + 1\<close> characters, not initialised, of which the
  stream gets \<open>kMaxLogMessageLen\<close>. A \<open>NullStream\<close> has two characters and tells the stream it has none.
\<close>

definition LogMessageData_new :: "string \<Rightarrow> LogStreamBuf" where
  "LogMessageData_new garbage = LogStreamBuf_new garbage (int kMaxLogMessageLen)"

definition NullStream_new :: "string \<Rightarrow> LogStreamBuf" where
  "NullStream_new garbage = LogStreamBuf_new garbage 0"

text \<open>Inserting values into a message, one part after the other; a \<open>NullStream\<close> ignores them.\<close>

fun insert_parts :: "string list \<Rightarrow> LogStreamBuf \<Rightarrow> LogStreamBuf cxx" where
  "insert_parts [] b = Inr b"
| "insert_parts (p # ps) b = cxx_bind (sputn p b) (insert_parts ps)"

definition NullStream_insert :: "LogStreamBuf \<Rightarrow> 'a \<Rightarrow> LogStreamBuf" where
  "NullStream_insert b t = b"

text \<open>
  \<open>Flush\<close> on the array: what is handed on (to the log files or the send method), and the array
  afterwards.
\<close>

definition flush_buffer :: "LogStreamBuf \<Rightarrow> (string \<times> LogStreamBuf) cxx" where
  "flush_buffer b =
     (let num_chars_to_log = pcount b in
      cxx_bind (load (num_chars_to_log - 1) b) (\<lambda>last_char.
      let append_newline = (last_char \<noteq> newline) in
      cxx_bind
        (if append_newline then
           cxx_bind (load num_chars_to_log b) (\<lambda>original_final_char.
           cxx_bind (store num_chars_to_log newline b) (\<lambda>b.
             Inr (original_final_char, num_chars_to_log + 1, b)))
         else Inr (NUL, num_chars_to_log, b)) (\<lambda>(original_final_char, num_chars_to_log, b).
      let msg = take (nat num_chars_to_log) (message_text b) in
      cxx_bind
        (if append_newline then store (num_chars_to_log - 1) original_final_char b else Inr b) (\<lambda>b.
      Inr (msg, b)))))"

section \<open>The memory implements the text\<close>

text \<open>
  \<open>buffer_of m b\<close>: the array holds the text of \<open>m\<close> before \<open>pptr\<close>, and the put area ends three
  characters before the end of the array.
\<close>

definition buffer_of :: "LogMessage \<Rightarrow> LogStreamBuf \<Rightarrow> bool" where
  "buffer_of m b \<longleftrightarrow> length (message_text b) = kMaxLogMessageLen + 1
     \<and> epptr b = int kMaxLogMessageLen - 2 \<and> pptr b = int (length (stream m)) \<and> pptr b \<le> epptr b
     \<and> take (length (stream m)) (message_text b) = stream m"

lemma buffer_new:
  "length garbage = kMaxLogMessageLen + 1 \<Longrightarrow>
    buffer_of \<lparr>stream = [], severity_of = sev\<rparr> (LogMessageData_new garbage)"
  by (simp add: buffer_of_def LogMessageData_new_def LogStreamBuf_new_def kMaxLogMessageLen_def)

lemma stream_put_Cons: "stream_put m (c # cs) = stream_put (stream_put m [c]) cs"
proof (cases "kMaxLogMessageLen - 2 - length (stream m)")
  case (Suc n)
  then have "kMaxLogMessageLen - 2 - Suc (length (stream m)) = n" by simp
  with Suc show ?thesis by (simp add: stream_put_def)
qed (simp add: stream_put_def)

lemma sputc_stream_put:
  assumes "buffer_of m b"
  shows "\<exists>b'. sputc c b = Inr b' \<and> buffer_of (stream_put m [c]) b'"
proof (cases "pptr b < epptr b")
  case True
  define n where "n = length (stream m)"
  have n: "n < kMaxLogMessageLen - 2" "pptr b = int n" "n < length (message_text b)"
    using True assms by (auto simp: buffer_of_def n_def)
  then have put: "stream_put m [c] = m\<lparr>stream := stream m @ [c]\<rparr>"
    by (cases "kMaxLogMessageLen - 2 - length (stream m)") (simp_all add: stream_put_def n_def)
  define b' where "b' = b\<lparr>message_text := (message_text b)[n := c], pptr := int n + 1\<rparr>"
  have "sputc c b = Inr b'"
    using True n by (simp add: sputc_def store_def b'_def)
  moreover have "take (Suc n) ((message_text b)[n := c]) = stream m @ [c]"
    using assms n(3) by (simp add: buffer_of_def take_Suc_conv_app_nth n_def)
  then have "buffer_of (stream_put m [c]) b'"
    using assms n by (simp add: put buffer_of_def b'_def flip: n_def)
  ultimately show ?thesis by blast
next
  case False
  with assms have "stream_put m [c] = m"
    by (simp add: buffer_of_def stream_put_def)
  with False assms show ?thesis by (simp add: sputc_def overflow_def)
qed

lemma sputn_stream_put:
  "buffer_of m b \<Longrightarrow> \<exists>b'. sputn s b = Inr b' \<and> buffer_of (stream_put m s) b'"
proof (induction s arbitrary: m b)
  case Nil
  then show ?case by (simp add: stream_put_def)
next
  case (Cons c cs)
  from sputc_stream_put [OF Cons.prems, of c] obtain b1 where
    "sputc c b = Inr b1" "buffer_of (stream_put m [c]) b1" by blast
  with Cons.IH show ?case by (simp add: stream_put_Cons [of m c cs])
qed

lemma insert_parts_stream_put:
  "buffer_of m b \<Longrightarrow> \<exists>b'. insert_parts ps b = Inr b' \<and> buffer_of (foldl stream_put m ps) b'"
proof (induction ps arbitrary: m b)
  case (Cons p ps)
  from sputn_stream_put [OF Cons.prems, of p] obtain b1 where
    "sputn p b = Inr b1" "buffer_of (stream_put m p) b1" by blast
  with Cons.IH show ?case by simp
qed simp

lemma flush_buffer_output:
  assumes "buffer_of m b" "stream m \<noteq> []"
  shows "flush_buffer b = Inr (message_output m, b)"
proof -
  define n where "n = length (stream m)"
  have n: "0 < n" "n < length (message_text b)" "pptr b = int n" "take n (message_text b) = stream m"
    using assms by (auto simp: buffer_of_def n_def)
  have "nat (int n - 1) = n - 1" "0 \<le> int n - 1" using n(1) by simp_all
  moreover have "last (take n (message_text b)) = message_text b ! (n - 1)"
    using n(1,2) by (subst last_conv_nth) auto
  then have "message_text b ! (n - 1) = last (stream m)" by (simp add: n(4))
  ultimately have l: "load (int n - 1) b = Inr (last (stream m))"
    using n(2) by (simp add: load_def)
  have t: "take (Suc n) ((message_text b)[n := newline]) = stream m @ [newline]"
    using n by (simp add: take_Suc_conv_app_nth)
  show ?thesis
  proof (cases "last (stream m) = newline")
    case True
    then show ?thesis
      unfolding flush_buffer_def pcount_def Let_def n(3) l by (simp add: n(4) message_output_def)
  next
    case False
    have ld: "load (int n) b = Inr (message_text b ! n)" using n(2) by (simp add: load_def)
    define b1 where "b1 = b\<lparr>message_text := (message_text b)[n := newline]\<rparr>"
    have st: "store (int n) newline b = Inr b1" using n(2) by (simp add: store_def b1_def)
    have "store (int n) (message_text b ! n) b1 = Inr b" using n(2) by (simp add: store_def b1_def)
    moreover have "nat (int n + 1) = Suc n" by simp
    moreover have "take (Suc n) (message_text b1) = stream m @ [newline]" using t by (simp add: b1_def)
    ultimately show ?thesis
      using False unfolding flush_buffer_def pcount_def Let_def n(3) l
      by (simp add: ld st message_output_def del: take_Suc)
  qed
qed

text \<open>
  C15. The memory of log messages is safe and does what the text says: for every statement, however
  much is inserted and whatever the uninitialised array held, no character is read or written
  outside the array of the message, \<open>Flush\<close> hands on exactly the statement's text (cut to the put
  area, with its newline), and it leaves the array as it found it.
\<close>

theorem log_buffer_safe:
  assumes "length garbage = kMaxLogMessageLen + 1"
  shows "\<exists>b. insert_parts (prefix_parts e tid file line sev @ '' '' # parts) (LogMessageData_new garbage) = Inr b
    \<and> pcount b \<le> int kMaxLogMessageLen - 2
    \<and> flush_buffer b = Inr (message_output (statement_message e tid file line sev parts), b)"
proof -
  from insert_parts_stream_put [OF buffer_new [OF assms], of "prefix_parts e tid file line sev @ '' '' # parts" sev]
  obtain b where b: "insert_parts (prefix_parts e tid file line sev @ '' '' # parts) (LogMessageData_new garbage) = Inr b"
      "buffer_of (statement_message e tid file line sev parts) b"
    unfolding statement_message_def by blast
  with flush_buffer_output [OF b(2) statement_nonempty] show ?thesis
    by (auto simp: buffer_of_def pcount_def)
qed

lemma log_buffer_safe_witness:
  "\<exists>b. insert_parts (prefix_parts example_env 7 ''a.cc'' 12 WARN @ '' '' # [''hello''])
      (LogMessageData_new (replicate (kMaxLogMessageLen + 1) (CHR ''x''))) = Inr b
    \<and> flush_buffer b = Inr (message_output (statement_message example_env 7 ''a.cc'' 12 WARN [''hello'']), b)"
  using log_buffer_safe [of "replicate (kMaxLogMessageLen + 1) (CHR ''x'')" example_env 7 "''a.cc''" 12 WARN
      "[''hello'']"]
  by (auto simp del: replicate_Suc insert_parts.simps append.simps append_Cons append_Nil)

text \<open>
  Flushing a message without any character reads the character before the array; \<open>reset\<close> begins
  anew; nothing is ever stored in a \<open>NullStream\<close>, not even through its base class.
\<close>

lemma flush_buffer_empty: "pptr b = 0 \<Longrightarrow> flush_buffer b = Inl Undefined_Behaviour"
  by (simp add: flush_buffer_def pcount_def load_def)

lemma buf_reset_buffer: "buffer_of m b \<Longrightarrow> buffer_of (m\<lparr>stream := []\<rparr>) (buf_reset b)"
  by (simp add: buffer_of_def buf_reset_def kMaxLogMessageLen_def)

lemma NullStream_stores_nothing:
  "sputn s (NullStream_new garbage) = Inr (NullStream_new garbage)"
  "NullStream_insert b t = b"
  by (induction s) (simp_all add: NullStream_new_def LogStreamBuf_new_def sputc_def overflow_def NullStream_insert_def)

section \<open>The error object of a comparison\<close>

text \<open>
  \<open>LogCheckError\<close> owns the string it points to (\<open>None\<close> is the null pointer): its destructor deletes it.
  It has no copy constructor of its own, so a copy points to the same string.
\<close>

record string_heap =
  strings :: "nat \<Rightarrow> string option"
  next_string :: nat

definition LogCheckError_ok :: "nat option" where
  "LogCheckError_ok = None"

definition LogCheckError_new :: "string \<Rightarrow> string_heap \<Rightarrow> string_heap \<times> nat option" where
  "LogCheckError_new s h =
     (h\<lparr>strings := (strings h)(next_string h \<mapsto> s), next_string := next_string h + 1\<rparr>, Some (next_string h))"

definition LogCheckError_copy :: "nat option \<Rightarrow> nat option" where
  "LogCheckError_copy str = str"

definition LogCheckError_destroy :: "nat option \<Rightarrow> string_heap \<Rightarrow> string_heap cxx" where
  "LogCheckError_destroy str h = (case str of
     None \<Rightarrow> Inr h
   | Some p \<Rightarrow> if strings h p = None then Inl Undefined_Behaviour
               else Inr (h\<lparr>strings := (strings h)(p := None)\<rparr>))"

definition LogCheckError_bool :: "nat option \<Rightarrow> bool" where
  "LogCheckError_bool str \<longleftrightarrow> str \<noteq> None"

text \<open>The function behind a comparison, with the object it returns.\<close>

definition LogCheck_object ::
  "('a \<Rightarrow> 'a \<Rightarrow> bool) \<Rightarrow> ('a \<Rightarrow> string) \<Rightarrow> 'a \<Rightarrow> 'a \<Rightarrow> string_heap \<Rightarrow> string_heap \<times> nat option" where
  "LogCheck_object rel pr t1 t2 h =
     (if rel t1 t2 then (h, LogCheckError_ok)
      else LogCheckError_new ('' ('' @ pr t1 @ '' vs. '' @ pr t2 @ '') '') h)"

text \<open>
  Returned without a copy the object is safe: its string is the one the message prints, and its
  destructor gives the memory back. A copy makes the second destructor delete the string again.
\<close>

lemma LogCheck_object_ok:
  assumes "LogCheck_object rel pr t1 t2 h = (h', str)"
  shows "LogCheckError_bool str \<longleftrightarrow> \<not> rel t1 t2"
    and "\<not> rel t1 t2 \<Longrightarrow> (case str of None \<Rightarrow> None | Some p \<Rightarrow> strings h' p) = LogCheck rel pr t1 t2"
    and "strings h (next_string h) = None \<Longrightarrow>
      \<exists>h''. LogCheckError_destroy str h' = Inr h'' \<and> strings h'' = strings h"
  using assms fun_upd_triv [of "strings h" "next_string h"]
  by (auto simp: LogCheck_object_def LogCheckError_ok_def LogCheckError_new_def LogCheckError_bool_def
      LogCheckError_destroy_def LogCheck_def split: if_splits)

lemma LogCheckError_copied:
  assumes "LogCheck_object rel pr t1 t2 h = (h', str)" "\<not> rel t1 t2"
  shows "cxx_bind (LogCheckError_destroy (LogCheckError_copy str) h') (LogCheckError_destroy str) = Inl Undefined_Behaviour"
  using assms
  by (auto simp: LogCheck_object_def LogCheckError_new_def LogCheckError_copy_def LogCheckError_destroy_def)

end
