(* ===== verification/Log_Session.thy ===== *)
theory Log_Session
  imports Log_Disk Log_Message
begin

text \<open>
  The first statement of a program that logs to files (base/logging.cc): \<open>InitLogging\<close> with a
  directory, then a LOG statement that makes the log files it needs. What the files hold
  afterwards is given exactly.
\<close>

definition log_path :: "env \<Rightarrow> string \<Rightarrow> string \<Rightarrow> nat \<Rightarrow> string" where
  "log_path e dir program k = dir @ ''/'' @ log_name e program (g_log_file_severity_names ! k)"

definition log_link :: "string \<Rightarrow> string \<Rightarrow> nat \<Rightarrow> string" where
  "log_link dir program k = dir @ ''/'' @ program @ ''.'' @ g_log_file_severity_names ! k"

text \<open>The names of the log files and of the links are all different.\<close>

lemma severity_name_cases:
  assumes "k < LOG_FILE_SEVERITIES"
  obtains "k = 0" "g_log_file_severity_names ! k = ''INFO''"
    | "k = 1" "g_log_file_severity_names ! k = ''WARN''"
    | "k = 2" "g_log_file_severity_names ! k = ''ERROR''"
proof -
  from assms consider "k = 0" | "k = 1" | "k = 2" by (force simp: LOG_FILE_SEVERITIES_def)
  then show ?thesis by cases (simp_all add: that g_log_file_severity_names_def)
qed

lemma log_path_inject:
  assumes "i < LOG_FILE_SEVERITIES" "j < LOG_FILE_SEVERITIES" "log_path e dir program i = log_path e dir program j"
  shows "i = j"
  using assms(3) by (cases rule: severity_name_cases [OF assms(1)]; cases rule: severity_name_cases [OF assms(2)])
    (simp_all add: log_path_def log_name_def)

lemma log_path_not_link:
  assumes "i < LOG_FILE_SEVERITIES" "j < LOG_FILE_SEVERITIES"
  shows "log_path e dir program i \<noteq> log_link dir program j"
proof -
  have "length (log_link dir program j) < length (log_path e dir program i)"
    by (cases rule: severity_name_cases [OF assms(1)]; cases rule: severity_name_cases [OF assms(2)])
      (simp_all add: log_path_def log_name_def log_link_def)
  then show ?thesis by auto
qed

section \<open>Making a log file and writing to it\<close>

text \<open>The file system with a new log file and its link.\<close>

definition with_log :: "env \<Rightarrow> string \<Rightarrow> string \<Rightarrow> nat \<Rightarrow> string \<Rightarrow> file_system \<Rightarrow> file_system" where
  "with_log e dir program k content fs =
     fs\<lparr>names := (names fs)(log_path e dir program k \<mapsto> next_file fs, log_link dir program k := None),
        data := (data fs)(next_file fs := content), next_file := next_file fs + 1,
        links := (links fs)(log_link dir program k \<mapsto> log_name e program (g_log_file_severity_names ! k))\<rparr>"

text \<open>A log file as its constructor leaves it: rolled at this time, nothing counted yet.\<close>

definition just_rolled :: "env \<Rightarrow> string \<Rightarrow> nat \<Rightarrow> LogFile \<Rightarrow> bool" where
  "just_rolled e path f lf \<longleftrightarrow> last_roll lf = now e \<and> last_flush lf = now e
     \<and> start_of_period lf = now e sdiv roll_per_seconds * roll_per_seconds
     \<and> cur_log_fullname lf = path \<and> count lf = 0 \<and> check_every_n lf = 1024
     \<and> (\<exists>w. cur_file lf = Some w \<and> writes_to f w)"

lemma new_destination_result:
  assumes e: "env_ok e" "hostname e \<noteq> []" and fs: "fs_ready fs" "dirs fs dir"
    and "names fs (log_path e dir program k) = None" "k < LOG_FILE_SEVERITIES"
  shows "\<exists>lf. new_destination dir program e k fs = Inr (with_log e dir program k (log_header e) fs, lf)
    \<and> just_rolled e (log_path e dir program k) (next_file fs) lf"
proof -
  define f where "f = next_file fs"
  define path where "path = log_path e dir program k"
  define fs0 where "fs0 = fs\<lparr>names := (names fs)(path \<mapsto> f), data := (data fs)(f := []), next_file := f + 1\<rparr>"
  define w0 where "w0 = \<lparr>handle = Some f, good = True, app_mode = True, is_binary = False, written_bytes = 0\<rparr>"
  have new: "Write_new path False True fs = (fs0, w0)"
    using fs(1) assms(5)
    by (simp add: Write_new_def Write_open_def fs_open_def fs0_def w0_def f_def fs_ready_def path_def)
  have w0: "writes_to f w0" by (simp add: writes_to_def w0_def)
  then obtain n where hd: "write_header e (fs0, w0) = Inr (fs_append f (log_header e) fs0, w0\<lparr>written_bytes := n\<rparr>)"
    using write_header_result [of f w0 e fs0] e by (auto simp: env_ok_def)
  have "relink (log_link dir program k) (log_name e program (g_log_file_severity_names ! k))
      (fs_append f (log_header e) fs0) = with_log e dir program k (log_header e) fs"
    using log_path_not_link [OF assms(6,6)]
    by (simp add: relink_def fs_append_def fs0_def with_log_def f_def path_def fun_upd_twist)
  with new hd e(1) show ?thesis
    by (simp add: new_destination_def LogFile_new_def open_directory_simps(1) [OF fs(2)] RollFile_eq Let_def
        env_ok_def PrettyLogFileName_def just_rolled_def flip: f_def)
      (simp add: path_def log_path_def log_link_def writes_to_def w0_def)
qed

lemma RollFile_same_time: "now e \<le> last_roll lf \<Longrightarrow> RollFile e (fs, lf) = Inr ((fs, lf), False)"
  by (simp add: RollFile_eq Let_def)

lemma first_write:
  assumes "just_rolled e path f lf" "names fs path \<noteq> None" "msg \<noteq> []" "length msg < 2 ^ 31"
  shows "\<exists>lf'. LogFile_Write e msg (fs, lf) = Inr (fs_append f msg fs, lf') \<and> cur_file lf' \<noteq> None"
proof -
  obtain w where w: "cur_file lf = Some w" "writes_to f w" using assms(1) by (auto simp: just_rolled_def)
  define lf1 where "lf1 = lf\<lparr>cur_file := Some (w\<lparr>written_bytes := written_bytes w + int (length msg)\<rparr>)\<rparr>"
  have wr: "file_write msg (to_int32 (int (length msg))) (fs, lf) = Inr (fs_append f msg fs, lf1)"
    using Write_write_bytes [OF w(2), of "int (length msg)" msg False fs] w(1) assms(3,4)
    by (simp add: file_write_eq lf1_def)
  have c: "cur_log_fullname lf1 = path" "last_roll lf1 = now e" "count lf1 = 0" "check_every_n lf1 = 1024"
    using assms(1) by (simp_all add: lf1_def just_rolled_def)
  have "RollFile e (fs_append f msg fs, lf1) = Inr ((fs_append f msg fs, lf1), False)"
    by (rule RollFile_same_time) (simp add: c)
  then have "LogFile_Write e msg (fs, lf) = Inr (fs_append f msg fs,
      if file_bytes lf1 > roll_size lf1 then lf1 else lf1\<lparr>count := 1\<rparr>)"
    using assms(2) by (auto simp: LogFile_Write_def WriteUnlocked_def wr c count_write_def Let_def)
  then show ?thesis by (simp add: lf1_def)
qed

section \<open>The loop over the log files\<close>

lemma with_log_append:
  "fs_append (next_file fs) msg (with_log e dir program k c fs) = with_log e dir program k (c @ msg) fs"
  by (simp add: with_log_def fs_append_def)

lemma with_log_ready: "fs_ready fs \<Longrightarrow> fs_ready (with_log e dir program k c fs)"
  by (auto simp: fs_ready_def with_log_def less_Suc_eq split: if_splits)

lemma with_log_content:
  assumes "fs_ready fs" "k < LOG_FILE_SEVERITIES" "j < LOG_FILE_SEVERITIES"
  shows "file_content (with_log e dir program k c fs) (log_path e dir program j) =
    (if j = k then Some c else file_content fs (log_path e dir program j))"
proof -
  have "log_path e dir program j \<noteq> log_path e dir program k" if "j \<noteq> k"
    using log_path_inject [OF assms(3,2)] that by blast
  moreover have "f \<noteq> next_file fs" if "names fs p = Some f" for p f
    using assms(1) that by (fastforce simp: fs_ready_def)
  ultimately show ?thesis
    using log_path_not_link [OF assms(3,2), of e dir program] 
    by (cases "names fs (log_path e dir program j)") (auto simp: file_content_def with_log_def)
qed

lemma create_and_write:
  assumes e: "env_ok e" "hostname e \<noteq> []" and msg: "msg \<noteq> []" "length msg < 2 ^ 31"
  shows "fs_ready fs \<Longrightarrow> dirs fs dir \<Longrightarrow> set ks \<subseteq> {..<LOG_FILE_SEVERITIES} \<Longrightarrow> distinct ks \<Longrightarrow>
    length ds = LOG_FILE_SEVERITIES \<Longrightarrow>
    (\<And>k. k \<in> set ks \<Longrightarrow> ds ! k = None \<and> file_content fs (log_path e dir program k) = None) \<Longrightarrow>
    \<exists>fs' ds'. write_destinations (new_destination dir program e) (LogFile_Write e) LogFile_Flush msg ks (fs, ds) =
        Inr (fs', ds')
      \<and> (\<forall>k < LOG_FILE_SEVERITIES. file_content fs' (log_path e dir program k) =
           (if k \<in> set ks then Some (log_header e @ msg) else file_content fs (log_path e dir program k))
         \<and> (k \<notin> set ks \<longrightarrow> ds' ! k = ds ! k))"
proof (induction ks arbitrary: fs ds)
  case (Cons k ks)
  note fs = Cons.prems(1,2)
  have k: "k < LOG_FILE_SEVERITIES" "ds ! k = None" "names fs (log_path e dir program k) = None"
    using Cons.prems(3) Cons.prems(6) [of k] by (auto simp: file_content_def)
  from new_destination_result [OF e fs k(3,1)] obtain lf where
    n: "new_destination dir program e k fs = Inr (with_log e dir program k (log_header e) fs, lf)"
      "just_rolled e (log_path e dir program k) (next_file fs) lf" by blast
  have "names (with_log e dir program k (log_header e) fs) (log_path e dir program k) \<noteq> None"
    using log_path_not_link [OF k(1,1)] by (simp add: with_log_def)
  from first_write [OF n(2) this msg] obtain lf' where
    w: "LogFile_Write e msg (with_log e dir program k (log_header e) fs, lf) =
         Inr (with_log e dir program k (log_header e @ msg) fs, lf')" "cur_file lf' \<noteq> None"
    unfolding with_log_append by blast
  define fs1 where "fs1 = with_log e dir program k (log_header e @ msg) fs"
  have fs1: "fs_ready fs1" "dirs fs1 dir"
    using with_log_ready [OF fs(1)] fs(2) by (simp_all add: fs1_def) (simp add: with_log_def)
  have content: "file_content fs1 (log_path e dir program j) =
      (if j = k then Some (log_header e @ msg) else file_content fs (log_path e dir program j))"
    if "j < LOG_FILE_SEVERITIES" for j
    unfolding fs1_def by (rule with_log_content [OF fs(1) k(1) that])
  have rest: "ds[k := Some lf'] ! j = None \<and> file_content fs1 (log_path e dir program j) = None"
    if "j \<in> set ks" for j
  proof -
    have "j \<noteq> k" "j < LOG_FILE_SEVERITIES" using Cons.prems(3,4) that by auto
    with Cons.prems(6) [of j] content [of j] that show ?thesis by simp
  qed
  have "set ks \<subseteq> {..<LOG_FILE_SEVERITIES}" "distinct ks" "length (ds[k := Some lf']) = LOG_FILE_SEVERITIES"
    using Cons.prems(3-5) by simp_all
  from Cons.IH [OF fs1 this rest] obtain fs' ds' where
    r: "write_destinations (new_destination dir program e) (LogFile_Write e) LogFile_Flush msg ks
          (fs1, ds[k := Some lf']) = Inr (fs', ds')"
      "\<forall>j < LOG_FILE_SEVERITIES. file_content fs' (log_path e dir program j) =
         (if j \<in> set ks then Some (log_header e @ msg) else file_content fs1 (log_path e dir program j))
       \<and> (j \<notin> set ks \<longrightarrow> ds' ! j = ds[k := Some lf'] ! j)"
    by blast
  have "LogFile_Flush lf' = Inr lf'" using w(2) by (auto simp: LogFile_Flush_def)
  with n(1) w(1) r(1) k(2) have "write_destinations (new_destination dir program e) (LogFile_Write e)
      LogFile_Flush msg (k # ks) (fs, ds) = Inr (fs', ds')"
    by (simp add: log_destination_def fs1_def)
  moreover have "file_content fs' (log_path e dir program j) =
       (if j \<in> set (k # ks) then Some (log_header e @ msg) else file_content fs (log_path e dir program j))
     \<and> (j \<notin> set (k # ks) \<longrightarrow> ds' ! j = ds ! j)" if "j < LOG_FILE_SEVERITIES" for j
    using r(2) content [OF that] that Cons.prems(4) by auto
  ultimately show ?case by blast
qed simp

section \<open>The first statement of a program\<close>

text \<open>
  C21. After \<open>InitLogging\<close> with an existing directory, on a disk that takes every file, the first LOG
  statement, if it is not LOG(FATAL), makes the log files of its class and of the lower classes, and each of them then
  holds the header and the text of the statement and nothing else; the files of the higher classes
  are not made. Nothing goes to the send method.
\<close>

theorem first_statement_files:
  assumes "env_ok e" "hostname e \<noteq> []" "fs_ready fs" "dirs fs dir" "dir \<noteq> []"
    and "list_all (\<lambda>k. file_content fs (log_path e dir (ConstShortFileName argv0) k) = None)
      [0..<LOG_FILE_SEVERITIES]"
    and "out = message_output (statement_message e tid file line sev parts)"
    and "length out \<le> kMaxLogMessageLen - 10" and "sev \<noteq> FATAL"
  shows "\<exists>g g'. InitLogging_dir (Some argv0) (Some dir) (logging_start fs) = Inr g
    \<and> log_statement e tid file line sev parts g = Inr g' \<and> sent g' = []
    \<and> (\<forall>k < LOG_FILE_SEVERITIES.
         file_content (files g') (log_path e dir (ConstShortFileName argv0) k) =
         (if k \<le> GetLogFileSeverityIndex sev then Some (log_header e @ out) else None))"
proof -
  define p where "p = ConstShortFileName argv0"
  define g where "g = (logging_start fs)\<lparr>g_log_dir := dir, g_program_name := Some p,
    g_program_invocation_short_name := Some p\<rparr>"
  have init: "InitLogging_dir (Some argv0) (Some dir) (logging_start fs) = Inr g"
    by (simp add: InitLogging_dir_def InitLogging_def logging_start_def g_def p_def Let_def)
  have o: "out \<noteq> []" "length out < 2 ^ 31"
    using log_statement_text_facts [of e tid "file" line sev parts] assms(7) by auto
  define ks where "ks = [0..<Suc (GetLogFileSeverityIndex sev)]"
  have ks: "k \<in> set ks \<longleftrightarrow> k \<le> GetLogFileSeverityIndex sev" for k by (auto simp: ks_def)
  have d: "set ks \<subseteq> {..<LOG_FILE_SEVERITIES}" "distinct ks"
    "length (replicate LOG_FILE_SEVERITIES (None :: LogFile option)) = LOG_FILE_SEVERITIES"
    using severity_index_less [of sev] by (auto simp: ks_def)
  have "replicate LOG_FILE_SEVERITIES (None :: LogFile option) ! k = None \<and> file_content fs (log_path e dir p k) = None"
    if "k \<in> set ks" for k
    using that d(1) assms(6) by (auto simp: list_all_iff p_def)
  from create_and_write [OF assms(1,2) o assms(3,4) d this] obtain fs' ds' where
    w: "write_destinations (new_destination dir p e) (LogFile_Write e) LogFile_Flush out ks
          (fs, replicate LOG_FILE_SEVERITIES None) = Inr (fs', ds')"
      "\<forall>k < LOG_FILE_SEVERITIES. file_content fs' (log_path e dir p k) =
         (if k \<in> set ks then Some (log_header e @ out) else file_content fs (log_path e dir p k))"
    by blast
  define g' where "g' = g\<lparr>files := fs', destinations := ds'\<rparr>"
  have "log_statement e tid file line sev parts g = Inr g'"
    using w(1) assms(5,8,9) statement_nonempty [of e tid "file" line sev parts]
    by (simp add: log_statement_eq g_def logging_start_def Flush_def flush_locked_def statement_text(2) g'_def
        del: upt_Suc flip: assms(7) ks_def)
  moreover have "sent g' = []" "files g' = fs'" by (simp_all add: g'_def g_def logging_start_def)
  moreover have "file_content fs (log_path e dir p k) = None" if "k < LOG_FILE_SEVERITIES" for k
    using assms(6) that by (simp add: list_all_iff p_def)
  ultimately show ?thesis using init w(2) by (auto simp: ks simp flip: p_def)
qed

lemma first_statement_files_witness:
  "let out = message_output (statement_message example_env 7 ''a.cc'' 12 WARN [''hello''])
   in \<exists>g g'. InitLogging_dir (Some ''bin/prog'') (Some ''log'') (logging_start example_fs) = Inr g
     \<and> log_statement example_env 7 ''a.cc'' 12 WARN [''hello''] g = Inr g'
     \<and> file_content (files g') (log_path example_env ''log'' ''prog'' 1) = Some (log_header example_env @ out)
     \<and> file_content (files g') (log_path example_env ''log'' ''prog'' 2) = None"
proof -
  let ?out = "message_output (statement_message example_env 7 ''a.cc'' 12 WARN [''hello''])"
  have p: "ConstShortFileName ''bin/prog'' = ''prog''" by (simp add: ConstShortFileName_def)
  have r: "fs_ready example_fs" "dirs example_fs ''log''" "env_ok example_env" "hostname example_env \<noteq> []"
    by (auto simp: fs_ready_def example_log_simps)
  have n: "list_all (\<lambda>k. file_content example_fs (log_path example_env ''log'' (ConstShortFileName ''bin/prog'') k) = None)
      [0..<LOG_FILE_SEVERITIES]"
    unfolding p by (auto simp: list_all_iff file_content_def log_path_def log_name_def example_fs_def)
  have "length (pretty_date (date example_env)) \<le> 21" by (simp add: pretty_date_def snprintf_def)
  moreover have "length (concat (prefix_parts example_env 7 ''a.cc'' 12 WARN) @ '' '' @ concat [''hello'']) \<le>
      40 + length (pretty_date (date example_env))"
  proof -
    have "dec_nat 7 = ''7''" "dec_int 12 = ''12''" by code_simp+
    then show ?thesis by (simp add: prefix_parts_def ConstShortFileName_def)
  qed
  ultimately have "length (concat (prefix_parts example_env 7 ''a.cc'' 12 WARN) @ '' '' @ concat [''hello'']) \<le> 61"
    by linarith
  then have "length (stream (statement_message example_env 7 ''a.cc'' 12 WARN [''hello''])) \<le> 61"
    unfolding statement_text length_take by (rule min.coboundedI1)
  then have "length ?out \<le> kMaxLogMessageLen - 10"
    by (simp add: message_output_def kMaxLogMessageLen_def)
  from first_statement_files [OF r(3,4,1,2) _ n refl this _] show ?thesis
    unfolding p Let_def by (auto simp: LOG_FILE_SEVERITIES_def)
qed

end
