(* ===== verification/Log_Delivery.thy ===== *)
theory Log_Delivery
  imports Log_Session
begin

text \<open>
  All the statements of a program that logs to files (base/logging.cc): which log files their texts
  are found in, through all rolls. The locale \<open>named_sink\<close> extends the contract between the messages
  and the log files by what is needed to say in which files the messages are.
\<close>

section \<open>Destinations whose files are known by class\<close>

locale named_sink = log_sink ok create emit flush inv target usable
  for ok :: "'e \<Rightarrow> bool"
    and create :: "'e \<Rightarrow> nat \<Rightarrow> file_system \<Rightarrow> (file_system \<times> 'd) cxx"
    and emit :: "'e \<Rightarrow> string \<Rightarrow> file_system \<times> 'd \<Rightarrow> (file_system \<times> 'd) cxx"
    and flush :: "'d \<Rightarrow> 'd cxx"
    and inv :: "'d \<Rightarrow> bool"
    and target :: "'d \<Rightarrow> nat option"
    and usable :: "file_system \<Rightarrow> bool" +
  fixes ready :: "file_system \<Rightarrow> bool"
    and later :: "file_system \<Rightarrow> file_system \<Rightarrow> bool"
    and live :: "nat \<Rightarrow> file_system \<times> 'd \<Rightarrow> bool"
    and of_class :: "nat \<Rightarrow> file_system \<Rightarrow> nat \<Rightarrow> bool"
  assumes later_refl: "ready fs \<Longrightarrow> later fs fs"
    and later_trans: "later fs fs1 \<Longrightarrow> later fs1 fs2 \<Longrightarrow> later fs fs2"
    and laterD: "later fs fs' \<Longrightarrow> grows fs fs' \<and> ready fs'"
    and live_later: "live i (fs, d) \<Longrightarrow> later fs fs' \<Longrightarrow> live i (fs', d)"
    and of_class_later: "i < LOG_FILE_SEVERITIES \<Longrightarrow> of_class i fs f \<Longrightarrow> later fs fs' \<Longrightarrow> of_class i fs' f"
    and live_target: "live i (fs, d) \<Longrightarrow> \<exists>f. target d = Some f \<and> f < next_file fs \<and> of_class i fs f"
    and create_live: "i < LOG_FILE_SEVERITIES \<Longrightarrow> ok e \<Longrightarrow> ready fs \<Longrightarrow> create e i fs = Inr (fs', d) \<Longrightarrow>
      live i (fs', d) \<and> later fs fs'"
    and emit_live: "i < LOG_FILE_SEVERITIES \<Longrightarrow> live i (fs, d) \<Longrightarrow> emit e msg (fs, d) = Inr (fs', d') \<Longrightarrow>
      live i (fs', d') \<and> later fs fs'"
begin

definition sinks_live :: "file_system \<Rightarrow> 'd option list \<Rightarrow> bool" where
  "sinks_live fs ds \<longleftrightarrow> (\<forall>i < length ds. \<forall>d. ds ! i = Some d \<longrightarrow> inv d \<and> live i (fs, d))"

lemma sinks_live_update:
  assumes "sinks_live fs ds" "later fs fs'" "inv d" "live i (fs', d)"
  shows "sinks_live fs' (ds[i := Some d])"
  unfolding sinks_live_def
proof (intro allI impI)
  fix k d'
  assume "k < length (ds[i := Some d])" "ds[i := Some d] ! k = Some d'"
  with assms live_later [of k fs d' fs'] show "inv d' \<and> live k (fs', d')"
    by (cases "k = i") (simp_all add: sinks_live_def)
qed

definition landed :: "nat \<Rightarrow> string \<Rightarrow> file_system \<Rightarrow> file_system \<Rightarrow> bool" where
  "landed k msg fs fs' \<longleftrightarrow> (\<exists>f s t. f < next_file fs' \<and> of_class k fs' f
     \<and> data fs' f = old_data fs f @ s @ msg @ t)"

lemma landed_later:
  assumes "k < LOG_FILE_SEVERITIES" "landed k msg fs fs1" "later fs1 fs'"
  shows "landed k msg fs fs'"
proof -
  obtain f s t where f: "f < next_file fs1" "of_class k fs1 f" "data fs1 f = old_data fs f @ s @ msg @ t"
    using assms(2) unfolding landed_def by blast
  have "f < next_file fs'" "\<exists>u. data fs' f = data fs1 f @ u"
    using laterD [OF assms(3)] f(1) by (auto simp: grows_def)
  with f of_class_later [OF assms(1) f(2) assms(3)] show ?thesis
    unfolding landed_def by (metis append.assoc)
qed

lemma later_landed:
  assumes "later fs fs1" "landed k msg fs1 fs'"
  shows "landed k msg fs fs'"
proof -
  obtain f s t where f: "f < next_file fs'" "of_class k fs' f" "data fs' f = old_data fs1 f @ s @ msg @ t"
    using assms(2) unfolding landed_def by blast
  from old_data_later [OF _ f(3)] laterD [OF assms(1)] obtain u where
    "data fs' f = old_data fs f @ (u @ s) @ msg @ t" by auto
  with f(1,2) show ?thesis unfolding landed_def by blast
qed

text \<open>One destination takes the message.\<close>

lemma write_one_destination:
  assumes e: "ok e" and msg: "msg \<noteq> []" "length msg < 2 ^ 31"
    and ds: "sinks_live fs ds" "i < length ds" "i < LOG_FILE_SEVERITIES" "ready fs" "usable fs"
  obtains fs1 d1 fs2 d2 where "log_destination (create e) i (fs, ds) = Inr ((fs1, ds[i := Some d1]), d1)"
    "emit e msg (fs1, d1) = Inr (fs2, d2)" "flush d2 = Inr d2"
    "sinks_live fs2 (ds[i := Some d2])" "later fs fs2" "landed i msg fs fs2"
proof -
  have s: "sinks_inv ds" using ds(1) by (simp add: sinks_inv_def sinks_live_def)
  from log_destination_ok [OF e s ds(2,5)] obtain fs1 d1 where
    1: "log_destination (create e) i (fs, ds) = Inr ((fs1, ds[i := Some d1]), d1)" "inv d1"
      "ds ! i \<noteq> None \<longrightarrow> ds ! i = Some d1 \<and> fs1 = fs" by blast
  have l1: "live i (fs1, d1) \<and> later fs fs1"
  proof (cases "ds ! i")
    case None
    with 1(1) create_live [OF ds(3) e ds(4)] show ?thesis
      by (auto simp: log_destination_def cxx_bind_eq_Inr)
  next
    case (Some d)
    with 1(3) ds later_refl show ?thesis by (auto simp: sinks_live_def)
  qed
  from write_ok [OF e 1(2) msg] obtain fs2 d2 where
    2: "emit e msg (fs1, d1) = Inr (fs2, d2)" "inv d2"
      "\<And>f. target d1 = Some f \<Longrightarrow> f < next_file fs1 \<Longrightarrow> \<exists>t. data fs2 f = data fs1 f @ msg @ t" by blast
  from emit_live [OF ds(3) _ 2(1)] l1 have l2: "live i (fs2, d2)" "later fs1 fs2" by auto
  from l1 live_target obtain f where f: "target d1 = Some f" "f < next_file fs1" "of_class i fs1 f" by blast
  with 2(3) obtain t where "data fs2 f = old_data fs1 f @ [] @ msg @ t"
    by (auto simp: old_data_def)
  moreover have "f < next_file fs2" using f(2) laterD [OF l2(2)] by (auto simp: grows_def)
  ultimately have "landed i msg fs1 fs2"
    unfolding landed_def using of_class_later [OF ds(3) f(3) l2(2)] by blast
  with l1 have "landed i msg fs fs2" using later_landed by blast
  moreover have "later fs fs2" using l1 l2(2) later_trans by blast
  ultimately show ?thesis
    using that [OF 1(1) 2(1) flush_ok [OF 2(2)] sinks_live_update [OF ds(1) _ 2(2) l2(1)]] by blast
qed

text \<open>The loop of \<open>Flush\<close>: every destination takes the message.\<close>

lemma write_destinations_land:
  assumes e: "ok e" and msg: "msg \<noteq> []" "length msg < 2 ^ 31"
  shows "sinks_live fs ds \<Longrightarrow> length ds = LOG_FILE_SEVERITIES \<Longrightarrow> set is \<subseteq> {..<LOG_FILE_SEVERITIES} \<Longrightarrow>
    ready fs \<Longrightarrow> usable fs \<Longrightarrow>
    \<exists>fs' ds'. write_destinations (create e) (emit e) flush msg is (fs, ds) = Inr (fs', ds')
      \<and> sinks_live fs' ds' \<and> length ds' = LOG_FILE_SEVERITIES \<and> later fs fs'
      \<and> (\<forall>k \<in> set is. landed k msg fs fs')"
proof (induction "is" arbitrary: fs ds)
  case Nil
  then show ?case using later_refl by auto
next
  case (Cons i "is")
  have i: "i < length ds" "i < LOG_FILE_SEVERITIES" using Cons.prems(2,3) by auto
  obtain fs1 d1 fs2 d2 where
    1: "log_destination (create e) i (fs, ds) = Inr ((fs1, ds[i := Some d1]), d1)"
      "emit e msg (fs1, d1) = Inr (fs2, d2)" "flush d2 = Inr d2"
      "sinks_live fs2 (ds[i := Some d2])" "later fs fs2" "landed i msg fs fs2"
    by (rule write_one_destination [OF e msg Cons.prems(1) i Cons.prems(4,5)])
  have "ready fs2" "usable fs2"
    using laterD [OF 1(5)] usable_grows [OF Cons.prems(5)] by auto
  with Cons.IH [OF 1(4)] Cons.prems(2,3) obtain fs' ds' where
    2: "write_destinations (create e) (emit e) flush msg is (fs2, ds[i := Some d2]) = Inr (fs', ds')"
      "sinks_live fs' ds'" "length ds' = LOG_FILE_SEVERITIES" "later fs2 fs'"
      "\<forall>k \<in> set is. landed k msg fs2 fs'" by auto
  moreover have "landed k msg fs fs'" if "k \<in> set (i # is)" for k
    using that landed_later [OF i(2) 1(6) 2(4)] 2(5) later_landed [OF 1(5)] by auto
  ultimately show ?case using 1(1-3) later_trans [OF 1(5) 2(4)] by auto
qed

end

section \<open>The log files know their class\<close>

text \<open>
  The log files of class \<open>k\<close> are those with a name of that class, whatever the time and the host in
  it; such a name is never taken from a file.
\<close>

definition class_file :: "string \<Rightarrow> string \<Rightarrow> nat \<Rightarrow> file_system \<Rightarrow> nat \<Rightarrow> bool" where
  "class_file dir program k fs f \<longleftrightarrow> (\<exists>e. names fs (log_path e dir program k) = Some f)"

definition later_disk :: "string \<Rightarrow> string \<Rightarrow> file_system \<Rightarrow> file_system \<Rightarrow> bool" where
  "later_disk dir program fs fs' \<longleftrightarrow> grows fs fs' \<and> fs_ready fs'
     \<and> (\<forall>e k f. k < LOG_FILE_SEVERITIES \<longrightarrow> names fs (log_path e dir program k) = Some f \<longrightarrow>
          names fs' (log_path e dir program k) = Some f)"

definition logs_to :: "string \<Rightarrow> string \<Rightarrow> nat \<Rightarrow> file_system \<times> LogFile \<Rightarrow> bool" where
  "logs_to dir program k = (\<lambda>(fs, lf). k < LOG_FILE_SEVERITIES \<and> fs_ready fs \<and> base_filename lf = dir \<and> bin_name lf = program
     \<and> log_severity lf = g_log_file_severity_names ! k
     \<and> symlink_name lf = program @ ''.'' @ g_log_file_severity_names ! k
     \<and> (\<exists>w f. cur_file lf = Some w \<and> writes_to f w \<and> f < next_file fs \<and> class_file dir program k fs f))"

lemma later_disk_trans:
  "later_disk dir program fs fs1 \<Longrightarrow> later_disk dir program fs1 fs2 \<Longrightarrow> later_disk dir program fs fs2"
  by (auto simp: later_disk_def intro: grows_trans)

lemma class_file_later:
  "k < LOG_FILE_SEVERITIES \<Longrightarrow> class_file dir program k fs f \<Longrightarrow> later_disk dir program fs fs' \<Longrightarrow>
    class_file dir program k fs' f"
  by (auto simp: class_file_def later_disk_def)

text \<open>Output on a stream changes nothing but the content of its file.\<close>

definition same_names :: "nat \<Rightarrow> file_system \<Rightarrow> file_system \<times> WriteOp \<Rightarrow> bool" where
  "same_names f fs0 = (\<lambda>(fs, w). writes_to f w \<and> f < next_file fs \<and> fs_ready fs
     \<and> names fs = names fs0 \<and> grows fs0 fs)"

lemma grows_append [simp]: "grows fs0 fs \<Longrightarrow> grows fs0 (fs_append f t fs)"
  by (rule grows_trans [of fs0 fs]) (auto simp: grows_def fs_append_def)

lemma put_same_names: "same_names f fs0 s \<Longrightarrow> same_names f fs0 (put t s)"
  by (cases s) (auto simp: same_names_def put_good fs_ready_def, simp_all add: fs_append_def)

lemma count_bytes_same_names: "same_names f fs0 s \<Longrightarrow> same_names f fs0 (count_bytes n s)"
  by (cases s) (simp add: same_names_def count_bytes_def writes_to_def)

lemma Write_new_named:
  assumes "fs_ready fs"
  shows "\<exists>fs1 w f. Write_new path False True fs = (fs1, w) \<and> writes_to f w \<and> f < next_file fs1
    \<and> fs_ready fs1 \<and> grows fs fs1 \<and> names fs1 path = Some f
    \<and> (\<forall>p g. names fs p = Some g \<longrightarrow> names fs1 p = Some g)"
proof (cases "names fs path")
  case None
  with assms show ?thesis
    by (auto simp: Write_new_def Write_open_def fs_open_def writes_to_def fs_ready_def grows_def
        intro: less_SucI)
next
  case (Some g)
  with assms show ?thesis
    by (auto simp: Write_new_def Write_open_def fs_open_def writes_to_def fs_ready_def)
qed

lemma relink_later:
  assumes "fs_ready fs2" "grows fs fs2" "k < LOG_FILE_SEVERITIES"
    and "\<And>p f. names fs p = Some f \<Longrightarrow> names fs2 p = Some f"
  shows "later_disk dir program fs (relink (log_link dir program k) target fs2)"
  using assms log_path_not_link [OF _ assms(3)]
  by (auto simp: later_disk_def fs_ready_def relink_def) (simp add: grows_def)

text \<open>A roll goes on to a file of the same class.\<close>

lemma RollFile_logs_to:
  assumes "k < LOG_FILE_SEVERITIES" "fs_ready fs"
    and lf: "base_filename lf = dir" "bin_name lf = program" "log_severity lf = g_log_file_severity_names ! k"
      "symlink_name lf = program @ ''.'' @ g_log_file_severity_names ! k"
    and "now e > last_roll lf \<or> logs_to dir program k (fs, lf)"
  shows "ensures (RollFile e (fs, lf)) (\<lambda>(s', b). logs_to dir program k s' \<and> later_disk dir program fs (fst s'))"
proof (cases "now e > last_roll lf")
  case False
  with assms show ?thesis by (simp add: RollFile_eq Let_def later_disk_def)
next
  case True
  define path where "path = log_path e dir program k"
  obtain fs1 w f where 1: "Write_new path False True fs = (fs1, w)" "writes_to f w" "f < next_file fs1"
      "fs_ready fs1" "grows fs fs1" "names fs1 path = Some f"
      "\<And>p g. names fs p = Some g \<Longrightarrow> names fs1 p = Some g"
    using Write_new_named [OF assms(2)] by blast
  have "ensures (write_header e (fs1, w)) (same_names f fs1)"
    using 1(2-4) by (intro write_header_keeps put_same_names count_bytes_same_names) (simp_all add: same_names_def)
  moreover have later: "later_disk dir program fs (relink (log_link dir program k) t fs2)"
    and "class_file dir program k (relink (log_link dir program k) t fs2) f"
    if "same_names f fs1 (fs2, w2)" for fs2 w2 t
  proof -
    have 2: "fs_ready fs2" "grows fs fs2" "names fs2 path = Some f"
        "\<And>p g. names fs p = Some g \<Longrightarrow> names fs2 p = Some g"
      using that(1) 1(5-7) grows_trans by (auto simp: same_names_def)
    show "later_disk dir program fs (relink (log_link dir program k) t fs2)"
      by (rule relink_later [OF 2(1,2) assms(1) 2(4)])
    show "class_file dir program k (relink (log_link dir program k) t fs2) f"
      using 2(3) log_path_not_link [OF assms(1,1), of e dir program]
      by (auto simp: class_file_def relink_def path_def)
  qed
  moreover have "fs_ready (relink l t fs2)" "writes_to f w2" "f < next_file (relink l t fs2)"
    if "same_names f fs1 (fs2, w2)" for fs2 w2 l t
    using that by (auto simp: same_names_def fs_ready_def relink_def)
  moreover have "log_path e dir program k = dir @ ''/'' @ PrettyLogFileName e lf"
      "log_link dir program k = dir @ ''/'' @ symlink_name lf"
    using lf by (simp_all add: log_path_def PrettyLogFileName_def log_link_def)
  ultimately show ?thesis
    using True 1(1) lf assms(1) unfolding RollFile_eq Let_def path_def
    by simp (erule ensures_bind, clarsimp simp: logs_to_def, blast)
qed

lemma RollFile_keeps:
  assumes "k < LOG_FILE_SEVERITIES" "logs_to dir program k s \<and> later_disk dir program fs0 (fst s)"
  shows "ensures (RollFile e s) (\<lambda>(s', b). logs_to dir program k s' \<and> later_disk dir program fs0 (fst s'))"
proof (cases s)
  case (Pair fs lf)
  with assms have l: "logs_to dir program k (fs, lf)" "later_disk dir program fs0 fs" by simp_all
  then have "ensures (RollFile e (fs, lf)) (\<lambda>(s', b). logs_to dir program k s' \<and> later_disk dir program fs (fst s'))"
    by (intro RollFile_logs_to [OF assms(1)]) (simp_all add: logs_to_def)
  then show ?thesis
    unfolding Pair by (rule ensures_mono) (use later_disk_trans [OF l(2)] in auto)
qed

lemma file_write_keeps:
  assumes "logs_to dir program k s \<and> later_disk dir program fs0 (fst s)"
  shows "ensures (file_write msg n s) (\<lambda>s'. logs_to dir program k s' \<and> later_disk dir program fs0 (fst s'))"
proof -
  obtain fs lf w f where s: "s = (fs, lf)" "cur_file lf = Some w" "same_names f fs (fs, w)"
      "class_file dir program k fs f" "later_disk dir program fs0 fs" "logs_to dir program k (fs, lf)"
    using assms by (cases s) (auto simp: logs_to_def same_names_def)
  have "ensures (Write_write (Some msg) n False (fs, w)) (\<lambda>(s', ok). same_names f fs s')"
    using s(3) by (intro Write_write_keeps put_same_names count_bytes_same_names)
  moreover have "later_disk dir program fs0 fs'" "class_file dir program k fs' f"
    if "same_names f fs (fs', w')" for fs' w'
    using that s(4,5) by (auto simp: same_names_def later_disk_def class_file_def intro: grows_trans)
  ultimately show ?thesis
    unfolding s(1) file_write_eq using s(2,6)
    by simp (erule ensures_bind, auto simp: logs_to_def, auto simp: same_names_def)
qed

lemma LogFile_Write_logs_to:
  assumes "k < LOG_FILE_SEVERITIES" "logs_to dir program k (fs, lf)"
  shows "ensures (LogFile_Write e msg (fs, lf)) (\<lambda>s'. logs_to dir program k s' \<and> later_disk dir program fs (fst s'))"
  using assms(2)
  by (intro LogFile_Write_keeps RollFile_keeps [OF assms(1)] file_write_keeps)
    (auto simp: logs_to_def later_disk_def)

lemma LogFile_Flush_same: "LogFile_Flush lf = Inr lf' \<Longrightarrow> lf' = lf"
  by (simp add: LogFile_Flush_def split: option.splits)

lemma new_destination_logs_to:
  assumes "k < LOG_FILE_SEVERITIES" "env_ok e" "fs_ready fs"
  shows "ensures (new_destination dir program e k fs)
    (\<lambda>s'. logs_to dir program k s' \<and> later_disk dir program fs (fst s'))"
proof -
  have dir: "ensures (open_directory dir fs) (later_disk dir program fs)"
    using assms(3)
    by (auto simp: open_directory_def Let_def fs_mkdir_def later_disk_def grows_def fs_ready_def)
  show ?thesis
    unfolding new_destination_def LogFile_new_def
  proof (rule ensures_bind [OF dir], rule ensures_bind [OF RollFile_logs_to])
    fix fs1
    assume l: "later_disk dir program fs fs1"
    then show "fs_ready fs1" by (simp add: later_disk_def)
    show "ensures (case r of (s, b) \<Rightarrow> Inr s) (\<lambda>s'. logs_to dir program k s' \<and> later_disk dir program fs (fst s'))"
      if "case r of (s', b) \<Rightarrow> logs_to dir program k s' \<and> later_disk dir program fs1 (fst s')" for r
      using that later_disk_trans [OF l] by auto
  qed (use assms in \<open>simp_all add: env_ok_def\<close>)
qed

interpretation class_logs: named_sink env_ok "new_destination dir program" LogFile_Write LogFile_Flush
    logfile_inv log_target "\<lambda>fs. dirs fs dir" fs_ready "later_disk dir program" "logs_to dir program"
    "class_file dir program" for dir program
proof (unfold_locales, goal_cases)
  case (1 fs)
  then show ?case by (simp add: later_disk_def)
next
  case (2 fs fs1 fs2)
  then show ?case by (rule later_disk_trans)
next
  case (3 fs fs')
  then show ?case by (simp add: later_disk_def)
next
  case (4 i fs d fs')
  then obtain w f where "cur_file d = Some w" "writes_to f w" "f < next_file fs'" "class_file dir program i fs' f"
    using class_file_later [of i dir program fs _ fs']
    by (auto simp: logs_to_def later_disk_def grows_def)
  with 4 show ?case by (auto simp: logs_to_def later_disk_def)
next
  case (5 i fs f fs')
  then show ?case by (rule class_file_later)
next
  case (6 i fs d)
  then show ?case by (auto simp: logs_to_def log_target_def writes_to_def)
next
  case (7 i e fs fs' d)
  then show ?case using ensuresD [OF new_destination_logs_to [OF 7(1,2,3)] 7(4)] by simp
next
  case (8 i fs d e msg fs' d')
  then show ?case using ensuresD [OF LogFile_Write_logs_to [OF 8(1,2)] 8(3)] by simp
qed

section \<open>All statements of a program\<close>

definition session_ok :: "string \<Rightarrow> string \<Rightarrow> logging \<Rightarrow> bool" where
  "session_ok dir program g \<longleftrightarrow> date_alive g \<and> \<not> g_async g \<and> g_log_dir g = dir \<and> dir \<noteq> []
     \<and> g_program_name g = Some program \<and> dirs (files g) dir \<and> fs_ready (files g)
     \<and> length (destinations g) = LOG_FILE_SEVERITIES
     \<and> class_logs.sinks_live dir program (files g) (destinations g)"

lemma log_statement_lands:
  assumes "session_ok dir program g" "env_ok e" "sev \<noteq> FATAL"
    and out: "out = message_output (statement_message e tid file line sev parts)"
  shows "\<exists>g'. log_statement e tid file line sev parts g = Inr g' \<and> session_ok dir program g'
    \<and> later_disk dir program (files g) (files g')
    \<and> (\<forall>k \<le> GetLogFileSeverityIndex sev. class_logs.landed dir program k out (files g) (files g'))"
proof -
  have o: "out \<noteq> []" "length out < 2 ^ 31"
    using log_statement_text_facts [of e tid "file" line sev parts] by (auto simp: out)
  define ks where "ks = [0..<Suc (GetLogFileSeverityIndex sev)]"
  have ks: "k \<in> set ks \<longleftrightarrow> k \<le> GetLogFileSeverityIndex sev" for k by (auto simp: ks_def)
  have i: "set ks \<subseteq> {..<LOG_FILE_SEVERITIES}"
    using severity_index_less [of sev] by (auto simp: ks_def)
  note g = assms(1) [unfolded session_ok_def]
  obtain fs ds where w: "write_destinations (new_destination dir program e) (LogFile_Write e) LogFile_Flush
        out ks (files g, destinations g) = Inr (fs, ds)"
      "class_logs.sinks_live dir program fs ds" "length ds = LOG_FILE_SEVERITIES"
      "later_disk dir program (files g) fs"
      "\<forall>k \<in> set ks. class_logs.landed dir program k out (files g) fs"
    using class_logs.write_destinations_land [OF assms(2) o, of dir program "files g" "destinations g" ks] g i
    by blast
  define g1 where "g1 = g\<lparr>files := fs, destinations := ds\<rparr>"
  define g2 where "g2 = (if g_alsologtostderr g then send_method out INFO g1 else g1)"
  define g3 where "g3 = (if length out > kMaxLogMessageLen - 10
    then send_method (overflow_warning (date e)) sev g2 else g2)"
  have "log_statement e tid file line sev parts g = Inr g3"
    using g w(1) assms(3) statement_nonempty [of e tid "file" line sev parts]
    by (simp add: log_statement_eq Flush_def flush_locked_def statement_text(2) g3_def g2_def g1_def
        del: upt_Suc flip: out ks_def)
  moreover have g3: "files g3 = fs" "destinations g3 = ds" "date_alive g3" "\<not> g_async g3"
      "g_log_dir g3 = dir" "g_program_name g3 = Some program"
    using g by (simp_all add: g3_def g2_def g1_def send_method_def)
  moreover have "session_ok dir program g3"
    using g w(2-4) g3 by (auto simp: session_ok_def later_disk_def grows_def)
  ultimately show ?thesis using w(4,5) ks by (intro exI [of _ g3]) simp
qed

definition statement_class :: "statement \<Rightarrow> nat" where
  "statement_class = (\<lambda>(e, tid, f, line, sev, parts). GetLogFileSeverityIndex sev)"

text \<open>The texts of the statements whose severity class is at least \<open>k\<close>.\<close>

definition texts_of_class :: "nat \<Rightarrow> statement list \<Rightarrow> string list" where
  "texts_of_class k xs = map statement_output
     (filter (\<lambda>(e, tid, f, line, sev, parts). k \<le> GetLogFileSeverityIndex sev) xs)"

lemma log_statements_land:
  "session_ok dir program g \<Longrightarrow> list_all (\<lambda>x. env_ok (fst x) \<and> not_fatal x) xs \<Longrightarrow>
    \<exists>g'. log_statements xs g = Inr g' \<and> session_ok dir program g'
      \<and> later_disk dir program (files g) (files g')
      \<and> (\<forall>k < LOG_FILE_SEVERITIES. \<exists>targets.
           list_all (class_file dir program k (files g')) targets
         \<and> all_delivered targets (texts_of_class k xs) (files g) (files g'))"
proof (induction xs g rule: log_statements.induct)
  case (1 g)
  then have "later_disk dir program (files g) (files g)"
    by (simp add: session_ok_def later_disk_def)
  moreover have "\<exists>targets. list_all (class_file dir program k (files g)) targets
      \<and> all_delivered targets (texts_of_class k []) (files g) (files g)" for k
    using all_delivered_Nil [of "files g" "files g"]
    by (intro exI [of _ "[]"]) (simp add: texts_of_class_def)
  ultimately show ?case using 1 by simp
next
  case (2 e tid f line sev parts xs g)
  define out where "out = message_output (statement_message e tid f line sev parts)"
  obtain g1 where 1: "log_statement e tid f line sev parts g = Inr g1" "session_ok dir program g1"
      "later_disk dir program (files g) (files g1)"
      "\<forall>k \<le> GetLogFileSeverityIndex sev. class_logs.landed dir program k out (files g) (files g1)"
    using log_statement_lands [OF 2(2) _ _ out_def] 2(3) by (auto simp: not_fatal_def)
  with 2(1) [OF 1(2)] 2(3) obtain g' where
    r: "log_statements xs g1 = Inr g'" "session_ok dir program g'"
      "later_disk dir program (files g1) (files g')"
    and d: "\<forall>k < LOG_FILE_SEVERITIES. \<exists>targets. list_all (class_file dir program k (files g')) targets
         \<and> all_delivered targets (texts_of_class k xs) (files g1) (files g')" by auto
  have "\<exists>targets. list_all (class_file dir program k (files g')) targets
      \<and> all_delivered targets (texts_of_class k ((e, tid, f, line, sev, parts) # xs)) (files g) (files g')"
    if k: "k < LOG_FILE_SEVERITIES" for k
  proof -
    from d k obtain ts where ts: "list_all (class_file dir program k (files g')) ts"
        "all_delivered ts (texts_of_class k xs) (files g1) (files g')" by blast
    have grows: "grows (files g) (files g1)" using 1(3) by (simp add: later_disk_def)
    show ?thesis
    proof (cases "k \<le> GetLogFileSeverityIndex sev")
      case True
      with 1(4) obtain n s t where n: "n < next_file (files g1)" "class_file dir program k (files g1) n"
          "data (files g1) n = old_data (files g) n @ s @ out @ t"
        unfolding class_logs.landed_def by blast
      have "texts_of_class k ((e, tid, f, line, sev, parts) # xs) = out # texts_of_class k xs"
        using True by (simp add: texts_of_class_def statement_output_def out_def)
      with all_delivered_Cons [OF grows n(1,3) ts(2)] ts(1) class_file_later [OF k n(2) r(3)]
      show ?thesis by (intro exI [of _ "n # ts"]) simp
    next
      case False
      with all_delivered_skip [OF grows ts(2)] ts(1) show ?thesis
        by (auto simp: texts_of_class_def)
    qed
  qed
  with 1(1,3) r later_disk_trans show ?case by auto
qed

text \<open>
  C4. After \<open>InitLogging\<close> with an existing directory, on a disk that takes every file, no LOG
  statement fails, whatever severities the statements have but FATAL (which ends the program), however the clock behaves between them and
  however often the log files roll; and for each class \<open>k\<close> the texts of all the statements of that class
  and the higher ones stand, each in one piece, in files with a name of class \<open>k\<close>, those of the
  same file in the order of the statements.
\<close>

theorem log_statements_reach_files:
  assumes "fs_ready fs" "dirs fs dir" "dir \<noteq> []" "list_all (\<lambda>x. env_ok (fst x) \<and> not_fatal x) xs"
  shows "\<exists>g g'. InitLogging_dir (Some argv0) (Some dir) (logging_start fs) = Inr g
    \<and> log_statements xs g = Inr g'
    \<and> (\<forall>k < LOG_FILE_SEVERITIES. \<exists>targets. length targets = length (texts_of_class k xs)
         \<and> list_all (class_file dir (ConstShortFileName argv0) k (files g')) targets
         \<and> (\<forall>f. in_order (part f targets (texts_of_class k xs)) (data (files g') f)))"
proof -
  define p where "p = ConstShortFileName argv0"
  define g where "g = (logging_start fs)\<lparr>g_log_dir := dir, g_program_name := Some p,
    g_program_invocation_short_name := Some p\<rparr>"
  have init: "InitLogging_dir (Some argv0) (Some dir) (logging_start fs) = Inr g"
    by (simp add: InitLogging_dir_def InitLogging_def logging_start_def g_def p_def Let_def)
  have "session_ok dir p g"
    using assms(1-3) by (simp add: session_ok_def g_def logging_start_def class_logs.sinks_live_def)
  from log_statements_land [OF this assms(4)] obtain g' where
    "log_statements xs g = Inr g'"
    "\<forall>k < LOG_FILE_SEVERITIES. \<exists>targets. list_all (class_file dir p k (files g')) targets
       \<and> all_delivered targets (texts_of_class k xs) (files g) (files g')" by blast
  with init show ?thesis
    unfolding p_def by (metis all_delivered_def all_delivered_in_order)
qed

lemma log_statements_reach_files_witness:
  "let xs = [(example_env, 7, ''a.cc'', 12, INFO, [''low'']), (example_env\<lparr>now := 5\<rparr>, 8, ''b.cc'', 3, ERROR, [''high''])]
   in \<exists>g g' targets. InitLogging_dir (Some ''bin/prog'') (Some ''log'') (logging_start example_fs) = Inr g
     \<and> log_statements xs g = Inr g' \<and> length targets = 1
     \<and> list_all (class_file ''log'' ''prog'' 1 (files g')) targets
     \<and> (\<forall>f. in_order (part f targets (texts_of_class 1 xs)) (data (files g') f))"
proof -
  let ?xs = "[(example_env, 7 :: nat, ''a.cc'', 12 :: int, INFO, [''low'']),
    (example_env\<lparr>now := 5\<rparr>, 8, ''b.cc'', 3, ERROR, [''high''])]"
  have p: "ConstShortFileName ''bin/prog'' = ''prog''" by (simp add: ConstShortFileName_def)
  have r: "fs_ready example_fs" "dirs example_fs ''log''" "list_all (\<lambda>x. env_ok (fst x) \<and> not_fatal x) ?xs"
    by (auto simp: fs_ready_def example_log_simps not_fatal_def)
  have c: "GetLogFileSeverityIndex INFO = 0" "GetLogFileSeverityIndex ERROR = 2" by code_simp+
  have n: "length (texts_of_class 1 ?xs) = 1" by (simp add: texts_of_class_def c)
  have k: "1 < LOG_FILE_SEVERITIES" by (simp add: LOG_FILE_SEVERITIES_def)
  from log_statements_reach_files [OF r(1,2) _ r(3), of "''bin/prog''"] k n
  show ?thesis unfolding Let_def p by (metis (no_types, lifting) list.distinct(1))
qed

end
