(* ===== verification/Log_Threads.thy ===== *)
theory Log_Threads
  imports Log_Delivery
begin

text \<open>
  LOG statements in several threads (base/logging.cc): each thread builds its messages by itself, and
  \<open>Flush\<close> takes the lock \<open>mutex\<close>, writes to one log file after the other, calls the send method and
  gives the lock back; the warning about a message that is nearly too long is sent after that. Every
  read or write of shared data is a step of its own, so the threads interleave between any two of
  them. A statement can contain others, in its operands and in the send method of the client, so a
  thread has a stack of messages. A LOG(FATAL) ends the program, for all threads: at once, or after its
  message has been flushed, if the implementation unwinds the stack.
\<close>

section \<open>The threads\<close>

text \<open>
  Where a message is: its operands are being evaluated; at the lock; writing to the log files that
  are left; about to call the send method; in that call; about to unlock; about to send the warning;
  in that call.
\<close>

datatype phase = Building | At_lock | Writing "nat list" | Sending | In_send | Leaving | Warning | Warned

record frame =
  stmt :: statement
  lmsg :: LogMessage
  phase :: phase

text \<open>
  \<open>committed\<close>: the statements whose messages took the lock, in order. \<open>fault\<close>: how the program has
  ended, if it has.
\<close>

record log_threads =
  shared :: logging
  lock_owner :: "nat option"
  stacks :: "frame list list"
  committed :: "statement list"
  fault :: "cxx_error option"

definition threads_start :: "nat \<Rightarrow> logging \<Rightarrow> log_threads" where
  "threads_start n g =
     \<lparr>shared = g, lock_owner = None, stacks = replicate n [], committed = [], fault = None\<rparr>"

definition set_stack :: "nat \<Rightarrow> frame list \<Rightarrow> log_threads \<Rightarrow> log_threads" where
  "set_stack t st s = s\<lparr>stacks := (stacks s)[t := st]\<rparr>"

definition set_phase :: "nat \<Rightarrow> phase \<Rightarrow> log_threads \<Rightarrow> log_threads" where
  "set_phase t p s = (case stacks s ! t of
     [] \<Rightarrow> s | fr # rest \<Rightarrow> set_stack t (fr\<lparr>phase := p\<rparr> # rest) s)"

text \<open>The end of a statement: the destructor of a fatal message does not return.\<close>

definition end_statement :: "nat \<Rightarrow> frame \<Rightarrow> log_threads \<Rightarrow> log_threads cxx" where
  "end_statement t fr s =
     (if severity_of (lmsg fr) = FATAL then Inl Terminated else Inr (set_stack t (tl (stacks s ! t)) s))"

section \<open>A message on its way\<close>

text \<open>The branches of \<open>Flush\<close> under the lock: where they begin, and after the loop over the log files.\<close>

definition written_phase :: "logging \<Rightarrow> phase" where
  "written_phase g = (if g_log_dir g = [] \<or> g_alsologtostderr g then Sending else Leaving)"

definition locked_phase :: "logging \<Rightarrow> LogMessage \<Rightarrow> phase" where
  "locked_phase g m =
     (if g_async g then Sending
      else if g_log_dir g \<noteq> [] \<and> g_program_name g \<noteq> None
      then Writing [0..<Suc (GetLogFileSeverityIndex (severity_of m))]
      else written_phase g)"

text \<open>One round of the loop.\<close>

definition write_destination :: "env \<Rightarrow> string \<Rightarrow> nat \<Rightarrow> logging \<Rightarrow> logging cxx" where
  "write_destination e out i g = (case g_program_name g of
     None \<Rightarrow> Inl Undefined_Behaviour
   | Some program \<Rightarrow>
       cxx_bind (write_destinations (new_destination (g_log_dir g) program e) (LogFile_Write e)
           LogFile_Flush out [i] (files g, destinations g)) (\<lambda>(fs, ds).
         Inr (g\<lparr>files := fs, destinations := ds\<rparr>)))"

text \<open>
  What a thread does next with the message on top of its stack; \<open>None\<close> while it waits for the lock.
  The destructor of a fatal message terminates the program before \<open>Flush\<close>, or unwinds the stack.
\<close>

fun flush_next :: "env \<Rightarrow> nat \<Rightarrow> frame \<Rightarrow> phase \<Rightarrow> log_threads \<Rightarrow> log_threads cxx option" where
  "flush_next e t fr Building s =
     Some (if severity_of (lmsg fr) = FATAL \<and> \<not> unwinds_stack e then Inl Terminated
           else if stream (lmsg fr) = [] then Inl Undefined_Behaviour else Inr (set_phase t At_lock s))"
| "flush_next e t fr At_lock s =
     (if lock_owner s \<noteq> None then None
      else Some (Inr (set_phase t (locked_phase (shared s) (lmsg fr))
        (s\<lparr>lock_owner := Some t, committed := committed s @ [stmt fr]\<rparr>))))"
| "flush_next e t fr (Writing []) s = Some (Inr (set_phase t (written_phase (shared s)) s))"
| "flush_next e t fr (Writing (i # is)) s =
     Some (cxx_bind (write_destination e (message_output (lmsg fr)) i (shared s)) (\<lambda>g.
       Inr (set_phase t (Writing is) (s\<lparr>shared := g\<rparr>))))"
| "flush_next e t fr Sending s =
     Some (Inr (set_phase t In_send (s\<lparr>shared := send_method (message_output (lmsg fr))
       (if g_async (shared s) then severity_of (lmsg fr) else INFO) (shared s)\<rparr>)))"
| "flush_next e t fr In_send s = Some (Inr (set_phase t Leaving s))"
| "flush_next e t fr Leaving s =
     Some (if length (message_output (lmsg fr)) > kMaxLogMessageLen - 10
       then Inr (set_phase t Warning (s\<lparr>lock_owner := None\<rparr>))
       else end_statement t fr (s\<lparr>lock_owner := None\<rparr>))"
| "flush_next e t fr Warning s =
     Some (Inr (set_phase t Warned
       (s\<lparr>shared := send_method (overflow_warning (date e)) (severity_of (lmsg fr)) (shared s)\<rparr>)))"
| "flush_next e t fr Warned s = Some (end_statement t fr s)"

text \<open>
  Where a thread can begin a statement: outside any, in the operands of one, and in a send method of
  the client.
\<close>

definition may_log :: "logging \<Rightarrow> frame list \<Rightarrow> bool" where
  "may_log g st = (case st of
     [] \<Rightarrow> True
   | fr # _ \<Rightarrow> phase fr = Building \<or> (phase fr = In_send \<or> phase fr = Warned) \<and> sender g \<noteq> None)"

fun add_part :: "string \<Rightarrow> statement \<Rightarrow> statement" where
  "add_part x (e, tid, f, line, sev, parts) = (e, tid, f, line, sev, parts @ [x])"

text \<open>
  The steps: a LOG statement begins; an operand is written to the stream of its message; the thread
  goes on with its message. The clock and what else it reads from outside is arbitrary. Once the
  program has ended no thread takes a step.
\<close>

inductive log_step :: "log_threads \<Rightarrow> log_threads \<Rightarrow> bool" where
  begin_log: "fault s = None \<Longrightarrow> t < length (stacks s) \<Longrightarrow> may_log (shared s) (stacks s ! t) \<Longrightarrow>
    LogMessage_new e t file line sev (shared s) = Inr m \<Longrightarrow>
    log_step s (set_stack t (\<lparr>stmt = (e, t, file, line, sev, []), lmsg = stream_put m '' '',
      phase = Building\<rparr> # stacks s ! t) s)"
| begin_fails: "fault s = None \<Longrightarrow> t < length (stacks s) \<Longrightarrow> may_log (shared s) (stacks s ! t) \<Longrightarrow>
    LogMessage_new e t file line sev (shared s) = Inl err \<Longrightarrow>
    log_step s (s\<lparr>fault := Some err\<rparr>)"
| operand: "fault s = None \<Longrightarrow> t < length (stacks s) \<Longrightarrow> stacks s ! t = fr # rest \<Longrightarrow> phase fr = Building \<Longrightarrow>
    log_step s (set_stack t (fr\<lparr>stmt := add_part x (stmt fr), lmsg := stream_put (lmsg fr) x\<rparr> # rest) s)"
| flush: "fault s = None \<Longrightarrow> t < length (stacks s) \<Longrightarrow> stacks s ! t = fr # rest \<Longrightarrow> env_ok e \<Longrightarrow>
    flush_next e t fr (phase fr) s = Some (Inr s') \<Longrightarrow> log_step s s'"
| flush_fails: "fault s = None \<Longrightarrow> t < length (stacks s) \<Longrightarrow> stacks s ! t = fr # rest \<Longrightarrow> env_ok e \<Longrightarrow>
    flush_next e t fr (phase fr) s = Some (Inl err) \<Longrightarrow> log_step s (s\<lparr>fault := Some err\<rparr>)"

text \<open>The program has not ended, or a LOG(FATAL) has ended it.\<close>

definition fatal_frame :: "log_threads \<Rightarrow> bool" where
  "fatal_frame s \<longleftrightarrow> (\<exists>t < length (stacks s). \<exists>fr rest. stacks s ! t = fr # rest \<and> severity_of (lmsg fr) = FATAL)"

definition only_fatal :: "log_threads \<Rightarrow> bool" where
  "only_fatal s \<longleftrightarrow> fault s = None \<or> fault s = Some Terminated \<and> fatal_frame s"

section \<open>Who holds the lock\<close>

definition in_section :: "frame \<Rightarrow> bool" where
  "in_section fr = (case phase fr of
     Writing _ \<Rightarrow> True | Sending \<Rightarrow> True | In_send \<Rightarrow> True | Leaving \<Rightarrow> True | _ \<Rightarrow> False)"

text \<open>The thread that has the lock and its message in the section, if any; no other message is in it.\<close>

definition holds_lock :: "log_threads \<Rightarrow> (nat \<times> frame) option \<Rightarrow> bool" where
  "holds_lock s h \<longleftrightarrow> lock_owner s = map_option fst h
     \<and> (\<forall>t < length (stacks s). filter in_section (stacks s ! t) =
          (case h of None \<Rightarrow> [] | Some (u, fr) \<Rightarrow> if t = u then [fr] else []))
     \<and> (case h of None \<Rightarrow> True | Some (u, fr) \<Rightarrow> u < length (stacks s))"

lemma holds_lock_same:
  "holds_lock s h \<Longrightarrow> t < length (stacks s) \<Longrightarrow> filter in_section st = filter in_section (stacks s ! t) \<Longrightarrow>
    holds_lock (set_stack t st s) h"
  by (auto simp: holds_lock_def set_stack_def nth_list_update split: option.splits)

lemma holds_lock_take:
  "holds_lock s None \<Longrightarrow> t < length (stacks s) \<Longrightarrow> filter in_section st = [fr] \<Longrightarrow>
    holds_lock (set_stack t st (s\<lparr>lock_owner := Some t, committed := c\<rparr>)) (Some (t, fr))"
  by (auto simp: holds_lock_def set_stack_def nth_list_update)

lemma holds_lock_go_on:
  "holds_lock s (Some (t, fr)) \<Longrightarrow> filter in_section st = [fr'] \<Longrightarrow>
    holds_lock (set_stack t st s) (Some (t, fr'))"
  by (auto simp: holds_lock_def set_stack_def nth_list_update)

lemma holds_lock_leave:
  "holds_lock s (Some (t, fr)) \<Longrightarrow> filter in_section st = [] \<Longrightarrow>
    holds_lock (set_stack t st (s\<lparr>lock_owner := None\<rparr>)) None"
  by (auto simp: holds_lock_def set_stack_def nth_list_update split: if_splits)

lemma holds_lock_top:
  assumes "holds_lock s h" "t < length (stacks s)" "stacks s ! t = fr # rest" "in_section fr"
  shows "h = Some (t, fr)" "filter in_section rest = []"
  using assms by (auto simp: holds_lock_def split: option.splits if_splits)

lemma holds_lock_shared [simp]:
  "holds_lock (s\<lparr>shared := g\<rparr>) h = holds_lock s h"
  "holds_lock (s\<lparr>fault := x\<rparr>) h = holds_lock s h"
  by (simp_all add: holds_lock_def split: option.split)

section \<open>Messages of statements\<close>

definition statement_lmsg :: "statement \<Rightarrow> LogMessage" where
  "statement_lmsg = (\<lambda>(e, tid, f, line, sev, parts). statement_message e tid f line sev parts)"

lemma statement_lmsg_facts:
  "stream (statement_lmsg x) \<noteq> []" "severity_of (statement_lmsg x) = (case x of (e, tid, f, line, sev, parts) \<Rightarrow> sev)"
  "message_output (statement_lmsg x) = statement_output x"
  "statement_output x \<noteq> []" "length (statement_output x) < 2 ^ 31"
proof -
  obtain e tid f line sev parts where x: "x = (e, tid, f, line, sev, parts)" by (cases x)
  then show "stream (statement_lmsg x) \<noteq> []" "message_output (statement_lmsg x) = statement_output x"
    "severity_of (statement_lmsg x) = (case x of (e, tid, f, line, sev, parts) \<Rightarrow> sev)"
    by (simp_all add: statement_lmsg_def statement_output_def statement_nonempty statement_text(2))
  from x log_statement_text_facts [of e tid f line sev parts] show "statement_output x \<noteq> []"
    "length (statement_output x) < 2 ^ 31" by (simp_all add: statement_output_def)
qed

lemma statement_lmsg_severity: "severity_of (statement_lmsg (e, t, f, line, sev, parts)) = sev"
  by (simp add: statement_lmsg_facts(2))

lemma statement_lmsg_index: "GetLogFileSeverityIndex (severity_of (statement_lmsg x)) = statement_class x"
  by (cases x) (simp add: statement_lmsg_facts statement_class_def)

lemma statement_class_less: "statement_class x < LOG_FILE_SEVERITIES"
  using severity_index_less by (cases x) (simp add: statement_class_def)

lemma stream_put_statement:
  "stream_put (statement_lmsg x) p = statement_lmsg (add_part p x)"
  by (cases x) (simp add: statement_lmsg_def statement_message_def)

lemma new_statement:
  "LogMessage_new e t file line sev g = Inr m \<Longrightarrow>
    stream_put m '' '' = statement_lmsg (e, t, file, line, sev, [])"
  by (auto simp: LogMessage_new_def statement_lmsg_def statement_message_def split: if_splits)

lemma set_stack_simps [simp]:
  "shared (set_stack t st s) = shared s" "lock_owner (set_stack t st s) = lock_owner s"
  "committed (set_stack t st s) = committed s" "fault (set_stack t st s) = fault s"
  "stacks (set_stack t st s) = (stacks s)[t := st]"
  by (simp_all add: set_stack_def)

lemma set_phase_eq:
  "stacks s ! t = fr # rest \<Longrightarrow> set_phase t p s = set_stack t (fr\<lparr>phase := p\<rparr> # rest) s"
  by (simp add: set_phase_def)

lemma set_phase_fault [simp]: "fault (set_phase t p s) = fault s"
  by (simp add: set_phase_def split: list.split)

section \<open>Mutual exclusion\<close>

text \<open>Whatever the settings are, at most one thread is in the section.\<close>

lemma section_step:
  assumes "holds_lock s h" "t < length (stacks s)" "stacks s ! t = fr # rest" "in_section fr"
    and "s' = set_phase t p (s\<lparr>shared := g\<rparr>)" "in_section (fr\<lparr>phase := p\<rparr>)"
  shows "\<exists>h'. holds_lock s' h'"
proof -
  note top = holds_lock_top [OF assms(1-4)]
  have "holds_lock (set_stack t (fr\<lparr>phase := p\<rparr> # rest) (s\<lparr>shared := g\<rparr>)) (Some (t, fr\<lparr>phase := p\<rparr>))"
    using assms(1,6) top by (intro holds_lock_go_on [of _ t fr]) simp_all
  then show ?thesis
    using assms(3,5) set_phase_eq [of "s\<lparr>shared := g\<rparr>" t fr rest p] by auto
qed

lemma flush_next_holds:
  assumes h: "holds_lock s h" and t: "t < length (stacks s)" "stacks s ! t = fr # rest"
    and r: "flush_next e t fr (phase fr) s = Some (Inr s')"
  shows "\<exists>h'. holds_lock s' h'"
proof (cases "in_section fr")
  case True
  note top = holds_lock_top [OF h t True]
  show ?thesis
  proof (cases "phase fr = Leaving")
    case True
    have "holds_lock (set_stack t st (s\<lparr>lock_owner := None\<rparr>)) None"
      if "st = fr\<lparr>phase := Warning\<rparr> # rest \<or> st = rest" for st
      using that h top by (intro holds_lock_leave [of _ t fr]) (auto simp: in_section_def)
    from this [of "fr\<lparr>phase := Warning\<rparr> # rest"] this [of rest] r True t(2)
      set_phase_eq [of "s\<lparr>lock_owner := None\<rparr>" t fr rest Warning] show ?thesis
      by (auto simp: end_statement_def split: if_splits)
  next
    case False
    with True r obtain p g where "s' = set_phase t p (s\<lparr>shared := g\<rparr>)" "in_section (fr\<lparr>phase := p\<rparr>)"
    proof (cases "phase fr")
      case (Writing "is")
      with r show ?thesis
        using that [of "written_phase (shared s)" "shared s"] that [of "Writing (tl is)"]
        by (cases "is") (auto simp: in_section_def written_phase_def cxx_bind_eq_Inr)
    next
      case Sending
      with r show ?thesis using that [of In_send] by (auto simp: in_section_def)
    next
      case In_send
      with r show ?thesis using that [of Leaving "shared s"] by (auto simp: in_section_def)
    qed (auto simp: in_section_def)
    with section_step [OF h t True] show ?thesis by blast
  qed
next
  case False
  note same = holds_lock_same [OF h t(1)]
  show ?thesis
  proof (cases "phase fr")
    case Building
    with False r t(2) same [of "fr\<lparr>phase := At_lock\<rparr> # rest"] show ?thesis
      by (auto simp: in_section_def set_phase_eq [OF t(2)] split: if_splits)
  next
    case At_lock
    let ?p = "locked_phase (shared s) (lmsg fr)"
      and ?s = "s\<lparr>lock_owner := Some t, committed := committed s @ [stmt fr]\<rparr>"
    have o: "h = None" using r At_lock h by (cases h) (auto simp: holds_lock_def split: if_splits)
    then have "filter in_section rest = []" using h t by (auto simp: holds_lock_def split: if_splits)
    moreover have "in_section (fr\<lparr>phase := ?p\<rparr>)"
      by (simp add: in_section_def locked_phase_def written_phase_def)
    ultimately have "holds_lock (set_stack t (fr\<lparr>phase := ?p\<rparr> # rest) ?s) (Some (t, fr\<lparr>phase := ?p\<rparr>))"
      using h o t(1) by (intro holds_lock_take) simp_all
    with r At_lock t(2) set_phase_eq [of ?s t fr rest ?p] show ?thesis by (auto split: if_splits)
  next
    case Warning
    let ?s = "s\<lparr>shared := send_method (overflow_warning (date e)) (severity_of (lmsg fr)) (shared s)\<rparr>"
    have "holds_lock (set_stack t (fr\<lparr>phase := Warned\<rparr> # rest) ?s) h"
      using h t False by (intro holds_lock_same) (simp_all add: in_section_def)
    with r Warning t(2) set_phase_eq [of ?s t fr rest Warned] show ?thesis by auto
  next
    case Warned
    with False r t(2) same [of rest] show ?thesis
      by (auto simp: in_section_def end_statement_def split: if_splits)
  qed (use False in \<open>auto simp: in_section_def\<close>)
qed

lemma holds_lock_step: "log_step s s' \<Longrightarrow> holds_lock s h \<Longrightarrow> \<exists>h'. holds_lock s' h'"
proof (induction arbitrary: h rule: log_step.induct)
  case (begin_log s t e f line sev m)
  then show ?case
    by (intro exI [of _ h] holds_lock_same) (simp_all add: in_section_def)
next
  case (operand s t fr rest x)
  then show ?case
    by (intro exI [of _ h] holds_lock_same) (simp_all add: in_section_def)
next
  case (flush s t fr rest e s')
  then show ?case using flush_next_holds by blast
qed auto

interpretation log_lock: inductive_invariant "\<lambda>s. s = threads_start n g" log_step
  "\<lambda>s. \<exists>h. holds_lock s h" for n g
proof (unfold_locales, goal_cases)
  case 1
  then show ?case by (auto simp: holds_lock_def threads_start_def intro!: exI [of _ None])
qed (use holds_lock_step in blast)

text \<open>A message of the thread that holds the lock, when it waits for it itself, waits for ever.\<close>

lemma stuck_step:
  assumes "log_step s s'" "holds_lock s h" "t < length (stacks s)" "stacks s ! t = fr # rest"
    and "phase fr = At_lock" "lock_owner s = Some t"
  shows "lock_owner s' = Some t \<and> length (stacks s') = length (stacks s) \<and> stacks s' ! t = fr # rest
    \<and> committed s' = committed s"
  using assms(1)
proof cases
  case (begin_log u e f line sev m)
  then have "u \<noteq> t" using assms(4,5) by (auto simp: may_log_def)
  with begin_log assms show ?thesis by auto
next
  case (operand u x rest' p)
  then have "u \<noteq> t" using assms(4,5) by auto
  with operand assms show ?thesis by auto
next
  case (flush u x rest' e)
  have "u \<noteq> t" using flush(3,5) assms(4-6) by auto
  moreover have "\<not> in_section x"
    using holds_lock_top(1) [OF assms(2) flush(2,3)] assms(2,6) \<open>u \<noteq> t\<close> by (auto simp: holds_lock_def)
  ultimately show ?thesis
    using flush assms(3,4,6) set_phase_eq [OF flush(3)]
      set_phase_eq [of "s\<lparr>shared := send_method (overflow_warning (date e)) (severity_of (lmsg x)) (shared s)\<rparr>" u x rest' Warned]
    by (cases "phase x") (auto simp: in_section_def end_statement_def split: if_splits)
qed (use assms in auto)

text \<open>
  C35. A LOG statement inside a send method deadlocks: when a thread that holds the lock waits for it with
  a statement of its send method, then in every continuation it holds the lock and waits for ever,
  and no message of any thread gets the lock again.
\<close>

theorem logging_in_send_method_deadlocks:
  assumes "reach (\<lambda>s. s = threads_start n g) log_step s"
    and "t < length (stacks s)" "stacks s ! t = fr # rest" "phase fr = At_lock" "lock_owner s = Some t"
    and "log_step\<^sup>*\<^sup>* s s'"
  shows "lock_owner s' = Some t \<and> stacks s' ! t = fr # rest \<and> committed s' = committed s"
proof -
  have "reach (\<lambda>s. s = threads_start n g) log_step s' \<and> lock_owner s' = Some t
      \<and> length (stacks s') = length (stacks s) \<and> stacks s' ! t = fr # rest \<and> committed s' = committed s"
    using assms(6)
  proof (induction rule: rtranclp_induct)
    case base
    show ?case using assms(1-5) by simp
  next
    case (step u v)
    then have u: "reach (\<lambda>s. s = threads_start n g) log_step u" by blast
    obtain h where "holds_lock u h" using log_lock.reachable_inv [OF u] by blast
    from stuck_step [OF step.hyps(2) this, of t fr rest] step.IH assms(2,4) reach_step [OF u step.hyps(2)]
    show ?case by auto
  qed
  then show ?thesis by blast
qed

section \<open>A concrete run\<close>

datatype log_event = Begin_log nat LogSeverity | Operand nat string | Next nat

fun log_schedule :: "env \<Rightarrow> log_threads \<Rightarrow> log_event \<Rightarrow> log_threads" where
  "log_schedule e s (Begin_log t sev) =
     (if fault s = None \<and> t < length (stacks s) \<and> may_log (shared s) (stacks s ! t) \<and> date_alive (shared s)
      then set_stack t (\<lparr>stmt = (e, t, ''a.cc'', 12, sev, []),
        lmsg = statement_lmsg (e, t, ''a.cc'', 12, sev, []), phase = Building\<rparr> # stacks s ! t) s
      else s)"
| "log_schedule e s (Operand t x) =
     (if fault s = None \<and> t < length (stacks s) then case stacks s ! t of
        fr # rest \<Rightarrow> (if phase fr = Building
          then set_stack t (fr\<lparr>stmt := add_part x (stmt fr), lmsg := stream_put (lmsg fr) x\<rparr> # rest) s else s)
      | [] \<Rightarrow> s
      else s)"
| "log_schedule e s (Next t) =
     (if fault s = None \<and> t < length (stacks s) then case stacks s ! t of
        fr # rest \<Rightarrow> (case flush_next e t fr (phase fr) s of
          Some (Inr s') \<Rightarrow> s' | Some (Inl err) \<Rightarrow> s\<lparr>fault := Some err\<rparr> | None \<Rightarrow> s)
      | [] \<Rightarrow> s
      else s)"

lemma begin_step:
  "fault s = None \<Longrightarrow> t < length (stacks s) \<Longrightarrow> may_log (shared s) (stacks s ! t) \<Longrightarrow> date_alive (shared s) \<Longrightarrow>
    x = (e, t, f, line, sev, []) \<Longrightarrow>
    log_step s (set_stack t (\<lparr>stmt = x, lmsg = statement_lmsg x, phase = Building\<rparr> # stacks s ! t) s)"
  using log_step.begin_log [of s t e f line sev]
    new_statement [of e t f line sev "shared s"] by (fastforce simp: LogMessage_new_def)

lemma log_schedule_step:
  assumes "env_ok e"
  shows "log_step s (log_schedule e s x) \<or> log_schedule e s x = s"
  using assms by (cases x)
    (auto split: list.split sum.split option.split intro: begin_step log_step.operand
      log_step.flush log_step.flush_fails)

lemma log_schedule_reach:
  "env_ok e \<Longrightarrow> init s \<Longrightarrow> reach init log_step (foldl (log_schedule e) s xs)"
  by (rule reach_foldl) (simp_all add: log_schedule_step reach_init)

text \<open>
  A program that never initialises logging and whose send method logs: thread 0 waits for the lock it
  has, and thread 1 for thread 0.
\<close>

definition deadlock_example :: log_threads where
  "deadlock_example = foldl (log_schedule example_env)
     (threads_start 2 ((logging_start example_fs)\<lparr>sender := Some 1\<rparr>))
     [Begin_log 0 INFO, Next 0, Next 0, Next 0, Begin_log 0 WARN, Next 0]"

lemmas log_run_simps = threads_start_def logging_start_def may_log_def set_phase_eq locked_phase_def
  written_phase_def send_method_def statement_lmsg_facts(1) statement_lmsg_severity set_stack_def

lemma deadlock_example_state:
  "lock_owner deadlock_example = Some 0 \<and> length (stacks deadlock_example) = 2
   \<and> map phase (stacks deadlock_example ! 0) = [At_lock, In_send]"
  by (simp add: deadlock_example_def log_run_simps numeral_2_eq_2)

text \<open>Thread 1 comes to the lock with a statement of its own.\<close>

lemma logging_in_send_method_deadlocks_witness:
  "\<exists>s'. log_step\<^sup>*\<^sup>* deadlock_example s' \<and> map phase (stacks s' ! 1) = [At_lock]
     \<and> lock_owner s' = Some 0 \<and> map phase (stacks s' ! 0) = [At_lock, In_send]
     \<and> committed s' = committed deadlock_example"
proof -
  define u where "u = log_schedule example_env deadlock_example (Begin_log 1 ERROR)"
  define v where "v = log_schedule example_env u (Next 1)"
  note d = deadlock_example_state
  obtain fr rest where fr: "stacks deadlock_example ! 0 = fr # rest" "phase fr = At_lock"
    using d by (cases "stacks deadlock_example ! 0") auto
  have e: "env_ok example_env" by (simp add: example_log_simps)
  then have r: "reach (\<lambda>s. s = threads_start 2 ((logging_start example_fs)\<lparr>sender := Some 1\<rparr>)) log_step deadlock_example"
    unfolding deadlock_example_def by (rule log_schedule_reach) simp
  have "log_step deadlock_example u \<or> u = deadlock_example" "log_step u v \<or> v = u"
    unfolding u_def v_def using log_schedule_step [OF e] by blast+
  then have steps: "log_step\<^sup>*\<^sup>* deadlock_example v"
    by (auto intro: converse_rtranclp_into_rtranclp)
  have "map phase (stacks v ! 1) = [At_lock]"
    by (simp add: v_def u_def deadlock_example_def log_run_simps numeral_2_eq_2)
  with logging_in_send_method_deadlocks [OF r _ fr(1,2) _ steps] d fr steps show ?thesis by auto
qed

end
