(* ===== verification/Log_Concurrent.thy ===== *)
theory Log_Concurrent
  imports Log_Threads
begin

text \<open>
  LOG statements in several threads that log to files (base/logging.cc): in every interleaving of
  \<^theory_text>\<open>Log_Threads\<close> their texts reach the log files of their classes, and nothing holds a message up.
\<close>

section \<open>The invariant\<close>

text \<open>Which messages can be beneath another one.\<close>

definition stack_ok :: "logging \<Rightarrow> frame list \<Rightarrow> bool" where
  "stack_ok g st \<longleftrightarrow> (\<forall>fr \<in> set st. lmsg fr = statement_lmsg (stmt fr))
     \<and> (\<forall>fr \<in> set (tl st). may_log g [fr])"

text \<open>
  The classes whose log file the message in the section is still to be written to, and the statements
  whose message is in the file of class \<open>k\<close>: all that took the lock, but for the last one while it
  is still to be written there.
\<close>

fun unwritten :: "phase \<Rightarrow> nat list" where
  "unwritten (Writing is) = is"
| "unwritten _ = []"

definition to_write :: "(nat \<times> frame) option \<Rightarrow> nat set" where
  "to_write h = (case h of Some (t, fr) \<Rightarrow> set (unwritten (phase fr)) | None \<Rightarrow> {})"

definition seen :: "nat \<Rightarrow> (nat \<times> frame) option \<Rightarrow> statement list \<Rightarrow> statement list" where
  "seen k h xs = (if k \<in> to_write h then butlast xs else xs)"

definition writer_ok :: "(nat \<times> frame) option \<Rightarrow> statement list \<Rightarrow> bool" where
  "writer_ok h xs = (case h of None \<Rightarrow> True | Some (t, fr) \<Rightarrow> \<forall>is. phase fr = Writing is \<longrightarrow>
     xs \<noteq> [] \<and> last xs = stmt fr \<and> (\<exists>j. is = [j..<Suc (statement_class (stmt fr))]))"

definition class_texts ::
  "string \<Rightarrow> string \<Rightarrow> file_system \<Rightarrow> nat \<Rightarrow> string list \<Rightarrow> file_system \<Rightarrow> bool" where
  "class_texts dir program fs0 k ms fs \<longleftrightarrow>
     (\<exists>ts. list_all (class_file dir program k fs) ts \<and> all_delivered ts ms fs0 fs)"

definition threads_inv ::
  "string \<Rightarrow> string \<Rightarrow> file_system \<Rightarrow> (nat \<times> frame) option \<Rightarrow> log_threads \<Rightarrow> bool" where
  "threads_inv dir program fs0 h s \<longleftrightarrow> session_ok dir program (shared s)
     \<and> later_disk dir program fs0 (files (shared s))
     \<and> (\<forall>st \<in> set (stacks s). stack_ok (shared s) st)
     \<and> holds_lock s h \<and> writer_ok h (committed s)
     \<and> (\<forall>k < LOG_FILE_SEVERITIES. class_texts dir program fs0 k
          (texts_of_class k (seen k h (committed s))) (files (shared s)))"

lemma class_file_next: "fs_ready fs \<Longrightarrow> class_file dir program k fs f \<Longrightarrow> f < next_file fs"
  by (auto simp: class_file_def fs_ready_def)

lemma class_texts_later:
  assumes "class_texts dir program fs0 k ms fs" "k < LOG_FILE_SEVERITIES"
    "later_disk dir program fs0 fs" "later_disk dir program fs fs'"
  shows "class_texts dir program fs0 k ms fs'"
proof -
  from assms(1) obtain ts where ts: "list_all (class_file dir program k fs) ts" "all_delivered ts ms fs0 fs"
    unfolding class_texts_def by blast
  have "set ts \<subseteq> {..<next_file fs}"
    using ts(1) class_file_next [of fs dir program k] assms(3) by (auto simp: list_all_iff later_disk_def)
  with all_delivered_later [OF ts(2)] assms(3,4) have "all_delivered ts ms fs0 fs'"
    by (simp add: later_disk_def)
  moreover have "list_all (class_file dir program k fs') ts"
    using ts(1) class_file_later [OF assms(2) _ assms(4)] by (auto simp: list_all_iff)
  ultimately show ?thesis unfolding class_texts_def by blast
qed

lemma class_texts_snoc:
  assumes "class_texts dir program fs0 k ms fs" "k < LOG_FILE_SEVERITIES"
    "later_disk dir program fs0 fs" "later_disk dir program fs fs'" "class_logs.landed dir program k m fs fs'"
  shows "class_texts dir program fs0 k (ms @ [m]) fs'"
proof -
  from assms(1) obtain ts where ts: "list_all (class_file dir program k fs) ts" "all_delivered ts ms fs0 fs"
    unfolding class_texts_def by blast
  from assms(5) obtain f u v where f: "class_file dir program k fs' f" "data fs' f = old_data fs f @ u @ m @ v"
    unfolding class_logs.landed_def by blast
  have "set ts \<subseteq> {..<next_file fs}"
    using ts(1) class_file_next [of fs dir program k] assms(3) by (auto simp: list_all_iff later_disk_def)
  with all_delivered_snoc [OF ts(2) _ _ _ f(2)] assms(3,4) have "all_delivered (ts @ [f]) (ms @ [m]) fs0 fs'"
    by (simp add: later_disk_def)
  moreover have "list_all (class_file dir program k fs') (ts @ [f])"
    using ts(1) f(1) class_file_later [OF assms(2) _ assms(4)] by (auto simp: list_all_iff)
  ultimately show ?thesis unfolding class_texts_def by blast
qed

text \<open>One round of the loop brings the message to the files of one class.\<close>

lemma write_destination_lands:
  assumes "session_ok dir program g" "env_ok e" "i < LOG_FILE_SEVERITIES" "out \<noteq> []" "length out < 2 ^ 31"
  shows "\<exists>g'. write_destination e out i g = Inr g' \<and> session_ok dir program g'
    \<and> later_disk dir program (files g) (files g') \<and> class_logs.landed dir program i out (files g) (files g')
    \<and> sender g' = sender g"
proof -
  note g = assms(1) [unfolded session_ok_def]
  obtain fs ds where w: "write_destinations (new_destination dir program e) (LogFile_Write e) LogFile_Flush
        out [i] (files g, destinations g) = Inr (fs, ds)"
      "class_logs.sinks_live dir program fs ds" "length ds = LOG_FILE_SEVERITIES"
      "later_disk dir program (files g) fs" "class_logs.landed dir program i out (files g) fs"
    using class_logs.write_destinations_land [OF assms(2,4,5), of dir program "files g" "destinations g" "[i]"]
      g assms(3) by auto
  have "write_destination e out i g = Inr (g\<lparr>files := fs, destinations := ds\<rparr>)"
    using g w(1) by (simp add: write_destination_def del: write_destinations.simps)
  moreover have "session_ok dir program (g\<lparr>files := fs, destinations := ds\<rparr>)"
    using g w(2-4) by (auto simp: session_ok_def later_disk_def grows_def)
  ultimately show ?thesis using w(4,5) by simp
qed

lemma session_ok_send [simp]: "session_ok dir program (send_method m sev g) = session_ok dir program g"
  by (simp add: session_ok_def send_method_def)

lemma send_method_simps [simp]:
  "files (send_method m sev g) = files g" "sender (send_method m sev g) = sender g"
  by (simp_all add: send_method_def)

lemma stack_ok_cong: "sender g' = sender g \<Longrightarrow> stack_ok g' st = stack_ok g st"
  by (simp add: stack_ok_def may_log_def)

lemma threads_invD:
  assumes "threads_inv dir program fs0 h s" "t < length (stacks s)" "stacks s ! t = fr # rest"
  shows "lmsg fr = statement_lmsg (stmt fr)" "stack_ok (shared s) (fr # rest)" "\<forall>x \<in> set rest. may_log (shared s) [x]"
proof -
  have "stack_ok (shared s) (stacks s ! t)" using assms(1,2) by (simp add: threads_inv_def)
  with assms(3) show "lmsg fr = statement_lmsg (stmt fr)" "stack_ok (shared s) (fr # rest)"
    "\<forall>x \<in> set rest. may_log (shared s) [x]"
    by (simp_all add: stack_ok_def)
qed

lemma stack_ok_tl: "stack_ok g (fr # rest) \<Longrightarrow> stack_ok g rest"
  by (cases rest) (simp_all add: stack_ok_def)

lemma stack_ok_phase: "stack_ok g (fr # rest) \<Longrightarrow> stack_ok g (fr\<lparr>phase := p\<rparr> # rest)"
  by (simp add: stack_ok_def)

text \<open>Steps outside the section.\<close>

lemma threads_inv_stack:
  assumes "threads_inv dir program fs0 h s" "t < length (stacks s)" "stack_ok (shared s) st"
    and "filter in_section st = filter in_section (stacks s ! t)"
  shows "threads_inv dir program fs0 h (set_stack t st s)"
  using assms holds_lock_same [of s h t st]
  by (auto simp: threads_inv_def dest!: set_update_subset_insert [THEN subsetD])

lemma threads_inv_send:
  "threads_inv dir program fs0 h s \<Longrightarrow>
    threads_inv dir program fs0 h (s\<lparr>shared := send_method m sev (shared s)\<rparr>)"
  by (simp add: threads_inv_def stack_ok_cong [of "send_method m sev (shared s)" "shared s"])

text \<open>A step of the thread that is in the section, after the loop over the files.\<close>

lemma threads_inv_go_on:
  assumes inv: "threads_inv dir program fs0 h s" and t: "t < length (stacks s)" "stacks s ! t = fr # rest"
    and "in_section fr" "phase fr \<in> {Writing [], Sending, In_send}" "p \<in> {Sending, In_send, Leaving}"
  shows "threads_inv dir program fs0 (Some (t, fr\<lparr>phase := p\<rparr>)) (set_phase t p s)"
proof -
  have h: "holds_lock s h" using inv by (simp add: threads_inv_def)
  note top = holds_lock_top [OF this t assms(4)]
  have "in_section (fr\<lparr>phase := p\<rparr>)" using assms(6) by (auto simp: in_section_def)
  then have "holds_lock (set_stack t (fr\<lparr>phase := p\<rparr> # rest) s) (Some (t, fr\<lparr>phase := p\<rparr>))"
    using h top by (intro holds_lock_go_on) simp_all
  moreover have "seen k (Some (t, fr\<lparr>phase := p\<rparr>)) xs = seen k h xs" "writer_ok (Some (t, fr\<lparr>phase := p\<rparr>)) xs" for k xs
    using assms(5,6) top(1) by (auto simp: seen_def to_write_def writer_ok_def)
  moreover have "stack_ok (shared s) (fr\<lparr>phase := p\<rparr> # rest)"
    using threads_invD(2) [OF inv t] by (simp add: stack_ok_def)
  ultimately show ?thesis
    using inv by (auto simp: threads_inv_def set_phase_eq [OF t(2)] dest!: set_update_subset_insert [THEN subsetD])
qed

lemma threads_inv_acquire:
  assumes inv: "threads_inv dir program fs0 h s" and t: "t < length (stacks s)" "stacks s ! t = fr # rest"
    and "phase fr = At_lock" "lock_owner s = None"
  shows "\<exists>h'. threads_inv dir program fs0 h' (set_phase t (locked_phase (shared s) (lmsg fr))
    (s\<lparr>lock_owner := Some t, committed := committed s @ [stmt fr]\<rparr>))"
proof -
  let ?is = "[0..<Suc (statement_class (stmt fr))]"
  let ?fr = "fr\<lparr>phase := Writing ?is\<rparr>"
  have l: "lmsg fr = statement_lmsg (stmt fr)" "stack_ok (shared s) (?fr # rest)"
    using threads_invD [OF inv t] by (simp_all add: stack_ok_def)
  have p: "locked_phase (shared s) (lmsg fr) = Writing ?is"
    using inv by (simp add: locked_phase_def threads_inv_def session_ok_def l(1) statement_lmsg_index del: upt_Suc)
  have h: "holds_lock s h" "h = None"
    using inv assms(5) by (auto simp: threads_inv_def holds_lock_def)
  have r: "filter in_section rest = []" using h t by (auto simp: holds_lock_def split: if_splits)
  then have "holds_lock (set_stack t (?fr # rest) (s\<lparr>lock_owner := Some t, committed := committed s @ [stmt fr]\<rparr>))
      (Some (t, ?fr))"
    using h t(1) by (intro holds_lock_take) (simp_all add: in_section_def)
  moreover have "texts_of_class k (seen k (Some (t, ?fr)) (committed s @ [stmt fr])) = texts_of_class k (committed s)" for k
    by (auto simp: seen_def to_write_def texts_of_class_def statement_class_def split: prod.splits)
  moreover have "texts_of_class k (seen k h (committed s)) = texts_of_class k (committed s)" for k
    by (simp add: h(2) seen_def to_write_def)
  moreover have "writer_ok (Some (t, ?fr)) (committed s @ [stmt fr])"
    by (auto simp: writer_ok_def simp del: upt_Suc)
  ultimately have "threads_inv dir program fs0 (Some (t, ?fr))
      (set_stack t (?fr # rest) (s\<lparr>lock_owner := Some t, committed := committed s @ [stmt fr]\<rparr>))"
    using inv l(2) by (auto simp: threads_inv_def dest!: set_update_subset_insert [THEN subsetD])
  then show ?thesis
    unfolding p using set_phase_eq [of "s\<lparr>lock_owner := Some t, committed := committed s @ [stmt fr]\<rparr>" t fr rest]
      t(2) by (auto simp del: upt_Suc)
qed

lemma threads_inv_write:
  assumes inv: "threads_inv dir program fs0 h s" and t: "t < length (stacks s)" "stacks s ! t = fr # rest"
    and "phase fr = Writing (i # is)" "env_ok e"
  shows "\<exists>g h'. write_destination e (message_output (lmsg fr)) i (shared s) = Inr g
    \<and> threads_inv dir program fs0 h' (set_phase t (Writing is) (s\<lparr>shared := g\<rparr>))"
proof -
  let ?x = "stmt fr" and ?fr = "fr\<lparr>phase := Writing is\<rparr>" and ?fs = "files (shared s)"
  have l: "lmsg fr = statement_lmsg ?x" "stack_ok (shared s) (?fr # rest)"
    using threads_invD [OF inv t] by (simp_all add: stack_ok_def)
  have hl: "holds_lock s h" "writer_ok h (committed s)" using inv by (auto simp: threads_inv_def)
  have "in_section fr" using assms(4) by (simp add: in_section_def)
  note top = holds_lock_top [OF hl(1) t this]
  obtain j where c: "committed s \<noteq> []" "last (committed s) = ?x" and j: "i # is = [j..<Suc (statement_class ?x)]"
    using hl(2) top(1) assms(4) by (auto simp: writer_ok_def)
  then have i: "i = j" "is = [Suc i..<Suc (statement_class ?x)]" "i \<le> statement_class ?x"
    by (cases "j < Suc (statement_class ?x)"; simp add: upt_conv_Cons del: upt_Suc)+
  have ilt: "i < LOG_FILE_SEVERITIES" using i(3) statement_class_less [of ?x] by simp
  obtain g where g: "write_destination e (statement_output ?x) i (shared s) = Inr g" "session_ok dir program g"
      "later_disk dir program ?fs (files g)" "class_logs.landed dir program i (statement_output ?x) ?fs (files g)"
      "sender g = sender (shared s)"
    using write_destination_lands [OF _ assms(5) ilt statement_lmsg_facts(4,5) [of ?x]] inv
    unfolding threads_inv_def by blast
  have hold: "holds_lock (set_stack t (?fr # rest) (s\<lparr>shared := g\<rparr>)) (Some (t, ?fr))"
    using hl(1) top by (intro holds_lock_go_on [of _ t fr]) (simp_all add: in_section_def)
  have cx: "committed s = butlast (committed s) @ [?x]" using c by (metis append_butlast_last_id)
  have "class_texts dir program fs0 k (texts_of_class k (seen k (Some (t, ?fr)) (committed s))) (files g)"
    if k: "k < LOG_FILE_SEVERITIES" for k
  proof -
    have old: "class_texts dir program fs0 k (texts_of_class k (seen k h (committed s))) ?fs"
      "later_disk dir program fs0 ?fs" using inv k by (auto simp: threads_inv_def)
    show ?thesis
    proof (cases "k = i")
      case True
      then have "seen k h (committed s) = butlast (committed s)" "seen k (Some (t, ?fr)) (committed s) = committed s"
        using top(1) assms(4) i(2) by (simp_all add: seen_def to_write_def del: upt_Suc)
      moreover have "texts_of_class k (committed s) = texts_of_class k (butlast (committed s)) @ [statement_output ?x]"
        using i(3) True by (subst cx) (auto simp: texts_of_class_def statement_class_def split: prod.splits)
      ultimately show ?thesis
        using class_texts_snoc [OF _ k old(2) g(3)] old(1) g(4) True by simp
    next
      case False
      then have "seen k (Some (t, ?fr)) (committed s) = seen k h (committed s)"
        using top(1) assms(4) by (simp add: seen_def to_write_def)
      with class_texts_later [OF old(1) k old(2) g(3)] show ?thesis by simp
    qed
  qed
  moreover have "writer_ok (Some (t, ?fr)) (committed s)"
    using c i(2) by (auto simp: writer_ok_def)
  moreover have "later_disk dir program fs0 (files g)"
    using inv g(3) later_disk_trans by (auto simp: threads_inv_def)
  ultimately have "threads_inv dir program fs0 (Some (t, ?fr)) (set_stack t (?fr # rest) (s\<lparr>shared := g\<rparr>))"
    using inv l(2) g(2) hold stack_ok_cong [OF g(5)]
    by (auto simp: threads_inv_def dest!: set_update_subset_insert [THEN subsetD])
  then show ?thesis
    using g(1) set_phase_eq [of "s\<lparr>shared := g\<rparr>" t fr rest] t(2)
    by (auto simp: l(1) statement_lmsg_facts(3))
qed

lemma threads_inv_leave:
  assumes inv: "threads_inv dir program fs0 h s" and t: "t < length (stacks s)" "stacks s ! t = fr # rest"
    and "phase fr = Leaving" "st = fr\<lparr>phase := Warning\<rparr> # rest \<or> st = rest"
  shows "threads_inv dir program fs0 None (set_stack t st (s\<lparr>lock_owner := None\<rparr>))"
proof -
  have h: "holds_lock s h" using inv by (simp add: threads_inv_def)
  have "in_section fr" using assms(4) by (simp add: in_section_def)
  note top = holds_lock_top [OF h t this]
  have "filter in_section st = []" using assms(5) top(2) by (auto simp: in_section_def)
  then have "holds_lock (set_stack t st (s\<lparr>lock_owner := None\<rparr>)) None"
    using h top(1) by (intro holds_lock_leave) simp_all
  moreover have "seen k h xs = seen k None xs" for k xs
    using top(1) assms(4) by (auto simp: seen_def to_write_def)
  moreover have "stack_ok (shared s) st"
    using threads_invD(2) [OF inv t] assms(5) stack_ok_tl by (auto simp: stack_ok_def)
  ultimately show ?thesis
    using inv by (auto simp: threads_inv_def writer_ok_def dest!: set_update_subset_insert [THEN subsetD])
qed

lemma threads_inv_fault [simp]:
  "threads_inv dir program fs0 h (s\<lparr>fault := x\<rparr>) = threads_inv dir program fs0 h s"
  by (simp add: threads_inv_def)

text \<open>Whatever a thread does next, it fails only at the end of a fatal message, and it keeps the invariant.\<close>

lemma flush_next_keeps:
  assumes inv: "threads_inv dir program fs0 h s" and t: "t < length (stacks s)" "stacks s ! t = fr # rest"
    and e: "env_ok e" and r: "flush_next e t fr (phase fr) s = Some r"
  shows "(\<exists>s' h'. r = Inr s' \<and> threads_inv dir program fs0 h' s' \<and> fault s' = fault s)
    \<or> r = Inl Terminated \<and> severity_of (lmsg fr) = FATAL"
proof (cases "phase fr")
  case Building
  then have "r = Inl Terminated \<and> severity_of (lmsg fr) = FATAL \<or> r = Inr (set_stack t (fr\<lparr>phase := At_lock\<rparr> # rest) s)"
    using r statement_lmsg_facts(1) [of "stmt fr"] threads_invD(1) [OF inv t]
    by (auto simp: set_phase_eq [OF t(2)] split: if_splits)
  moreover have "threads_inv dir program fs0 h (set_stack t (fr\<lparr>phase := At_lock\<rparr> # rest) s)"
    using threads_invD(2) [OF inv t] Building t
    by (intro threads_inv_stack [OF inv]) (simp_all add: stack_ok_def in_section_def)
  ultimately show ?thesis by auto
next
  case At_lock
  with r threads_inv_acquire [OF inv t] set_phase_fault show ?thesis by (auto split: if_splits)
next
  case (Writing "is")
  show ?thesis
  proof (cases "is")
    case Nil
    have "written_phase (shared s) \<in> {Sending, In_send, Leaving}" by (simp add: written_phase_def)
    with Writing Nil threads_inv_go_on [OF inv t, of "written_phase (shared s)"] have
      "threads_inv dir program fs0 (Some (t, fr\<lparr>phase := written_phase (shared s)\<rparr>)) (set_phase t (written_phase (shared s)) s)"
      by (simp add: in_section_def)
    with Writing Nil r show ?thesis by auto
  next
    case (Cons i js)
    with Writing threads_inv_write [OF inv t _ e] obtain g h' where
      "write_destination e (message_output (lmsg fr)) i (shared s) = Inr g"
      "threads_inv dir program fs0 h' (set_phase t (Writing js) (s\<lparr>shared := g\<rparr>))" by blast
    with Writing Cons r show ?thesis by auto
  qed
next
  case Sending
  let ?g = "send_method (message_output (lmsg fr))
    (if g_async (shared s) then severity_of (lmsg fr) else INFO) (shared s)"
  have "threads_inv dir program fs0 h (s\<lparr>shared := ?g\<rparr>)" by (rule threads_inv_send [OF inv])
  from threads_inv_go_on [OF this, of t fr rest In_send] t r Sending show ?thesis
    by (auto simp: in_section_def)
next
  case In_send
  with r threads_inv_go_on [OF inv t, of Leaving] show ?thesis by (auto simp: in_section_def)
next
  case Leaving
  with r threads_inv_leave [OF inv t Leaving, of "fr\<lparr>phase := Warning\<rparr> # rest"]
    threads_inv_leave [OF inv t Leaving, of rest] t(2)
    set_phase_eq [of "s\<lparr>lock_owner := None\<rparr>" t fr rest Warning]
  show ?thesis by (auto simp: end_statement_def split: if_splits)
next
  case Warning
  let ?s = "s\<lparr>shared := send_method (overflow_warning (date e)) (severity_of (lmsg fr)) (shared s)\<rparr>"
  have i: "threads_inv dir program fs0 h ?s" by (rule threads_inv_send [OF inv])
  have "threads_inv dir program fs0 h (set_stack t (fr\<lparr>phase := Warned\<rparr> # rest) ?s)"
    using stack_ok_phase [OF threads_invD(2) [OF i, of t fr rest]] Warning t
    by (intro threads_inv_stack [OF i]) (simp_all add: in_section_def)
  with r Warning set_phase_eq [of ?s t fr rest Warned] t(2) show ?thesis by auto
next
  case Warned
  have "threads_inv dir program fs0 h (set_stack t rest s)"
    using threads_invD(2) [OF inv t] Warned t stack_ok_tl
    by (intro threads_inv_stack [OF inv]) (auto simp: in_section_def)
  with r Warned t(2) show ?thesis by (auto simp: end_statement_def split: if_splits)
qed

lemma begin_keeps:
  assumes inv: "threads_inv dir program fs0 h s" and t: "t < length (stacks s)" "may_log (shared s) (stacks s ! t)"
    and m: "lmsg fr = statement_lmsg (stmt fr)" "phase fr = Building"
  shows "threads_inv dir program fs0 h (set_stack t (fr # stacks s ! t) s)"
proof (rule threads_inv_stack [OF inv t(1)])
  have "stack_ok (shared s) (stacks s ! t)" using inv t(1) by (simp add: threads_inv_def)
  with t(2) m show "stack_ok (shared s) (fr # stacks s ! t)"
    by (cases "stacks s ! t") (auto simp: stack_ok_def may_log_def)
  show "filter in_section (fr # stacks s ! t) = filter in_section (stacks s ! t)"
    using m(2) by (simp add: in_section_def)
qed

lemma threads_inv_step:
  "log_step s s' \<Longrightarrow> threads_inv dir program fs0 h s \<Longrightarrow> \<exists>h'. threads_inv dir program fs0 h' s' \<and> only_fatal s'"
proof (induction arbitrary: h rule: log_step.induct)
  case (begin_log s t e f line sev m)
  have "threads_inv dir program fs0 h (set_stack t (\<lparr>stmt = (e, t, f, line, sev, []),
      lmsg = stream_put m '' '', phase = Building\<rparr> # stacks s ! t) s)"
    by (rule begin_keeps [OF begin_log(5,2,3)]) (simp_all add: new_statement [OF begin_log(4)])
  with begin_log(1) show ?case by (auto simp: only_fatal_def)
next
  case (begin_fails s t e f line sev err)
  then show ?case by (auto simp: LogMessage_new_def threads_inv_def session_ok_def)
next
  case (operand s t fr rest x)
  let ?fr = "fr\<lparr>stmt := add_part x (stmt fr), lmsg := stream_put (lmsg fr) x\<rparr>"
  have "stack_ok (shared s) (?fr # rest)"
    using threads_invD(1,2) [OF operand(5,2,3)] by (auto simp: stack_ok_def stream_put_statement)
  with operand show ?case
    by (intro exI [of _ h] conjI threads_inv_stack [OF operand(5,2)]) (simp_all add: in_section_def only_fatal_def)
next
  case (flush s t fr rest e s')
  from flush_next_keeps [OF flush(6,2,3,4,5)] flush(1) show ?case by (auto simp: only_fatal_def)
next
  case (flush_fails s t fr rest e err)
  from flush_next_keeps [OF flush_fails(6,2,3,4,5)] have "err = Terminated" "severity_of (lmsg fr) = FATAL" by auto
  with flush_fails show ?case by (auto simp: only_fatal_def fatal_frame_def)
qed

section \<open>The messages of all threads reach the files\<close>

definition logging_threads ::
  "string \<Rightarrow> string \<Rightarrow> bool \<Rightarrow> nat option \<Rightarrow> file_system \<Rightarrow> nat \<Rightarrow> log_threads \<Rightarrow> bool" where
  "logging_threads argv0 dir also_stderr f fs n s \<longleftrightarrow>
     (\<exists>g. InitLogging_dir (Some argv0) (Some dir) (logging_start fs) = Inr g
       \<and> s = threads_start n (g\<lparr>g_alsologtostderr := also_stderr, sender := f\<rparr>))"

text \<open>The statements whose text is in the log files of class \<open>k\<close>.\<close>

definition in_files :: "nat \<Rightarrow> log_threads \<Rightarrow> statement list" where
  "in_files k s =
     (if \<exists>st \<in> set (stacks s). \<exists>fr \<in> set st. k \<in> set (unwritten (phase fr))
      then butlast (committed s) else committed s)"

lemma in_files_seen:
  assumes "holds_lock s h"
  shows "in_files k s = seen k h (committed s)"
proof -
  have sec: "in_section fr" if "k \<in> set (unwritten (phase fr))" for fr
    using that by (cases "phase fr") (auto simp: in_section_def)
  have "(\<exists>st \<in> set (stacks s). \<exists>fr \<in> set st. k \<in> set (unwritten (phase fr))) \<longleftrightarrow> k \<in> to_write h"
  proof
    assume "\<exists>st \<in> set (stacks s). \<exists>fr \<in> set st. k \<in> set (unwritten (phase fr))"
    then obtain t fr where t: "t < length (stacks s)" "fr \<in> set (stacks s ! t)" "k \<in> set (unwritten (phase fr))"
      by (metis in_set_conv_nth)
    then have "fr \<in> set (filter in_section (stacks s ! t))" using sec by simp
    with assms t(1,3) show "k \<in> to_write h"
      by (auto simp: holds_lock_def to_write_def simp del: set_filter split: option.splits if_splits)
  next
    assume "k \<in> to_write h"
    then obtain t fr where h: "h = Some (t, fr)" "k \<in> set (unwritten (phase fr))"
      by (auto simp: to_write_def split: option.splits)
    then have t: "t < length (stacks s)" "filter in_section (stacks s ! t) = [fr]"
      using assms by (auto simp: holds_lock_def)
    have "fr \<in> set (filter in_section (stacks s ! t))" by (simp only: t(2)) simp
    with t(1) h(2) show "\<exists>st \<in> set (stacks s). \<exists>fr \<in> set st. k \<in> set (unwritten (phase fr))"
      by (auto intro!: bexI [of _ "stacks s ! t"])
  qed
  then show ?thesis by (simp add: in_files_def seen_def)
qed

lemma threads_inv_init:
  assumes "fs_ready fs" "dirs fs dir" "dir \<noteq> []" "logging_threads argv0 dir also f fs n s"
  shows "threads_inv dir (ConstShortFileName argv0) fs None s"
proof -
  have "class_texts dir p fs k [] fs" "later_disk dir p fs fs" for k p
    using assms(1) all_delivered_Nil [of fs fs]
    by (auto simp: later_disk_def class_texts_def intro!: exI [of _ "[]"])
  then show ?thesis
    using assms
    by (auto simp: logging_threads_def InitLogging_dir_def InitLogging_def logging_start_def Let_def
        threads_inv_def threads_start_def session_ok_def class_logs.sinks_live_def stack_ok_def
        holds_lock_def writer_ok_def texts_of_class_def seen_def to_write_def)
qed

lemma threads_inv_reach:
  assumes "fs_ready fs" "dirs fs dir" "dir \<noteq> []"
    and "reach (logging_threads argv0 dir also f fs n) log_step s"
  shows "\<exists>h. threads_inv dir (ConstShortFileName argv0) fs h s \<and> only_fatal s"
  using assms(4)
proof (induction rule: reach.induct)
  case (reach_init s)
  then have "fault s = None" by (auto simp: logging_threads_def threads_start_def)
  with threads_inv_init [OF assms(1-3) reach_init] show ?case unfolding only_fatal_def by blast
next
  case (reach_step s t)
  with threads_inv_step show ?case by blast
qed

text \<open>
  C5. LOG statements in any number of threads, after \<open>InitLogging\<close> with an existing directory and on a
  disk that takes every file: in no interleaving does one fail, except that a LOG(FATAL) ends the
  program; at most one message is in the section,
  and its thread has the lock; and for each class \<open>k\<close> the texts of all statements of that class and the
  higher ones that took the lock (but for the one that is still being written) stand, each in one
  piece, in files with a name of class \<open>k\<close>, those of the same file in the order in which they took
  the lock.
\<close>

theorem concurrent_statements_reach_files:
  assumes "fs_ready fs" "dirs fs dir" "dir \<noteq> []"
    and "reach (logging_threads argv0 dir also f fs n) log_step s"
  shows "(fault s = None \<or> fault s = Some Terminated \<and> fatal_frame s)
    \<and> (\<forall>t < length (stacks s). \<forall>fr \<in> set (stacks s ! t). in_section fr \<longrightarrow> lock_owner s = Some t)
    \<and> (\<forall>k < LOG_FILE_SEVERITIES. \<exists>targets. length targets = length (texts_of_class k (in_files k s))
         \<and> list_all (class_file dir (ConstShortFileName argv0) k (files (shared s))) targets
         \<and> (\<forall>f. in_order (part f targets (texts_of_class k (in_files k s))) (data (files (shared s)) f)))"
proof -
  obtain h where inv: "threads_inv dir (ConstShortFileName argv0) fs h s" and "end": "only_fatal s"
    using threads_inv_reach [OF assms] by blast
  then have h: "holds_lock s h" by (simp add: threads_inv_def)
  have "lock_owner s = Some t" if "t < length (stacks s)" "fr \<in> set (stacks s ! t)" "in_section fr" for t fr
  proof -
    have "fr \<in> set (filter in_section (stacks s ! t))" using that by simp
    with h that(1) show ?thesis
      by (auto simp: holds_lock_def simp del: set_filter split: option.splits if_splits)
  qed
  moreover have "\<exists>targets. length targets = length (texts_of_class k (in_files k s))
      \<and> list_all (class_file dir (ConstShortFileName argv0) k (files (shared s))) targets
      \<and> (\<forall>f. in_order (part f targets (texts_of_class k (in_files k s))) (data (files (shared s)) f))"
    if "k < LOG_FILE_SEVERITIES" for k
    using inv that all_delivered_in_order unfolding in_files_seen [OF h] threads_inv_def class_texts_def
    by (metis all_delivered_def)
  ultimately show ?thesis using "end" by (simp add: only_fatal_def)
qed

section \<open>Progress\<close>

text \<open>A thread goes on with a message whose operands have been evaluated, or ends the program.\<close>

definition flush_step :: "log_threads \<Rightarrow> log_threads \<Rightarrow> bool" where
  "flush_step s s' \<longleftrightarrow> fault s = None \<and> (\<exists>t e fr rest r. t < length (stacks s) \<and> stacks s ! t = fr # rest
     \<and> phase fr \<noteq> Building \<and> env_ok e \<and> flush_next e t fr (phase fr) s = Some r
     \<and> s' = (case r of Inl err \<Rightarrow> s\<lparr>fault := Some err\<rparr> | Inr s1 \<Rightarrow> s1))"

fun phase_weight :: "phase \<Rightarrow> nat" where
  "phase_weight Building = 0"
| "phase_weight At_lock = 7 + LOG_FILE_SEVERITIES"
| "phase_weight (Writing is) = 6 + length is"
| "phase_weight Sending = 5"
| "phase_weight In_send = 4"
| "phase_weight Leaving = 3"
| "phase_weight Warning = 2"
| "phase_weight Warned = 1"

definition stack_weight :: "frame list \<Rightarrow> nat" where
  "stack_weight st = sum_list (map (phase_weight \<circ> phase) st)"

definition threads_measure :: "log_threads \<Rightarrow> nat" where
  "threads_measure s = sum_list (map stack_weight (stacks s))"

lemma set_stack_measure:
  assumes "t < length (stacks s)" "stack_weight st < stack_weight (stacks s ! t)"
  shows "threads_measure (set_stack t st s) < threads_measure s"
proof -
  have "stack_weight (stacks s ! t) \<le> sum_list (map stack_weight (stacks s))"
    using assms(1) by (intro member_le_sum_list) auto
  with assms show ?thesis
    by (simp add: threads_measure_def map_update sum_list_update)
qed

lemma threads_measure_simps [simp]:
  "threads_measure (s\<lparr>shared := g\<rparr>) = threads_measure s"
  "threads_measure (s\<lparr>lock_owner := x\<rparr>) = threads_measure s"
  "threads_measure (s\<lparr>lock_owner := x, committed := c\<rparr>) = threads_measure s"
  by (simp_all add: threads_measure_def)

lemma set_phase_measure:
  "t < length (stacks s) \<Longrightarrow> stacks s ! t = fr # rest \<Longrightarrow> phase_weight p < phase_weight (phase fr) \<Longrightarrow>
    threads_measure (set_phase t p s) < threads_measure s"
  by (simp add: set_phase_eq set_stack_measure stack_weight_def)

lemma locked_phase_weight: "phase_weight (locked_phase g m) < phase_weight At_lock"
  using severity_index_less [of "severity_of m"] by (simp add: locked_phase_def written_phase_def del: upt_Suc)

lemma flush_next_measure:
  assumes t: "t < length (stacks s)" "stacks s ! t = fr # rest" and p: "phase fr \<noteq> Building"
    and r: "flush_next e t fr (phase fr) s = Some (Inr s')"
  shows "threads_measure s' < threads_measure s"
proof -
  have pop: "threads_measure (set_stack t rest s) < threads_measure s" if "0 < phase_weight (phase fr)"
    using that t by (intro set_stack_measure) (simp_all add: stack_weight_def)
  show "threads_measure s' < threads_measure s"
  proof (cases "phase fr")
    case At_lock
    let ?s = "s\<lparr>lock_owner := Some t, committed := committed s @ [stmt fr]\<rparr>"
    have "threads_measure (set_phase t (locked_phase (shared s) (lmsg fr)) ?s) < threads_measure ?s"
      using t At_lock locked_phase_weight by (intro set_phase_measure [of _ _ fr rest]) simp_all
    with r At_lock show ?thesis by (auto split: if_splits)
  next
    case (Writing "is")
    show ?thesis
    proof (cases "is")
      case Nil
      have "threads_measure (set_phase t (written_phase (shared s)) s) < threads_measure s"
        using t Writing Nil by (intro set_phase_measure [of _ _ fr rest]) (simp_all add: written_phase_def)
      with r Writing Nil show ?thesis by simp
    next
      case (Cons i js)
      then obtain g where g: "s' = set_phase t (Writing js) (s\<lparr>shared := g\<rparr>)"
        using r Writing by (auto simp: cxx_bind_eq_Inr)
      have "threads_measure (set_phase t (Writing js) (s\<lparr>shared := g\<rparr>)) < threads_measure (s\<lparr>shared := g\<rparr>)"
        using t Writing Cons by (intro set_phase_measure [of _ _ fr rest]) simp_all
      with g show ?thesis by simp
    qed
  next
    case Leaving
    have "threads_measure (set_phase t Warning (s\<lparr>lock_owner := None\<rparr>)) < threads_measure (s\<lparr>lock_owner := None\<rparr>)"
      using t Leaving by (intro set_phase_measure [of _ _ fr rest]) simp_all
    moreover have "threads_measure (set_stack t rest (s\<lparr>lock_owner := None\<rparr>)) = threads_measure (set_stack t rest s)"
      by (simp add: threads_measure_def)
    ultimately show ?thesis using r Leaving pop t(2) by (auto simp: end_statement_def split: if_splits)
  qed (use t p r pop in \<open>auto simp: end_statement_def intro: set_phase_measure [THEN less_le_trans] split: if_splits\<close>)
qed

lemma flush_steps_terminate: "wfP (\<lambda>s' s. flush_step s s')"
proof (rule wfp_if_convertible_to_nat [of _ "\<lambda>s. threads_measure s + (if fault s = None then 1 else 0)"])
  fix s' s
  assume "flush_step s s'"
  then obtain t e fr rest r where f: "fault s = None" "t < length (stacks s)" "stacks s ! t = fr # rest"
      "phase fr \<noteq> Building" "flush_next e t fr (phase fr) s = Some r"
      "s' = (case r of Inl err \<Rightarrow> s\<lparr>fault := Some err\<rparr> | Inr s1 \<Rightarrow> s1)"
    unfolding flush_step_def by blast
  show "threads_measure s' + (if fault s' = None then 1 else 0) < threads_measure s + (if fault s = None then 1 else 0)"
  proof (cases r)
    case (Inl err)
    with f show ?thesis by (simp add: threads_measure_def)
  next
    case (Inr s1)
    with flush_next_measure [OF f(2,3,4), of e s1] f show ?thesis by simp
  qed
qed

lemma may_log_idle: "sender g = None \<Longrightarrow> may_log g [fr] \<longleftrightarrow> phase fr = Building"
  by (simp add: may_log_def)

text \<open>When no thread can go on in a program that has not ended, no message is on its way.\<close>

lemma at_rest:
  assumes inv: "threads_inv dir program fs0 h s" and send: "sender (shared s) = None"
    and rest: "\<And>s'. \<not> flush_step s s'" and alive: "fault s = None"
  shows "lock_owner s = None \<and> (\<forall>t < length (stacks s). \<forall>fr \<in> set (stacks s ! t). phase fr = Building)"
proof -
  have e: "env_ok example_env" by (simp add: example_log_simps)
  have top: "phase fr = Building \<or> phase fr = At_lock \<and> lock_owner s \<noteq> None"
    if t: "t < length (stacks s)" "stacks s ! t = fr # tail" for t fr tail
  proof (rule ccontr)
    assume n: "\<not> (phase fr = Building \<or> phase fr = At_lock \<and> lock_owner s \<noteq> None)"
    then obtain r where r: "flush_next example_env t fr (phase fr) s = Some r"
      by (cases "(example_env, t, fr, phase fr, s)" rule: flush_next.cases) auto
    with n t e have "flush_step s (case r of Inl err \<Rightarrow> s\<lparr>fault := Some err\<rparr> | Inr s1 \<Rightarrow> s1)"
      using alive unfolding flush_step_def by blast
    with rest show False by blast
  qed
  have beneath: "phase fr = Building" if "t < length (stacks s)" "stacks s ! t = x # tail" "fr \<in> set tail" for t x tail fr
    using threads_invD(3) [OF inv that(1,2)] that(3) may_log_idle [OF send] by blast
  have owner: "lock_owner s = None"
  proof (cases h)
    case (Some p)
    obtain t fr where h: "h = Some (t, fr)" using Some by (cases p) simp
    with inv have t: "t < length (stacks s)" "filter in_section (stacks s ! t) = [fr]"
      by (auto simp: threads_inv_def holds_lock_def)
    have "fr \<in> set (filter in_section (stacks s ! t))" by (simp only: t(2)) simp
    then have fr: "fr \<in> set (stacks s ! t)" "in_section fr" by simp_all
    then obtain x tail where x: "stacks s ! t = x # tail" by (cases "stacks s ! t") auto
    have "phase fr = Building \<or> phase fr = At_lock"
      using top [OF t(1) x] beneath [OF t(1) x, of fr] fr(1) x by auto
    with fr(2) show ?thesis by (auto simp: in_section_def)
  qed (use inv in \<open>simp add: threads_inv_def holds_lock_def\<close>)
  have "phase fr = Building" if "t < length (stacks s)" "fr \<in> set (stacks s ! t)" for t fr
  proof (cases "stacks s ! t")
    case (Cons x tail)
    with top [OF that(1) Cons] beneath [OF that(1) Cons] owner that(2) show ?thesis by auto
  qed (use that in simp)
  with owner show ?thesis by blast
qed

text \<open>
  C8. With the send method of the library, which does not log, nothing holds a message up: from every
  reachable state the threads go on with the messages whose operands have been evaluated for finitely
  many steps only, and when they can go no further a LOG(FATAL) has ended the program, or the lock is
  free, all of these messages have been delivered, and of the others only the operands are still being
  evaluated.
\<close>

theorem log_threads_progress:
  assumes "fs_ready fs" "dirs fs dir" "dir \<noteq> []"
    and "reach (logging_threads argv0 dir also f fs n) log_step s" and "sender (shared s) = None"
  shows "wfP (\<lambda>s' s. flush_step s s')
    \<and> ((\<forall>s'. \<not> flush_step s s') \<longrightarrow>
         fault s = Some Terminated \<and> fatal_frame s
       \<or> lock_owner s = None
         \<and> (\<forall>t < length (stacks s). \<forall>fr \<in> set (stacks s ! t). phase fr = Building)
         \<and> (\<forall>k. in_files k s = committed s))"
proof -
  obtain h where inv: "threads_inv dir (ConstShortFileName argv0) fs h s" and "end": "only_fatal s"
    using threads_inv_reach [OF assms(1-4)] by blast
  have "lock_owner s = None \<and> (\<forall>t < length (stacks s). \<forall>fr \<in> set (stacks s ! t). phase fr = Building)
      \<and> (\<forall>k. in_files k s = committed s)" if "\<forall>s'. \<not> flush_step s s'" "fault s = None"
  proof -
    note r = at_rest [OF inv assms(5)] that
    then have "\<forall>st \<in> set (stacks s). \<forall>fr \<in> set st. unwritten (phase fr) = []"
      by (metis in_set_conv_nth unwritten.simps(2))
    then have "in_files k s = committed s" for k by (simp add: in_files_def)
    with r show ?thesis by blast
  qed
  with flush_steps_terminate "end" show ?thesis unfolding only_fatal_def by blast
qed

section \<open>A concrete run\<close>

text \<open>Two threads that log to files: both are at the lock, and thread 1 gets it.\<close>

definition files_example :: log_threads where
  "files_example = foldl (log_schedule example_env)
     (threads_start 2 ((logging_start example_fs)\<lparr>g_log_dir := ''log'', g_program_name := Some ''prog'',
       g_program_invocation_short_name := Some ''prog''\<rparr>))
     [Begin_log 0 INFO, Begin_log 1 ERROR, Operand 0 ''low'', Operand 1 ''high'', Next 0, Next 1, Next 1]"

definition files_example_statement :: statement where
  "files_example_statement = (example_env, 1, ''a.cc'', 12, ERROR, [''high''])"

lemma files_example_state:
  "committed files_example = [files_example_statement] \<and> length (stacks files_example) = 2
   \<and> sender (shared files_example) = None \<and> fault files_example = None \<and> map phase (stacks files_example ! 0) = [At_lock]
   \<and> (\<exists>fr. stacks files_example ! 1 = [fr] \<and> phase fr = Writing [0, 1, 2] \<and> stmt fr = files_example_statement)"
proof -
  have "GetLogFileSeverityIndex ERROR = 2" by code_simp
  then show ?thesis
    by (simp add: files_example_def files_example_statement_def log_run_simps numeral_2_eq_2
        stream_put_statement statement_lmsg_facts(2) upt_rec)
qed

lemma files_example_reach:
  "reach (logging_threads ''bin/prog'' ''log'' False None example_fs 2) log_step files_example"
proof -
  have "env_ok example_env" by (simp add: example_log_simps)
  then show ?thesis
    unfolding files_example_def
  proof (rule log_schedule_reach)
    show "logging_threads ''bin/prog'' ''log'' False None example_fs 2 (threads_start 2
      ((logging_start example_fs)\<lparr>g_log_dir := ''log'', g_program_name := Some ''prog'',
       g_program_invocation_short_name := Some ''prog''\<rparr>))"
      by (simp add: logging_threads_def InitLogging_dir_def InitLogging_def ConstShortFileName_def
          logging_start_def Let_def)
  qed
qed

lemma example_disk: "fs_ready example_fs" "dirs example_fs ''log''" "env_ok example_env"
  by (auto simp: fs_ready_def example_log_simps)

lemma log_threads_progress_witness:
  "\<exists>s. reach (logging_threads ''bin/prog'' ''log'' False None example_fs 2) log_step s
     \<and> committed s \<noteq> [] \<and> wfP (\<lambda>s' s. flush_step s s')"
  using log_threads_progress [OF example_disk(1,2) _ files_example_reach] files_example_reach
    files_example_state by auto

text \<open>Thread 1 has written its message to the file of the lowest class, and thread 0 still waits.\<close>

lemma concurrent_statements_reach_files_witness:
  "\<exists>s f. reach (logging_threads ''bin/prog'' ''log'' False None example_fs 2) log_step s
     \<and> map phase (stacks s ! 0) = [At_lock] \<and> lock_owner s = Some 1 \<and> in_files 1 s = []
     \<and> in_files 0 s = [files_example_statement]
     \<and> class_file ''log'' ''prog'' 0 (files (shared s)) f
     \<and> in_order [statement_output files_example_statement] (data (files (shared s)) f)"
proof -
  let ?x = files_example_statement
  have d: "''log'' \<noteq> []" "ConstShortFileName ''bin/prog'' = ''prog''" by (simp_all add: ConstShortFileName_def)
  note st = files_example_state
  obtain fr where fr: "stacks files_example ! 1 = [fr]" "phase fr = Writing (0 # [1, 2])" "stmt fr = ?x"
    using st by auto
  obtain h where "threads_inv ''log'' ''prog'' example_fs h files_example"
    using threads_inv_reach [OF example_disk(1,2) d(1) files_example_reach] d(2) by auto
  from threads_inv_write [OF this _ fr(1,2) example_disk(3)] st obtain g where
    g: "write_destination example_env (message_output (lmsg fr)) 0 (shared files_example) = Inr g" by auto
  define s where "s = set_phase 1 (Writing [1, 2]) (files_example\<lparr>shared := g\<rparr>)"
  have s: "stacks s = (stacks files_example)[1 := [fr\<lparr>phase := Writing [1, 2]\<rparr>]]" "committed s = [?x]"
    using st fr(1) set_phase_eq [of "files_example\<lparr>shared := g\<rparr>" 1 fr "[]"] by (simp_all add: s_def)
  have "log_step files_example s"
    by (rule log_step.flush [of _ 1 fr "[]" example_env]) (use st fr g example_disk(3) in \<open>simp_all add: s_def\<close>)
  then have r: "reach (logging_threads ''bin/prog'' ''log'' False None example_fs 2) log_step s"
    by (rule reach_step [OF files_example_reach])
  have l: "length (stacks s) = 2" "map phase (stacks s ! 0) = [At_lock]" "stacks s ! 1 = [fr\<lparr>phase := Writing [1, 2]\<rparr>]"
    using s(1) st by simp_all
  then obtain fr0 where "stacks s = [[fr0], [fr\<lparr>phase := Writing [1, 2]\<rparr>]]" "phase fr0 = At_lock"
    by (auto simp: length_Suc_conv numeral_2_eq_2 map_eq_Cons_conv)
  then have i: "in_files 0 s = [?x]" "in_files 1 s = []" using s(2) by (simp_all add: in_files_def)
  have t: "texts_of_class 0 [?x] = [statement_output ?x]"
    by (simp add: texts_of_class_def files_example_statement_def)
  have k: "0 < LOG_FILE_SEVERITIES" by (simp add: LOG_FILE_SEVERITIES_def)
  note c = concurrent_statements_reach_files [OF example_disk(1,2) d(1) r, unfolded d(2)]
  have "lock_owner s = Some 1" using c l by (force simp: in_section_def)
  moreover obtain targets where f: "length targets = 1" "list_all (class_file ''log'' ''prog'' 0 (files (shared s))) targets"
      "\<forall>f. in_order (part f targets [statement_output ?x]) (data (files (shared s)) f)"
    using c k i(1) t by fastforce
  then obtain f where "targets = [f]" by (auto simp: length_Suc_conv)
  with f have "class_file ''log'' ''prog'' 0 (files (shared s)) f"
    "in_order [statement_output ?x] (data (files (shared s)) f)" by (auto dest: spec [of _ f])
  ultimately show ?thesis using r l(2) i by (intro exI conjI)
qed

end
