(* ===== verification/Async_Log.thy ===== *)
theory Async_Log
  imports Decimal Log_Severity Fifo_Spec
begin

text \<open>
  The asynchronous logger of base/async_logging.h: threads append messages to large buffers, and a
  consumer thread takes the filled buffers and writes them to the log file. The size of a buffer is
  a parameter \<open>N\<close> (\<open>kLargeBuffer\<close> in the code). The log file is represented by the list of writes
  it receives. The wait of the consumer ends by a notification, by its timeout or spuriously, so
  it may end at any time, and the notifications need not be modelled.
\<close>

section \<open>DataBuffer\<close>

record DataBuffer =
  mem :: "nat \<Rightarrow> char"
  cur :: nat

definition DataBuffer_new :: "(nat \<Rightarrow> char) \<Rightarrow> DataBuffer" where
  "DataBuffer_new garbage = \<lparr>mem = garbage, cur = 0\<rparr>"

definition Length :: "DataBuffer \<Rightarrow> nat" where
  "Length b = cur b"

definition Avail :: "nat \<Rightarrow> DataBuffer \<Rightarrow> nat" where
  "Avail N b = to_uint64 (int N - int (cur b))"

definition Buffer_Append :: "nat \<Rightarrow> string \<Rightarrow> DataBuffer \<Rightarrow> DataBuffer" where
  "Buffer_Append N buf b =
     (if Avail N b > length buf
      then b\<lparr>mem := (\<lambda>i. if cur b \<le> i \<and> i < cur b + length buf then buf ! (i - cur b) else mem b i),
             cur := cur b + length buf\<rparr>
      else b)"

definition Buffer_Add :: "nat \<Rightarrow> DataBuffer \<Rightarrow> DataBuffer" where
  "Buffer_Add len b = b\<lparr>cur := cur b + len\<rparr>"

definition Reset :: "DataBuffer \<Rightarrow> DataBuffer" where
  "Reset b = b\<lparr>cur := 0\<rparr>"

definition SetZero :: "nat \<Rightarrow> DataBuffer \<Rightarrow> DataBuffer" where
  "SetZero N b = b\<lparr>mem := (\<lambda>i. if i < N then NUL else mem b i)\<rparr>"

text \<open>The \<open>Length\<close> characters at \<open>Data\<close>.\<close>

definition contents :: "DataBuffer \<Rightarrow> string" where
  "contents b = map (mem b) [0..<cur b]"

text \<open>\<open>ToString\<close> first writes a NUL at \<open>cur_\<close>, which is outside a buffer that \<open>Add\<close> has filled.\<close>

definition Buffer_ToString :: "nat \<Rightarrow> DataBuffer \<Rightarrow> (DataBuffer \<times> string) cxx" where
  "Buffer_ToString N b =
     (if cur b < N then let b = b\<lparr>mem := (mem b)(cur b := NUL)\<rparr> in Inr (b, contents b)
      else Inl Undefined_Behaviour)"

definition kLargeBuffer :: nat where
  "kLargeBuffer = 4096 * 1000"

lemma Avail_eq: "cur b \<le> N \<Longrightarrow> N < 2 ^ 64 \<Longrightarrow> Avail N b = N - cur b"
  using to_uint64_of_nat [of "N - cur b"] by (simp add: Avail_def of_nat_diff)

lemma length_contents [simp]: "length (contents b) = cur b"
  by (simp add: contents_def)

lemma contents_empty [simp]: "cur b = 0 \<Longrightarrow> contents b = []"
  by (simp add: contents_def)

lemma contents_Reset [simp]: "contents (Reset b) = []" "cur (Reset b) = 0"
  by (simp_all add: Reset_def)

lemma contents_Append:
  "Avail N b > length buf \<Longrightarrow> contents (Buffer_Append N buf b) = contents b @ buf"
  by (rule nth_equalityI) (simp_all add: contents_def Buffer_Append_def nth_append)

lemma cur_Append: "Avail N b > length buf \<Longrightarrow> cur (Buffer_Append N buf b) = cur b + length buf"
  by (simp add: Buffer_Append_def)

lemma Append_too_long: "\<not> Avail N b > length buf \<Longrightarrow> Buffer_Append N buf b = b"
  by (simp add: Buffer_Append_def)

section \<open>The operations of AsyncLogging\<close>

record AsyncLogging =
  basename :: string
  bin_name :: string
  roll_size :: int
  severity :: LogSeverity
  flush_interval :: int
  current_buf :: "DataBuffer option"
  next_buf :: "DataBuffer option"
  buffers :: "DataBuffer list"
  stop :: bool
  thread_joinable :: bool

text \<open>
  The initialisers of the constructor; the last one, in the order of the members, starts the
  consumer thread. \<open>garbage\<close> and \<open>stop0\<close> are the contents of new memory.
\<close>

definition AsyncLogging_members ::
  "(nat \<Rightarrow> char) \<Rightarrow> bool \<Rightarrow> string \<Rightarrow> string \<Rightarrow> int \<Rightarrow> LogSeverity \<Rightarrow> AsyncLogging" where
  "AsyncLogging_members garbage stop0 base bin roll sev =
     \<lparr>basename = base, bin_name = bin, roll_size = roll, severity = sev, flush_interval = 3,
      current_buf = Some (DataBuffer_new garbage), next_buf = Some (DataBuffer_new garbage),
      buffers = [], stop = stop0, thread_joinable = True\<rparr>"

text \<open>The statements of its body, which run beside that thread (\<open>reserve\<close> changes no element).\<close>

fun construct :: "nat \<Rightarrow> nat \<Rightarrow> AsyncLogging \<Rightarrow> AsyncLogging cxx" where
  "construct N 0 a = Inr (a\<lparr>stop := False\<rparr>)"
| "construct N (Suc 0) a = (case current_buf a of
     None \<Rightarrow> Inl Undefined_Behaviour | Some c \<Rightarrow> Inr (a\<lparr>current_buf := Some (SetZero N c)\<rparr>))"
| "construct N (Suc (Suc 0)) a = (case next_buf a of
     None \<Rightarrow> Inl Undefined_Behaviour | Some c \<Rightarrow> Inr (a\<lparr>next_buf := Some (SetZero N c)\<rparr>))"
| "construct N _ a = Inr a"

text \<open>The object after the constructor, if the consumer has not run yet.\<close>

definition AsyncLogging_new ::
  "nat \<Rightarrow> (nat \<Rightarrow> char) \<Rightarrow> string \<Rightarrow> string \<Rightarrow> int \<Rightarrow> LogSeverity \<Rightarrow> AsyncLogging" where
  "AsyncLogging_new N garbage base bin roll sev =
     \<lparr>basename = base, bin_name = bin, roll_size = roll, severity = sev, flush_interval = 3,
      current_buf = Some (SetZero N (DataBuffer_new garbage)),
      next_buf = Some (SetZero N (DataBuffer_new garbage)), buffers = [], stop = False,
      thread_joinable = True\<rparr>"

lemma constructed: "cxx_bind (construct N 0 (AsyncLogging_members g stop0 base bin roll sev)) (\<lambda>a.
    cxx_bind (construct N 1 a) (construct N 2)) = Inr (AsyncLogging_new N g base bin roll sev)"
  by (simp add: AsyncLogging_members_def AsyncLogging_new_def numeral_2_eq_2)

definition Async_Start :: "AsyncLogging \<Rightarrow> AsyncLogging" where
  "Async_Start a = a\<lparr>stop := False\<rparr>"

text \<open>
  \<open>Stop\<close> sets the flag under the lock and then joins the consumer thread; \<open>None\<close> while \<open>join\<close>
  waits for it, that is, as long as it has not \<open>exited\<close>.
\<close>

definition Async_Stop :: "AsyncLogging \<Rightarrow> AsyncLogging" where
  "Async_Stop a = a\<lparr>stop := True\<rparr>"

definition Async_join :: "bool \<Rightarrow> AsyncLogging \<Rightarrow> AsyncLogging cxx option" where
  "Async_join exited a =
     (if \<not> thread_joinable a then Some (Inl (Exception ''Invalid argument''))
      else if exited then Some (Inr (a\<lparr>thread_joinable := False\<rparr>)) else None)"

text \<open>
  The destructor stops a logger that is not stopped; an exception would leave it, and then the
  members are destroyed, which terminates if the thread is still joinable.
\<close>

definition Async_destroy :: "bool \<Rightarrow> AsyncLogging \<Rightarrow> unit cxx option" where
  "Async_destroy exited a =
     (if stop a then Some (if thread_joinable a then Inl Terminated else Inr ())
      else case Async_join exited (Async_Stop a) of
        None \<Rightarrow> None
      | Some (Inl _) \<Rightarrow> Some (Inl Terminated)
      | Some (Inr _) \<Rightarrow> Some (Inr ()))"

text \<open>
  \<open>Append\<close>: once \<open>current_buf_\<close> has been moved away it is null, and using it is undefined.
\<close>

definition Async_Append :: "nat \<Rightarrow> string \<Rightarrow> AsyncLogging \<Rightarrow> AsyncLogging cxx" where
  "Async_Append N msg a = (case current_buf a of
     None \<Rightarrow> Inl Undefined_Behaviour
   | Some c \<Rightarrow>
       if Avail N c > length msg then Inr (a\<lparr>current_buf := Some (Buffer_Append N msg c)\<rparr>)
       else let a = a\<lparr>buffers := buffers a @ [c], current_buf := None\<rparr> in
         case next_buf a of
           Some nb \<Rightarrow> Inr (a\<lparr>current_buf := Some (Buffer_Append N msg nb), next_buf := None\<rparr>)
         | None \<Rightarrow> Inl Undefined_Behaviour)"

text \<open>
  The local variables of \<open>ConsumeLog\<close>, the writes made to \<open>dest\<close>, and the bytes of the
  uninitialised array that holds the notice on dropped buffers.
\<close>

record consumer =
  buf1 :: "DataBuffer option"
  buf2 :: "DataBuffer option"
  write_buffers :: "DataBuffer list"
  dest :: "string list"
  stack :: string

definition consumer_new :: "nat \<Rightarrow> (nat \<Rightarrow> char) \<Rightarrow> string \<Rightarrow> consumer" where
  "consumer_new N garbage junk =
     \<lparr>buf1 = Some (SetZero N (DataBuffer_new garbage)), buf2 = Some (SetZero N (DataBuffer_new garbage)),
      write_buffers = [], dest = [], stack = junk\<rparr>"

text \<open>The three asserts at the head of the loop.\<close>

definition loop_asserts :: "consumer \<Rightarrow> bool" where
  "loop_asserts k \<longleftrightarrow> (case buf1 k of None \<Rightarrow> False | Some b \<Rightarrow> Length b = 0)
     \<and> (case buf2 k of None \<Rightarrow> False | Some b \<Rightarrow> Length b = 0) \<and> write_buffers k = []"

text \<open>The critical section after the wait. A null buffer in the vector is used in the loop below it.\<close>

definition collect :: "AsyncLogging \<times> consumer \<Rightarrow> (AsyncLogging \<times> consumer) cxx" where
  "collect = (\<lambda>(a, k). case current_buf a of
     None \<Rightarrow> Inl Undefined_Behaviour
   | Some c \<Rightarrow>
       let filled = buffers a @ [c];
           a = a\<lparr>buffers := write_buffers k, current_buf := buf1 k\<rparr>;
           k = k\<lparr>write_buffers := filled, buf1 := None\<rparr>
       in Inr (if next_buf a = None then (a\<lparr>next_buf := buf2 k\<rparr>, k\<lparr>buf2 := None\<rparr>) else (a, k)))"

definition drop_notice :: "string \<Rightarrow> nat \<Rightarrow> string" where
  "drop_notice junk n =
     take 256 (''Dropped log message at XXXXX, '' @ dec_nat n @ '' large buffes'' @ [newline, NUL] @ junk)"

definition drop_many :: "consumer \<Rightarrow> consumer" where
  "drop_many k =
     (if length (write_buffers k) > 25
      then k\<lparr>dest := dest k @ [drop_notice (stack k) (length (write_buffers k) - 2)],
             write_buffers := take 2 (write_buffers k)\<rparr>
      else k)"

text \<open>Taking back a written buffer when the own one has been given away.\<close>

definition refill :: "DataBuffer option \<Rightarrow> DataBuffer list \<Rightarrow> (DataBuffer option \<times> DataBuffer list) cxx" where
  "refill b ws = (case b of
     Some _ \<Rightarrow> Inr (b, ws)
   | None \<Rightarrow> if ws = [] then Inl Assertion_Failed else Inr (Some (Reset (last ws)), butlast ws))"

text \<open>The rest of the loop's body, outside the lock.\<close>

definition write_out :: "consumer \<Rightarrow> consumer cxx" where
  "write_out k =
     (if write_buffers k = [] then Inl Assertion_Failed
      else let k = drop_many k;
               ws = write_buffers k;
               k = k\<lparr>dest := dest k @ map contents ws\<rparr>;
               ws = (if length ws > 2 then take 2 ws else ws)
           in cxx_bind (refill (buf1 k) ws) (\<lambda>(b1, ws).
              cxx_bind (refill (buf2 k) ws) (\<lambda>(b2, ws).
                Inr (k\<lparr>buf1 := b1, buf2 := b2, write_buffers := []\<rparr>))))"

section \<open>The threads\<close>

text \<open>
  Where the consumer is; \<open>Aborted\<close>: its assert that \<open>stop_\<close> is false has failed, which ends the
  process. \<open>built\<close> counts the statements of the constructor's body that have run. Clients call the logger
  when it is constructed; from then on whoever uses the buffers holds the lock, and a critical section of
  the consumer is one step. The constructor does not take the lock: while it runs, the consumer's section is
  in the parts \<open>Checking\<close> (whether \<open>buffers_\<close> is empty) and \<open>Collecting\<close> (the buffers change hands).
\<close>

datatype pc = Starting | Aborted | At_loop | Before_lock | Checking | Waiting | Collecting | Writing | Exited

text \<open>
  A data race of the consumer with statement \<open>i\<close> of the constructor: that uses \<open>current_buf_\<close> (1), or
  \<open>next_buf_\<close> and then \<open>buffers_\<close> (2).
\<close>

definition conflict :: "pc \<Rightarrow> nat \<Rightarrow> bool" where
  "conflict p i \<longleftrightarrow> p = Checking \<and> i = 2 \<or> p = Collecting \<and> (i = 1 \<or> i = 2)"

record async_system =
  logger :: AsyncLogging
  cons :: consumer
  pc :: pc
  built :: nat
  accepted :: "string list"

text \<open>The consumer is where it takes the buffers in its next step.\<close>

definition may_collect :: "async_system \<Rightarrow> bool" where
  "may_collect s \<longleftrightarrow> pc s = Collecting
     \<or> \<not> built s < 3 \<and> (pc s = Waiting \<or> pc s = Before_lock \<and> buffers (logger s) \<noteq> [])"

inductive async_step :: "nat \<Rightarrow> async_system \<Rightarrow> async_system \<Rightarrow> bool" for N where
  build: "pc s \<noteq> Aborted \<Longrightarrow> built s < 3 \<Longrightarrow> \<not> conflict (pc s) (built s) \<Longrightarrow>
    construct N (built s) (logger s) = Inr a \<Longrightarrow>
    async_step N s (s\<lparr>logger := a, built := Suc (built s)\<rparr>)"
| append: "pc s \<noteq> Aborted \<Longrightarrow> built s = 3 \<Longrightarrow> Async_Append N msg (logger s) = Inr a \<Longrightarrow>
    async_step N s (s\<lparr>logger := a, accepted := accepted s @ [msg]\<rparr>)"
| start: "pc s \<noteq> Aborted \<Longrightarrow> built s = 3 \<Longrightarrow> async_step N s (s\<lparr>logger := Async_Start (logger s)\<rparr>)"
| stop: "pc s \<noteq> Aborted \<Longrightarrow> built s = 3 \<Longrightarrow> async_step N s (s\<lparr>logger := Async_Stop (logger s)\<rparr>)"
| join: "pc s \<noteq> Aborted \<Longrightarrow> built s = 3 \<Longrightarrow> Async_join (pc s = Exited) (logger s) = Some (Inr a) \<Longrightarrow>
    async_step N s (s\<lparr>logger := a\<rparr>)"
| begin_consume: "pc s = Starting \<Longrightarrow>
    async_step N s (s\<lparr>pc := (if stop (logger s) then Aborted else At_loop)\<rparr>)"
| enter: "pc s = At_loop \<Longrightarrow> \<not> stop (logger s) \<Longrightarrow> loop_asserts (cons s) \<Longrightarrow>
    async_step N s (s\<lparr>pc := Before_lock\<rparr>)"
| leave: "pc s = At_loop \<Longrightarrow> stop (logger s) \<Longrightarrow> async_step N s (s\<lparr>pc := Exited\<rparr>)"
| lock: "pc s = Before_lock \<Longrightarrow> built s < 3 \<Longrightarrow> async_step N s (s\<lparr>pc := Checking\<rparr>)"
| wait: "pc s = Checking \<or> pc s = Before_lock \<and> \<not> built s < 3 \<Longrightarrow> buffers (logger s) = [] \<Longrightarrow>
    async_step N s (s\<lparr>pc := Waiting\<rparr>)"
| pass: "pc s = Checking \<Longrightarrow> buffers (logger s) \<noteq> [] \<Longrightarrow> async_step N s (s\<lparr>pc := Collecting\<rparr>)"
| relock: "pc s = Waiting \<Longrightarrow> built s < 3 \<Longrightarrow> async_step N s (s\<lparr>pc := Collecting\<rparr>)"
| collect: "may_collect s \<Longrightarrow>
    collect (logger s, cons s) = Inr (a, k) \<Longrightarrow>
    async_step N s (s\<lparr>logger := a, cons := k, pc := Writing\<rparr>)"
| write_back: "pc s = Writing \<Longrightarrow> write_out (cons s) = Inr k \<Longrightarrow>
    async_step N s (s\<lparr>cons := k, pc := At_loop\<rparr>)"

text \<open>
  How a step can fail instead, and whose it is: a race, a null buffer, a failed assert, the exception of
  a second \<open>join\<close>.
\<close>

datatype culprit = Constructor | Client | Consumer

inductive async_failure :: "nat \<Rightarrow> async_system \<Rightarrow> culprit \<Rightarrow> cxx_error \<Rightarrow> bool" for N where
  build_races: "conflict (pc s) (built s) \<Longrightarrow> async_failure N s Constructor Undefined_Behaviour"
| build_fails: "pc s \<noteq> Aborted \<Longrightarrow> built s < 3 \<Longrightarrow> construct N (built s) (logger s) = Inl e \<Longrightarrow>
    async_failure N s Constructor e"
| append_fails: "pc s \<noteq> Aborted \<Longrightarrow> built s = 3 \<Longrightarrow> Async_Append N msg (logger s) = Inl e \<Longrightarrow>
    async_failure N s Client e"
| join_fails: "pc s \<noteq> Aborted \<Longrightarrow> built s = 3 \<Longrightarrow> Async_join (pc s = Exited) (logger s) = Some (Inl e) \<Longrightarrow>
    async_failure N s Client e"
| start_fails: "pc s = Aborted \<Longrightarrow> async_failure N s Consumer Assertion_Failed"
| enter_fails: "pc s = At_loop \<Longrightarrow> \<not> stop (logger s) \<Longrightarrow> \<not> loop_asserts (cons s) \<Longrightarrow>
    async_failure N s Consumer Assertion_Failed"
| collect_fails: "may_collect s \<Longrightarrow> collect (logger s, cons s) = Inl e \<Longrightarrow> async_failure N s Consumer e"
| write_fails: "pc s = Writing \<Longrightarrow> write_out (cons s) = Inl e \<Longrightarrow> async_failure N s Consumer e"

inductive_simps async_failure_iff: "async_failure N s who e"

definition async_init ::
  "nat \<Rightarrow> (nat \<Rightarrow> char) \<Rightarrow> bool \<Rightarrow> string \<Rightarrow> string \<Rightarrow> string \<Rightarrow> int \<Rightarrow> LogSeverity \<Rightarrow> async_system" where
  "async_init N garbage stop0 junk base bin roll sev =
     \<lparr>logger = AsyncLogging_members garbage stop0 base bin roll sev,
      cons = consumer_new N garbage junk, pc = Starting, built = 0, accepted = []\<rparr>"

section \<open>The invariant\<close>

text \<open>
  Between two passes of the consumer the spare buffer is used at most once: if it is gone, exactly
  one filled buffer waits. So the consumer finds at most two buffers to write.
\<close>

definition logger_inv :: "nat \<Rightarrow> AsyncLogging \<Rightarrow> bool" where
  "logger_inv N a \<longleftrightarrow> (\<exists>c. current_buf a = Some c \<and> cur c < N)
     \<and> (case next_buf a of Some nb \<Rightarrow> cur nb = 0 \<and> buffers a = [] | None \<Rightarrow> length (buffers a) = 1)
     \<and> (\<forall>c \<in> set (buffers a). cur c < N)"

definition consumer_inv :: "pc \<Rightarrow> consumer \<Rightarrow> bool" where
  "consumer_inv p k \<longleftrightarrow>
     (if p = Writing
      then buf1 k = None \<and> (buf2 k = None \<and> length (write_buffers k) = 2
             \<or> (\<exists>b. buf2 k = Some b \<and> cur b = 0) \<and> length (write_buffers k) = 1)
      else (\<exists>b. buf1 k = Some b \<and> cur b = 0) \<and> (\<exists>b. buf2 k = Some b \<and> cur b = 0)
         \<and> write_buffers k = [])"

text \<open>Everything that has been accepted, from the file to the current buffer.\<close>

definition in_flight :: "async_system \<Rightarrow> string" where
  "in_flight s = concat (map contents (write_buffers (cons s))) @
     concat (map contents (buffers (logger s))) @
     (case current_buf (logger s) of None \<Rightarrow> [] | Some c \<Rightarrow> contents c)"

definition fitting :: "nat \<Rightarrow> string list \<Rightarrow> string" where
  "fitting N msgs = concat (filter (\<lambda>m. length m < N) msgs)"

text \<open>While the constructor runs, nothing has been appended and the spare buffer is there.\<close>

definition async_inv :: "nat \<Rightarrow> async_system \<Rightarrow> bool" where
  "async_inv N s \<longleftrightarrow> logger_inv N (logger s) \<and> consumer_inv (pc s) (cons s)
     \<and> built s \<le> 3 \<and> (pc s = Checking \<or> pc s = Collecting \<longrightarrow> built s < 3) \<and> (built s < 3 \<longrightarrow> accepted s = [] \<and> next_buf (logger s) \<noteq> None)
     \<and> (\<forall>c \<in> set (write_buffers (cons s)). cur c < N) \<and> (\<forall>d \<in> set (dest (cons s)). length d < N)
     \<and> concat (dest (cons s)) @ in_flight s = fitting N (accepted s)"

lemma Async_Append_inv:
  assumes N: "N < 2 ^ 64" and inv: "logger_inv N a" and a: "Async_Append N msg a = Inr a'"
  shows "logger_inv N a' \<and>
    concat (map contents (buffers a')) @ (case current_buf a' of None \<Rightarrow> [] | Some c \<Rightarrow> contents c) =
    concat (map contents (buffers a)) @ (case current_buf a of None \<Rightarrow> [] | Some c \<Rightarrow> contents c) @
      (if length msg < N then msg else [])"
proof -
  obtain c where c: "current_buf a = Some c" "cur c < N"
    using inv by (auto simp: logger_inv_def)
  have av: "Avail N c = N - cur c" using c N by (intro Avail_eq) auto
  show ?thesis
  proof (cases "length msg < N - cur c")
    case True
    with a c av inv contents_Append [of msg N c] cur_Append [of msg N c] show ?thesis
      by (auto simp: Async_Append_def logger_inv_def split: option.splits)
  next
    case False
    with a c av obtain nb where nb: "next_buf a = Some nb"
        "a' = a\<lparr>buffers := buffers a @ [c], current_buf := Some (Buffer_Append N msg nb), next_buf := None\<rparr>"
      by (auto simp: Async_Append_def split: option.splits)
    with inv have z: "cur nb = 0" "buffers a = []" by (auto simp: logger_inv_def)
    then have "Avail N nb = N" using N by (simp add: Avail_eq)
    with nb z c inv contents_Append [of msg N nb] cur_Append [of msg N nb] Append_too_long [of msg N nb]
    show ?thesis by (cases "length msg < N") (auto simp: logger_inv_def)
  qed
qed

lemma Async_Append_fails:
  assumes "logger_inv N a" "N < 2 ^ 64"
  shows "Async_Append N msg a = Inl e \<longleftrightarrow> e = Undefined_Behaviour \<and> next_buf a = None
    \<and> (\<exists>c. current_buf a = Some c \<and> N \<le> cur c + length msg)"
proof -
  obtain c where c: "current_buf a = Some c" "cur c < N" using assms(1) by (auto simp: logger_inv_def)
  then have "Avail N c = N - cur c" using assms(2) by (intro Avail_eq) auto
  with c show ?thesis by (auto simp: Async_Append_def Let_def split: option.splits)
qed

lemma Async_Append_can_fail:
  assumes "logger_inv N a"
  shows "(\<exists>msg. Async_Append N msg a = Inl e) \<longleftrightarrow> e = Undefined_Behaviour \<and> next_buf a = None"
proof -
  obtain c where c: "current_buf a = Some c" "cur c < N" using assms by (auto simp: logger_inv_def)
  have "\<exists>msg :: string. \<not> Avail N c > length msg" by (rule exI [of _ "replicate (Avail N c) NUL"]) simp
  with c show ?thesis by (auto simp: Async_Append_def Let_def split: option.splits)
qed

lemma collect_total: "logger_inv N a \<Longrightarrow> collect (a, k) \<noteq> Inl e"
  by (auto simp: collect_def logger_inv_def Let_def)

lemma collect_inv:
  assumes "logger_inv N a" "consumer_inv p k" "p \<noteq> Writing" "collect (a, k) = Inr (a', k')"
  shows "logger_inv N a' \<and> consumer_inv Writing k' \<and> dest k' = dest k
    \<and> concat (map contents (write_buffers k')) =
        concat (map contents (buffers a)) @ (case current_buf a of None \<Rightarrow> [] | Some c \<Rightarrow> contents c)
    \<and> buffers a' = [] \<and> (\<exists>c. current_buf a' = Some c \<and> cur c = 0)
    \<and> (\<forall>c \<in> set (write_buffers k'). cur c < N)"
proof -
  obtain c where c: "current_buf a = Some c" "cur c < N"
    using assms(1) by (auto simp: logger_inv_def)
  obtain b1 b2 where b: "buf1 k = Some b1" "cur b1 = 0" "buf2 k = Some b2" "cur b2 = 0" "write_buffers k = []"
    using assms(2,3) by (auto simp: consumer_inv_def)
  show ?thesis
  proof (cases "next_buf a")
    case None
    with assms c b show ?thesis by (auto simp: collect_def logger_inv_def consumer_inv_def Let_def)
  next
    case (Some nb)
    with assms c b show ?thesis by (auto simp: collect_def logger_inv_def consumer_inv_def Let_def)
  qed
qed

lemma write_out_inv:
  assumes "consumer_inv Writing k"
  shows "\<exists>k'. write_out k = Inr k' \<and> consumer_inv At_loop k'
    \<and> dest k' = dest k @ map contents (write_buffers k)"
proof -
  from assms consider w where "buf2 k \<noteq> None" "write_buffers k = [w]"
    | v w where "buf2 k = None" "write_buffers k = [v, w]"
    by (auto simp: consumer_inv_def length_Suc_conv numeral_2_eq_2)
  then show ?thesis
    using assms by cases
      (auto simp: write_out_def drop_many_def refill_def consumer_inv_def Let_def)
qed

lemma contents_empty_iff: "contents b = [] \<longleftrightarrow> cur b = 0"
  by (simp add: contents_def)

lemma cur_SetZero [simp]: "cur (SetZero N b) = cur b"
  by (simp add: SetZero_def)

lemma construct_inv:
  assumes "async_inv N s" "built s < 3"
  shows "\<exists>a. construct N (built s) (logger s) = Inr a \<and>
    (\<not> conflict (pc s) (built s) \<longrightarrow> async_inv N (s\<lparr>logger := a, built := Suc (built s)\<rparr>))"
proof -
  from assms obtain c nb where c: "current_buf (logger s) = Some c" "cur c = 0"
      "next_buf (logger s) = Some nb" "cur nb = 0"
    by (auto simp: async_inv_def logger_inv_def in_flight_def fitting_def contents_empty_iff)
  from assms(2) consider "built s = 0" | "built s = Suc 0" | "built s = Suc (Suc 0)" by linarith
  then show ?thesis
    using assms(1) c
    by cases (auto simp: async_inv_def logger_inv_def in_flight_def conflict_def)
qed

lemma async_inv_step: "async_step N s s' \<Longrightarrow> N < 2 ^ 64 \<Longrightarrow> async_inv N s \<Longrightarrow> async_inv N s'"
proof (induction rule: async_step.induct)
  case (append s msg a)
  with Async_Append_inv [of N "logger s" msg a] show ?case
    by (auto simp: async_inv_def in_flight_def fitting_def)
next
  case (build s a)
  with construct_inv [of N s] show ?case by auto
next
  case (collect s a k)
  then have "pc s \<noteq> Writing" by (auto simp: may_collect_def)
  moreover have "next_buf (logger s) \<noteq> None \<longrightarrow> next_buf a \<noteq> None"
    using collect(2) by (auto simp: collect_def Let_def split: option.splits if_splits)
  ultimately show ?case
    using collect collect_inv [of N "logger s" "pc s" "cons s" a k]
    by (auto simp: async_inv_def in_flight_def consumer_inv_def)
next
  case (write_back s k)
  with write_out_inv [of "cons s"] show ?case
    by (auto simp: async_inv_def in_flight_def consumer_inv_def)
next
  case (stop s)
  then show ?case
    by (auto simp: async_inv_def in_flight_def Async_Stop_def logger_inv_def split: option.splits)
next
  case (start s)
  then show ?case
    by (auto simp: async_inv_def in_flight_def Async_Start_def logger_inv_def split: option.splits)
next
  case (join s a)
  then show ?case
    by (auto simp: async_inv_def in_flight_def Async_join_def logger_inv_def split: option.splits if_splits)
qed (auto simp: async_inv_def in_flight_def consumer_inv_def)

interpretation async: inductive_invariant "\<lambda>s. s = async_init N g b j base bin roll sev \<and> 0 < N \<and> N < 2 ^ 64"
  "async_step N" "\<lambda>s. async_inv N s \<and> N < 2 ^ 64" for N g b j base bin roll sev
proof (unfold_locales, goal_cases)
  case 1
  then show ?case
    by (simp add: async_inv_def async_init_def AsyncLogging_members_def consumer_new_def logger_inv_def
        consumer_inv_def in_flight_def fitting_def DataBuffer_new_def)
next
  case 2
  then show ?case using async_inv_step by blast
qed

text \<open>
  Seen from outside the logger is a channel of characters: the accepted messages that fit a buffer
  are put in, and what is written to the file is got out.
\<close>

definition byte_channel :: "nat \<Rightarrow> async_system \<Rightarrow> char fifo" where
  "byte_channel N s = \<lparr>put_in = fitting N (accepted s), got_out = concat (dest (cons s))\<rparr>"

lemma async_step_channel:
  assumes "async_inv N s" "async_step N s s'"
  shows "(fifo_step None)\<^sup>*\<^sup>* (byte_channel N s) (byte_channel N s')"
  using assms(2,1)
proof (induction rule: async_step.induct)
  case (append s msg a)
  show ?case
    using fifo_puts [of "fitting N (accepted s)" "concat (dest (cons s))" "if length msg < N then msg else []"]
    by (simp add: byte_channel_def fitting_def split: if_splits)
next
  case (collect s a k)
  then have "dest k = dest (cons s)"
    by (auto simp: collect_def Let_def split: option.splits if_splits)
  then show ?case by (simp add: byte_channel_def)
next
  case (write_back s k)
  then have "dest k = dest (cons s) @ map contents (write_buffers (cons s))"
    using write_out_inv [of "cons s"] by (auto simp: async_inv_def)
  moreover have "fitting N (accepted s) = concat (dest (cons s)) @ concat (map contents (write_buffers (cons s))) @
      concat (map contents (buffers (logger s))) @
      (case current_buf (logger s) of None \<Rightarrow> [] | Some c \<Rightarrow> contents c)"
    using write_back.prems by (simp add: async_inv_def in_flight_def)
  ultimately show ?case using fifo_gets [OF refl] by (simp add: byte_channel_def)
qed (simp_all add: byte_channel_def)

interpretation async_refines: refinement_mapping "\<lambda>s. s = async_init N g b j base bin roll sev \<and> 0 < N \<and> N < 2 ^ 64"
  "async_step N" "\<lambda>s. async_inv N s \<and> N < 2 ^ 64" "\<lambda>q. q = fifo_empty" "fifo_step None" "byte_channel N"
  for N g b j base bin roll sev
proof (unfold_locales, goal_cases)
  case 1
  then show ?case
    by (simp add: async_init_def byte_channel_def fitting_def consumer_new_def fifo_empty_def)
qed (simp add: async_step_channel)

lemma async_reachable:
  assumes "reach (\<lambda>s. s = async_init N g b j base bin roll sev) (async_step N) s" "0 < N" "N < 2 ^ 64"
  shows "async_inv N s"
  using async.reachable_inv [of N g b j base bin roll sev s] assms by simp

section \<open>Properties\<close>

text \<open>
  C11. Of the messages shorter than a buffer nothing is lost, duplicated or reordered while the logger runs:
  in every interleaving, what has been written to the file, followed by the buffers on their way and the
  current buffer, is the sequence of those appended messages. (\<open>DataBuffer::Append\<close> drops the others.)
\<close>

theorem async_log_conserves:
  assumes "reach (\<lambda>s. s = async_init N g b j base bin roll sev) (async_step N) s" "0 < N" "N < 2 ^ 64"
  shows "concat (dest (cons s)) @ in_flight s = fitting N (accepted s)"
  using async_reachable [OF assms] by (simp add: async_inv_def)

text \<open>
  The asynchronous logger implements the abstract first-in first-out channel of characters: in
  every interleaving of the constructor, the clients and the consumer, what is accepted and what
  is written are those of a run of the abstract channel.
\<close>

lemma async_refines_fifo:
  assumes "reach (\<lambda>s. s = async_init N g b j base bin roll sev) (async_step N) s" "0 < N" "N < 2 ^ 64"
  shows "reach (\<lambda>q. q = fifo_empty) (fifo_step None) (byte_channel N s)"
proof (rule async_refines.refines)
  show "reach (\<lambda>s. s = async_init N g b j base bin roll sev \<and> 0 < N \<and> N < 2 ^ 64) (async_step N) s"
    using assms by simp
qed


section \<open>Concrete runs\<close>

datatype async_event = Construct | Log string | Start_logging | Stop_logging | Join_thread | Consume

definition call_logger :: "AsyncLogging \<Rightarrow> async_system \<Rightarrow> async_system" where
  "call_logger a s = (if pc s \<noteq> Aborted \<and> built s = 3 then s\<lparr>logger := a\<rparr> else s)"

definition take_buffers :: "async_system \<Rightarrow> async_system" where
  "take_buffers s = (case collect (logger s, cons s) of
     Inr (a, k) \<Rightarrow> s\<lparr>logger := a, cons := k, pc := Writing\<rparr> | Inl _ \<Rightarrow> s)"

definition consume :: "async_system \<Rightarrow> async_system" where
  "consume s = (case pc s of
     Starting \<Rightarrow> s\<lparr>pc := (if stop (logger s) then Aborted else At_loop)\<rparr>
   | At_loop \<Rightarrow> if stop (logger s) then s\<lparr>pc := Exited\<rparr>
                else if loop_asserts (cons s) then s\<lparr>pc := Before_lock\<rparr> else s
   | Writing \<Rightarrow> (case write_out (cons s) of Inr k \<Rightarrow> s\<lparr>cons := k, pc := At_loop\<rparr> | Inl _ \<Rightarrow> s)
   | Exited \<Rightarrow> s
   | Aborted \<Rightarrow> s
   | Before_lock \<Rightarrow> if built s < 3 then s\<lparr>pc := Checking\<rparr>
       else if buffers (logger s) = [] then s\<lparr>pc := Waiting\<rparr> else take_buffers s
   | Checking \<Rightarrow> s\<lparr>pc := (if buffers (logger s) = [] then Waiting else Collecting)\<rparr>
   | Waiting \<Rightarrow> if built s < 3 then s\<lparr>pc := Collecting\<rparr> else take_buffers s
   | Collecting \<Rightarrow> take_buffers s)"

fun async_schedule :: "nat \<Rightarrow> async_system \<Rightarrow> async_event \<Rightarrow> async_system" where
  "async_schedule N s Construct = (if pc s \<noteq> Aborted \<and> built s < 3 \<and> \<not> conflict (pc s) (built s) then case construct N (built s) (logger s) of
     Inr a \<Rightarrow> s\<lparr>logger := a, built := Suc (built s)\<rparr> | Inl _ \<Rightarrow> s else s)"
| "async_schedule N s (Log msg) = (if pc s \<noteq> Aborted \<and> built s = 3 then case Async_Append N msg (logger s) of
     Inr a \<Rightarrow> s\<lparr>logger := a, accepted := accepted s @ [msg]\<rparr> | Inl _ \<Rightarrow> s else s)"
| "async_schedule N s Start_logging = call_logger (Async_Start (logger s)) s"
| "async_schedule N s Stop_logging = call_logger (Async_Stop (logger s)) s"
| "async_schedule N s Join_thread = (case Async_join (pc s = Exited) (logger s) of
     Some (Inr a) \<Rightarrow> call_logger a s | _ \<Rightarrow> s)"
| "async_schedule N s Consume = consume s"

lemma begin_consume:
  "pc s = Starting \<Longrightarrow> stop (logger s) \<Longrightarrow> async_step N s (s\<lparr>pc := Aborted\<rparr>)"
  "pc s = Starting \<Longrightarrow> \<not> stop (logger s) \<Longrightarrow> async_step N s (s\<lparr>pc := At_loop\<rparr>)"
  using async_step.begin_consume [of s N] by simp_all

lemma take_buffers_step: "may_collect s \<Longrightarrow> async_step N s (take_buffers s) \<or> take_buffers s = s"
  by (auto simp: take_buffers_def split: sum.splits intro: async_step.collect)

lemma consume_step: "async_step N s (consume s) \<or> consume s = s"
  using take_buffers_step [of s N] unfolding consume_def
  by (cases "pc s")
    (auto simp: may_collect_def split: sum.splits intro: async_step.intros begin_consume)

lemma async_schedule_step: "async_step N s (async_schedule N s e) \<or> async_schedule N s e = s"
  using consume_step [of N s]
  by (cases "(N, s, e)" rule: async_schedule.cases)
    (auto simp: call_logger_def split: option.splits sum.splits
      intro: async_step.intros)

lemma async_schedule_reach:
  "reach (\<lambda>s. s = async_init N g b j base bin roll sev) (async_step N) (foldl (async_schedule N) (async_init N g b j base bin roll sev) es)"
  by (rule reach_foldl) (simp_all add: async_schedule_step reach_init)

lemmas async_run_simps = consume_def take_buffers_def conflict_def async_init_def AsyncLogging_members_def AsyncLogging_new_def call_logger_def consumer_new_def SetZero_def
  DataBuffer_new_def Async_Append_def Avail_def to_uint64_def Buffer_Append_def loop_asserts_def
  Length_def collect_def write_out_def drop_many_def refill_def Let_def Reset_def Async_Stop_def Async_join_def

text \<open>Buffers of four characters: the second message goes to the spare buffer, both are written.\<close>

definition async_example :: async_system where
  "async_example = foldl (async_schedule 4) (async_init 4 (\<lambda>_. CHR ''x'') True ''junk'' ''log'' ''prog'' 1024 INFO)
     [Construct, Consume, Construct, Construct, Log ''ab'', Log ''cd'', Consume, Consume, Log ''e'', Consume]"

lemma async_example_reach:
  "reach (\<lambda>s. s = async_init 4 (\<lambda>_. CHR ''x'') True ''junk'' ''log'' ''prog'' 1024 INFO) (async_step 4) async_example"
  unfolding async_example_def by (rule async_schedule_reach)

lemma async_example_result:
  "dest (cons async_example) = [''ab'', ''cd''] \<and> pc async_example = At_loop
   \<and> accepted async_example = [''ab'', ''cd'', ''e'']"
  by (simp add: async_example_def async_run_simps contents_def upt_rec)

lemma async_log_conserves_witness:
  "concat (dest (cons async_example)) @ in_flight async_example = ''abcde''"
  using async_log_conserves [OF async_example_reach] async_example_result
  by (simp add: fitting_def)

text \<open>
  The race: the consumer has waited and takes the buffers before the constructor has set them to zero.
\<close>

definition constructor_race :: async_system where
  "constructor_race = foldl (async_schedule 4) (async_init 4 (\<lambda>_. CHR ''x'') True ''junk'' ''log'' ''prog'' 1024 INFO)
     [Construct, Consume, Consume, Consume, Consume, Consume]"


lemma async_refines_fifo_witness:
  "reach (\<lambda>q. q = fifo_empty) (fifo_step None) \<lparr>put_in = ''abcde'', got_out = ''abcd''\<rparr>"
  using async_refines_fifo [OF async_example_reach] async_example_result
  by (simp add: byte_channel_def fitting_def)

end
