(* ===== verification/Async_Stop.thy ===== *)
theory Async_Stop
  imports Async_Log
begin

text \<open>
  How the asynchronous logger of base/async_logging.h ends, how much it can hold, and where it
  loses messages.
\<close>

section \<open>Stopping\<close>

text \<open>The steps the consumer still needs once it is told to stop.\<close>

fun to_exit :: "pc \<Rightarrow> nat" where
  "to_exit Before_lock = 4"
| "to_exit Checking = 4"
| "to_exit Waiting = 3"
| "to_exit Collecting = 3"
| "to_exit Writing = 2"
| "to_exit At_loop = 1"
| "to_exit _ = 0"

lemma consume_towards_exit:
  assumes inv: "async_inv N s" and st: "stop (logger s)" and pc: "pc s \<notin> {Starting, Aborted}"
    and built: "built s = 3"
  shows "stop (logger (consume s)) \<and> pc (consume s) \<notin> {Starting, Aborted}
    \<and> to_exit (pc (consume s)) \<le> to_exit (pc s) - 1
    \<and> thread_joinable (logger (consume s)) = thread_joinable (logger s)"
proof -
  obtain a k where c: "collect (logger s, cons s) = Inr (a, k)"
    using collect_total [of N "logger s" "cons s"] inv
    by (cases "collect (logger s, cons s)") (auto simp: async_inv_def)
  then have a: "stop a = stop (logger s)" "thread_joinable a = thread_joinable (logger s)"
    by (auto simp: collect_def Let_def split: option.splits if_splits)
  have "\<exists>k. write_out (cons s) = Inr k" if "pc s = Writing"
    using write_out_inv [of "cons s"] inv that by (auto simp: async_inv_def)
  moreover have "pc s \<noteq> Checking \<and> pc s \<noteq> Collecting" using inv built by (auto simp: async_inv_def)
  ultimately show ?thesis
    using c a st pc built by (cases "pc s") (auto simp: consume_def take_buffers_def)
qed

text \<open>What the other threads do while \<open>Stop\<close> waits leaves the flag, the consumer and the thread alone.\<close>

definition not_restarting :: "async_event \<Rightarrow> bool" where
  "not_restarting e \<longleftrightarrow> e \<noteq> Start_logging \<and> e \<noteq> Join_thread"

definition stopping :: "async_system \<Rightarrow> bool" where
  "stopping s \<longleftrightarrow> stop (logger s) \<and> built s = 3 \<and> pc s \<notin> {Starting, Aborted} \<and> thread_joinable (logger s)"

lemma Async_Append_stop:
  "Async_Append N msg a = Inr a' \<Longrightarrow> stop a' = stop a \<and> thread_joinable a' = thread_joinable a"
  by (auto simp: Async_Append_def Let_def split: option.splits if_splits)

lemma other_event_stopping:
  assumes "stopping s" "not_restarting e" "e \<noteq> Consume"
  shows "stopping (async_schedule N s e) \<and> pc (async_schedule N s e) = pc s"
  using assms
  by (cases e)
    (auto simp: stopping_def not_restarting_def call_logger_def Async_Stop_def
      dest: Async_Append_stop split: sum.split)

lemma consume_stopping:
  assumes "async_inv N s" "stopping s"
  shows "stopping (consume s) \<and> to_exit (pc (consume s)) \<le> to_exit (pc s) - 1"
proof -
  have "built (consume s) = built s"
    by (auto simp: consume_def take_buffers_def split: pc.split sum.split)
  with consume_towards_exit [OF assms(1)] assms(2) show ?thesis by (auto simp: stopping_def)
qed

lemma schedule_stopping:
  "async_inv N s \<Longrightarrow> N < 2 ^ 64 \<Longrightarrow> stopping s \<Longrightarrow> list_all not_restarting es \<Longrightarrow>
    stopping (foldl (async_schedule N) s es)
    \<and> to_exit (pc (foldl (async_schedule N) s es)) \<le> to_exit (pc s) - count_list es Consume"
proof (induction es arbitrary: s)
  case (Cons e es)
  let ?t = "async_schedule N s e"
  have inv: "async_inv N ?t"
    using async_schedule_step [of N s e] async_inv_step Cons.prems(1,2) by metis
  have t: "stopping ?t \<and> to_exit (pc ?t) \<le> to_exit (pc s) - (if e = Consume then 1 else 0)"
  proof (cases "e = Consume")
    case True
    with consume_stopping [OF Cons.prems(1,3)] show ?thesis by simp
  next
    case False
    with other_event_stopping [OF Cons.prems(3), of e N] Cons.prems(4) show ?thesis by simp
  qed
  with Cons.IH [OF inv Cons.prems(2)] Cons.prems(4) show ?case by fastforce
qed simp

lemma to_exit_zero: "pc s \<notin> {Starting, Aborted} \<Longrightarrow> to_exit (pc s) = 0 \<Longrightarrow> pc s = Exited"
  by (cases "pc s") simp_all

text \<open>The schedules are all interleavings.\<close>

lemma async_step_scheduled: "async_step N s s' \<Longrightarrow> \<exists>e. s' = async_schedule N s e"
proof (induction rule: async_step.induct)
  case (build s a) then show ?case by (intro exI [of _ Construct]) simp
next
  case (append s msg a) then show ?case by (intro exI [of _ "Log msg"]) simp
next
  case (start s) then show ?case by (intro exI [of _ Start_logging]) (simp add: call_logger_def)
next
  case (stop s) then show ?case by (intro exI [of _ Stop_logging]) (simp add: call_logger_def)
next
  case (join s a) then show ?case by (intro exI [of _ Join_thread]) (simp add: call_logger_def)
qed (auto simp: consume_def take_buffers_def may_collect_def intro!: exI [of _ Consume])

text \<open>
  C13. \<open>Stop\<close> of a logger whose consumer has passed its first assert returns, whatever the other threads
  do meanwhile: once the flag is set, in every interleaving with further \<open>Append\<close>s and \<open>Stop\<close>s the consumer
  needs at most four steps of its own (its wait ends at the latest after the flush interval) to leave
  its loop; then the thread is joined and the logger can be destroyed. Only a new \<open>Start\<close> could
  keep it alive. (A consumer that starts after \<open>Stop\<close> fails its first assert, see below.)
\<close>

theorem async_stop_terminates:
  assumes "reach (\<lambda>s. s = async_init N g b j base bin roll sev) (async_step N) s" "0 < N" "N < 2 ^ 64"
    and "stop (logger s)" "built s = 3" "pc s \<notin> {Starting, Aborted}" "thread_joinable (logger s)"
    and "list_all not_restarting es" "4 \<le> count_list es Consume"
  shows "let t = foldl (async_schedule N) s es in pc t = Exited
    \<and> (\<exists>a. Async_join (pc t = Exited) (logger t) = Some (Inr a) \<and> Async_destroy True a = Some (Inr ()))"
proof -
  have "stopping s" using assms(4-7) by (simp add: stopping_def)
  note r = schedule_stopping [OF async_reachable [OF assms(1-3)] assms(3) this assms(8)]
  have "to_exit (pc s) \<le> 4" by (cases "pc s") simp_all
  with r assms(9) have "to_exit (pc (foldl (async_schedule N) s es)) = 0" by linarith
  with r to_exit_zero [of "foldl (async_schedule N) s es"] show ?thesis
    by (simp add: Let_def stopping_def Async_join_def Async_destroy_def)
qed

definition async_stop_example :: async_system where
  "async_stop_example = foldl (async_schedule 4) (async_init 4 (\<lambda>_. CHR ''x'') True ''junk'' ''log'' ''prog'' 1024 INFO)
     [Construct, Consume, Construct, Construct, Log ''ab'', Log ''cd'', Consume, Stop_logging]"

lemma async_stop_example:
  "reach (\<lambda>s. s = async_init 4 (\<lambda>_. CHR ''x'') True ''junk'' ''log'' ''prog'' 1024 INFO) (async_step 4) async_stop_example"
  "stop (logger async_stop_example) \<and> pc async_stop_example = Before_lock
   \<and> built async_stop_example = 3 \<and> thread_joinable (logger async_stop_example)"
proof -
  show "reach (\<lambda>s. s = async_init 4 (\<lambda>_. CHR ''x'') True ''junk'' ''log'' ''prog'' 1024 INFO) (async_step 4) async_stop_example"
    unfolding async_stop_example_def by (rule async_schedule_reach)
qed (simp add: async_stop_example_def async_run_simps)

lemma async_stop_terminates_witness:
  "pc (foldl (async_schedule 4) async_stop_example
     [Consume, Log ''e'', Consume, Stop_logging, Consume, Log ''f'', Consume]) = Exited"
proof -
  have "list_all not_restarting [Consume, Log ''e'', Consume, Stop_logging, Consume, Log ''f'', Consume]"
    by (simp add: not_restarting_def)
  from async_stop_terminates [OF async_stop_example(1) _ _ _ _ _ _ this] async_stop_example(2)
  show ?thesis by (simp add: Let_def)
qed

text \<open>
  The assert at the start of the consumer can fail: the thread is started before \<open>stop_\<close> has a
  value, and when it starts late, \<open>Stop\<close> may have been called already.
\<close>

lemma async_start_assert_fails:
  "(\<exists>s. reach (\<lambda>s. s = async_init N g True j base bin roll sev) (async_step N) s \<and> pc s = Aborted \<and> accepted s = [])
   \<and> (\<exists>s. reach (\<lambda>s. s = async_init N g False j base bin roll sev) (async_step N) s \<and> pc s = Aborted \<and> built s = 3)"
proof (intro conjI exI)
  let ?s = "foldl (async_schedule N) (async_init N g True j base bin roll sev) [Consume]"
  show "reach (\<lambda>s. s = async_init N g True j base bin roll sev) (async_step N) ?s" by (rule async_schedule_reach)
  show "pc ?s = Aborted" "accepted ?s = []" by (simp_all add: async_run_simps)
  let ?t = "foldl (async_schedule N) (async_init N g False j base bin roll sev)
    [Construct, Construct, Construct, Stop_logging, Consume]"
  show "reach (\<lambda>s. s = async_init N g False j base bin roll sev) (async_step N) ?t" by (rule async_schedule_reach)
  show "pc ?t = Aborted" "built ?t = 3" by (simp_all add: async_run_simps)
qed

section \<open>How much the logger holds\<close>

text \<open>All buffers that the logger and the local variables of its consumer own.\<close>

definition owned_buffers :: "async_system \<Rightarrow> DataBuffer list" where
  "owned_buffers s =
     (let a = logger s; k = cons s;
          own = (\<lambda>b. case b of None \<Rightarrow> [] | Some c \<Rightarrow> [c])
      in own (current_buf a) @ own (next_buf a) @ buffers a @
         own (buf1 k) @ own (buf2 k) @ write_buffers k)"

lemma length_concat_contents:
  "list_all (\<lambda>c. cur c < N) cs \<Longrightarrow> length (concat (map contents cs)) \<le> length cs * (N - 1)"
  by (induction cs) auto

text \<open>
  C14. The logger's memory is bounded: in every reachable state it owns exactly the four buffers it was
  made with (none is lost or duplicated, and the consumer never has more than two to write), each
  holds less than its size, and so the messages that are accepted and not yet written, which a
  crash would lose, are less than four buffers.
\<close>

theorem async_memory_bound:
  assumes "reach (\<lambda>s. s = async_init N g b j base bin roll sev) (async_step N) s" "0 < N" "N < 2 ^ 64"
  shows "length (owned_buffers s) = 4 \<and> list_all (\<lambda>c. cur c < N) (owned_buffers s)
    \<and> length (fitting N (accepted s)) \<le> length (concat (dest (cons s))) + 4 * (N - 1)"
proof -
  have inv: "logger_inv N (logger s)" "consumer_inv (pc s) (cons s)"
      "\<forall>c \<in> set (write_buffers (cons s)). cur c < N"
      "concat (dest (cons s)) @ in_flight s = fitting N (accepted s)"
    using async_reachable [OF assms] by (simp_all add: async_inv_def)
  obtain c where c: "current_buf (logger s) = Some c" "cur c < N"
    using inv(1) by (auto simp: logger_inv_def)
  have owned: "length (owned_buffers s) = 4 \<and> list_all (\<lambda>c. cur c < N) (owned_buffers s)"
    using inv(1-3) assms(2)
    by (auto simp: owned_buffers_def logger_inv_def consumer_inv_def list_all_iff split: option.splits if_splits)
  define cs where "cs = write_buffers (cons s) @ buffers (logger s) @ [c]"
  have "length cs \<le> 4"
    using inv(1,2) by (auto simp: cs_def logger_inv_def consumer_inv_def split: option.splits if_splits)
  moreover have "list_all (\<lambda>c. cur c < N) cs"
    using inv(1,3) c(2) by (auto simp: cs_def logger_inv_def list_all_iff)
  moreover have "in_flight s = concat (map contents cs)" by (simp add: in_flight_def cs_def c(1))
  ultimately have "length (in_flight s) \<le> 4 * (N - 1)"
    using length_concat_contents [of N cs] by (metis le_trans mult_le_mono1)
  with owned show ?thesis by (simp flip: inv(4))
qed

lemma async_memory_bound_witness:
  "length (owned_buffers async_example) = 4 \<and> 5 \<le> length (concat (dest (cons async_example))) + 12"
  using async_memory_bound [OF async_example_reach] async_example_result by (simp add: fitting_def)

section \<open>Where messages are lost\<close>

text \<open>
  C38. \<open>Append\<close> fails exactly when the message does not fit the current buffer and the consumer
  has not yet replaced the spare buffer: it then uses the null \<open>current_buf_\<close> it has just moved
  away.
\<close>

theorem async_append_fails_iff:
  assumes "reach (\<lambda>s. s = async_init N g b j base bin roll sev) (async_step N) s" "0 < N" "N < 2 ^ 64"
  shows "\<exists>c. current_buf (logger s) = Some c \<and>
    (is_error (Async_Append N msg (logger s)) \<longleftrightarrow>
       next_buf (logger s) = None \<and> N \<le> cur c + length msg)"
proof -
  from async_reachable [OF assms] obtain c where c: "current_buf (logger s) = Some c" "cur c < N"
    by (auto simp: async_inv_def logger_inv_def)
  then have "Avail N c = N - cur c" using assms(3) by (intro Avail_eq) auto
  with c show ?thesis
    by (auto simp: Async_Append_def Let_def split: option.splits)
qed

definition async_crash_example :: async_system where
  "async_crash_example = foldl (async_schedule 4) (async_init 4 (\<lambda>_. CHR ''x'') True ''junk'' ''log'' ''prog'' 1024 INFO)
     [Construct, Construct, Construct, Log ''ab'', Log ''cd'']"

lemma async_append_fails_iff_witness:
  "is_error (Async_Append 4 ''ef'' (logger async_crash_example))"
proof -
  have r: "reach (\<lambda>s. s = async_init 4 (\<lambda>_. CHR ''x'') True ''junk'' ''log'' ''prog'' 1024 INFO) (async_step 4) async_crash_example"
    unfolding async_crash_example_def by (rule async_schedule_reach)
  have "next_buf (logger async_crash_example) = None \<and>
      map_option cur (current_buf (logger async_crash_example)) = Some 2"
    by (simp add: async_crash_example_def async_run_simps)
  then show ?thesis using async_append_fails_iff [OF r, of "''ef''"] by auto
qed

text \<open>
  C39. The consumer does not drain the buffers when it stops: there is a run, with the code's
  buffer size, in which a message is accepted, the logger is stopped and the consumer has ended, and
  nothing was ever written.
\<close>

theorem async_stop_loses_messages:
  "\<exists>s. reach (\<lambda>s. s = async_init kLargeBuffer g b j base bin roll sev) (async_step kLargeBuffer) s
     \<and> accepted s = [''lost''] \<and> stop (logger s) \<and> \<not> thread_joinable (logger s) \<and> pc s = Exited
     \<and> dest (cons s) = []"
proof (intro exI conjI)
  let ?s = "foldl (async_schedule kLargeBuffer) (async_init kLargeBuffer g b j base bin roll sev)
     [Construct, Construct, Construct, Consume, Log ''lost'', Stop_logging, Consume, Join_thread]"
  show "reach (\<lambda>s. s = async_init kLargeBuffer g b j base bin roll sev) (async_step kLargeBuffer) ?s"
    by (rule async_schedule_reach)
qed (simp_all add: async_run_simps kLargeBuffer_def)

end
