(* ===== verification/Async_Progress.thy ===== *)
theory Async_Progress
  imports Async_Log "HOL-Library.Sublist"
begin

text \<open>
  The asynchronous logger of base/async_logging.h does its work in bounded time: what has been
  accepted is written after a fixed number of steps of the consumer, whatever happens meanwhile.
\<close>

section \<open>The steps to a write\<close>

text \<open>
  The steps the consumer needs until the text \<open>A\<close>, accepted already, is written: one if it has
  collected all of it, otherwise those until it has collected and written the buffers again.
\<close>

fun to_write :: "pc \<Rightarrow> nat" where
  "to_write Writing = 5"
| "to_write At_loop = 4"
| "to_write Before_lock = 3"
| "to_write Checking = 3"
| "to_write Waiting = 2"
| "to_write Collecting = 2"
| "to_write _ = 0"

definition collected :: "async_system \<Rightarrow> string" where
  "collected s = concat (dest (cons s)) @ concat (map contents (write_buffers (cons s)))"

definition steps_to_write :: "string \<Rightarrow> async_system \<Rightarrow> nat" where
  "steps_to_write A s =
     (if prefix A (concat (dest (cons s))) then 0 else if prefix A (collected s) then 1 else to_write (pc s))"

text \<open>The logger is running: nobody has stopped it, and its consumer is in the loop.\<close>

definition running :: "async_system \<Rightarrow> bool" where
  "running s \<longleftrightarrow> \<not> stop (logger s) \<and> pc s \<notin> {Starting, Aborted, Exited}"

lemma steps_to_write_le: "steps_to_write A s \<le> 5"
  by (cases "pc s") (simp_all add: steps_to_write_def)

lemma consume_running:
  assumes inv: "async_inv N s" and run: "running s" and A: "prefix A (fitting N (accepted s))"
  shows "running (consume s) \<and> steps_to_write A (consume s) \<le> steps_to_write A s - 1"
proof -
  have c: "consumer_inv (pc s) (cons s)" and l: "logger_inv N (logger s)"
    and all: "concat (dest (cons s)) @ in_flight s = fitting N (accepted s)"
    using inv by (simp_all add: async_inv_def)
  have empty: "write_buffers (cons s) = []" if "pc s \<noteq> Writing"
    using c that by (simp add: consumer_inv_def)
  have collect_step: ?thesis
    if t: "consume s = s\<lparr>logger := a, cons := k, pc := Writing\<rparr>"
      and r: "collect (logger s, cons s) = Inr (a, k)" and w: "pc s \<noteq> Writing" "to_write (pc s) \<ge> 2" for a k
  proof -
    note col = collect_inv [OF l c w(1) r]
    have "write_buffers (cons s) = []" by (rule empty [OF w(1)])
    with all have "collected (consume s) = fitting N (accepted s)"
      using col by (simp add: collected_def t in_flight_def)
    moreover have "stop a = stop (logger s)"
      using r by (auto simp: collect_def Let_def split: option.splits if_splits)
    moreover have "dest (cons (consume s)) = dest (cons s)" using col by (simp add: t)
    moreover have "collected s = concat (dest (cons s))"
      using \<open>write_buffers (cons s) = []\<close> by (simp add: collected_def)
    ultimately show ?thesis
      using A run w(2) by (auto simp: steps_to_write_def running_def t)
  qed
  obtain a k where r: "collect (logger s, cons s) = Inr (a, k)"
    using collect_total [OF l] by (cases "collect (logger s, cons s)") auto
  have early: ?thesis if "built s < 3" "running (consume s)"
  proof -
    have "A = []" using that(1) inv A by (simp add: async_inv_def fitting_def)
    with that(2) show ?thesis by (simp add: steps_to_write_def)
  qed
  have later: "\<not> built s < 3 \<Longrightarrow> pc s \<noteq> Checking \<and> pc s \<noteq> Collecting"
    using inv by (auto simp: async_inv_def)
  have a: "stop a = stop (logger s)"
    using r by (auto simp: collect_def Let_def split: option.splits if_splits)
  show ?thesis
  proof (cases "pc s")
    case At_loop
    with c have "loop_asserts (cons s)" by (auto simp: consumer_inv_def loop_asserts_def Length_def)
    with At_loop run empty show ?thesis
      by (simp add: consume_def running_def steps_to_write_def collected_def)
  next
    case Before_lock
    show ?thesis
    proof (cases "\<not> built s < 3")
      case True
      show ?thesis
      proof (cases "buffers (logger s) = []")
        case True
        with \<open>\<not> built s < 3\<close> Before_lock run empty show ?thesis
          by (simp add: consume_def running_def steps_to_write_def collected_def)
      next
        case False
        with Before_lock r True show ?thesis by (intro collect_step) (simp_all add: consume_def take_buffers_def)
      qed
    next
      case False
      with Before_lock run show ?thesis by (intro early) (simp_all add: consume_def running_def)
    qed
  next
    case Waiting
    show ?thesis
    proof (cases "built s < 3")
      case True
      with Waiting run show ?thesis by (intro early) (simp_all add: consume_def running_def)
    next
      case False
      with Waiting r show ?thesis by (intro collect_step) (simp_all add: consume_def take_buffers_def)
    qed
  next
    case Checking
    with later run show ?thesis by (intro early) (auto simp: consume_def running_def)
  next
    case Collecting
    with later run r a show ?thesis by (intro early) (auto simp: consume_def running_def take_buffers_def)
  next
    case Writing
    have "consumer_inv Writing (cons s)" using c by (simp add: Writing)
    from write_out_inv [OF this] obtain k' where k': "write_out (cons s) = Inr k'" "consumer_inv At_loop k'"
        "dest k' = dest (cons s) @ map contents (write_buffers (cons s))"
      by blast
    then have "concat (dest k') = collected s" "write_buffers k' = []"
      by (simp_all add: collected_def consumer_inv_def)
    with Writing run k'(1) show ?thesis
      by (auto simp: consume_def running_def steps_to_write_def collected_def)
  qed (use run in \<open>auto simp: running_def\<close>)
qed

lemma other_event_running:
  assumes "running s" "e \<noteq> Stop_logging" "e \<noteq> Consume"
  shows "running (async_schedule N s e) \<and> cons (async_schedule N s e) = cons s \<and> pc (async_schedule N s e) = pc s"
proof (cases e)
  case Construct
  have "stop a \<longrightarrow> stop (logger s)" if "construct N (built s) (logger s) = Inr a" for a
    using that by (cases "(N, built s, logger s)" rule: construct.cases) (auto split: option.splits)
  with Construct assms show ?thesis by (auto simp: running_def split: sum.split)
next
  case (Log msg)
  have "stop a = stop (logger s)" if "Async_Append N msg (logger s) = Inr a" for a
    using that by (auto simp: Async_Append_def Let_def split: option.splits if_splits)
  with Log assms show ?thesis by (auto simp: running_def split: sum.split)
qed (use assms in \<open>auto simp: running_def call_logger_def Async_Start_def Async_join_def\<close>)

lemma schedule_accepted: "\<exists>ms. accepted (async_schedule N s e) = accepted s @ ms"
proof (cases e)
  case Consume
  then show ?thesis by (auto simp: consume_def take_buffers_def split: pc.split sum.split)
qed (auto simp: call_logger_def split: sum.split option.split)

lemma fitting_append: "fitting N (ms @ ns) = fitting N ms @ fitting N ns"
  by (simp add: fitting_def)

lemma schedule_running:
  "async_inv N s \<Longrightarrow> N < 2 ^ 64 \<Longrightarrow> running s \<Longrightarrow> prefix A (fitting N (accepted s)) \<Longrightarrow>
    list_all (\<lambda>e. e \<noteq> Stop_logging) es \<Longrightarrow>
    running (foldl (async_schedule N) s es)
    \<and> steps_to_write A (foldl (async_schedule N) s es) \<le> steps_to_write A s - count_list es Consume"
proof (induction es arbitrary: s)
  case (Cons e es)
  let ?t = "async_schedule N s e"
  have inv: "async_inv N ?t"
    using async_schedule_step [of N s e] async_inv_step Cons.prems(1,2) by metis
  obtain ms where "accepted ?t = accepted s @ ms" using schedule_accepted by blast
  then have A: "prefix A (fitting N (accepted ?t))"
    using Cons.prems(4) by (simp add: fitting_append)
  have t: "running ?t \<and> steps_to_write A ?t \<le> steps_to_write A s - (if e = Consume then 1 else 0)"
  proof (cases "e = Consume")
    case True
    with consume_running [OF Cons.prems(1,3,4)] show ?thesis by simp
  next
    case False
    with other_event_running [OF Cons.prems(3), of e N] Cons.prems(5) show ?thesis
      by (simp add: steps_to_write_def collected_def)
  qed
  with Cons.IH [OF inv Cons.prems(2) _ A] Cons.prems(5) show ?case by fastforce
qed simp

text \<open>
  C10. Messages are written in bounded time: while the logger runs, in every interleaving with further
  calls (but \<open>Stop\<close>), five steps of the consumer (of which one is a wait of at most the
  flush interval) after any moment, everything that had been accepted by then and fits a buffer
  is in the file, in order.
\<close>

theorem async_writes_in_time:
  assumes "reach (\<lambda>s. s = async_init N g b j base bin roll sev) (async_step N) s" "0 < N" "N < 2 ^ 64"
    and "\<not> stop (logger s)" "pc s \<notin> {Starting, Aborted, Exited}"
    and "list_all (\<lambda>e. e \<noteq> Stop_logging) es" "5 \<le> count_list es Consume"
  shows "prefix (fitting N (accepted s)) (concat (dest (cons (foldl (async_schedule N) s es))))"
proof -
  have "running s" using assms(4,5) by (simp add: running_def)
  note r = schedule_running [OF async_reachable [OF assms(1-3)] assms(3) this prefix_order.refl assms(6)]
  let ?t = "foldl (async_schedule N) s es"
  have "steps_to_write (fitting N (accepted s)) ?t = 0"
    using r steps_to_write_le [of "fitting N (accepted s)" s] assms(7) by linarith
  moreover have "to_write (pc ?t) \<noteq> 0"
    using r by (cases "pc ?t") (simp_all add: running_def)
  ultimately show ?thesis by (simp add: steps_to_write_def split: if_splits)
qed

definition busy_schedule :: "async_event list" where
  "busy_schedule = [Consume, Log ''f'', Consume, Consume, Log ''g'', Consume, Consume]"

lemma async_writes_in_time_witness:
  "prefix ''abcde'' (concat (dest (cons (foldl (async_schedule 4) async_example busy_schedule))))"
proof -
  have "list_all (\<lambda>e. e \<noteq> Stop_logging) busy_schedule" "5 \<le> count_list busy_schedule Consume"
    by (simp_all add: busy_schedule_def)
  moreover have "\<not> stop (logger async_example)"
    by (simp add: async_example_def async_run_simps)
  moreover have "fitting 4 (accepted async_example) = ''abcde''" "pc async_example = At_loop"
    using async_example_result by (simp_all add: fitting_def)
  ultimately show ?thesis
    using async_writes_in_time [OF async_example_reach, of busy_schedule] by simp
qed

end
