(* ===== verification/Async_Manager.thy ===== *)
theory Async_Manager
  imports Async_Log
begin

text \<open>
  \<open>AsyncLoggingManager\<close> of base/async_logging.h: one asynchronous logger for each log file.
\<close>

section \<open>The manager of the loggers\<close>

text \<open>
  One logger for each log file, made when the first message for it arrives. The content of the
  memory of a new logger is the parameter \<open>garbage\<close>.
\<close>

record AsyncLoggingManager =
  m_basename :: string
  m_bin_name :: string
  m_roll_size :: int
  async_loggings :: "AsyncLogging option list"

text \<open>The constructor also sets \<open>g_async\<close>, which the log messages read.\<close>

definition AsyncLoggingManager_new :: "string \<Rightarrow> string \<Rightarrow> int \<Rightarrow> AsyncLoggingManager \<times> bool" where
  "AsyncLoggingManager_new base bin roll =
     (\<lparr>m_basename = base, m_bin_name = bin, m_roll_size = roll,
       async_loggings = replicate LOG_FILE_SEVERITIES None\<rparr>, True)"

definition manager_slot ::
  "nat \<Rightarrow> (nat \<Rightarrow> char) \<Rightarrow> string \<Rightarrow> AsyncLoggingManager \<Rightarrow> nat \<Rightarrow> AsyncLoggingManager cxx" where
  "manager_slot N garbage msg m i =
     (let a = (case async_loggings m ! i of
          None \<Rightarrow> Async_Start (AsyncLogging_new N garbage (m_basename m) (m_bin_name m) (m_roll_size m)
                    (GetLogSeverityType (g_log_file_severity_names ! i)))
        | Some a \<Rightarrow> a)
      in cxx_bind (Async_Append N msg a) (\<lambda>a'.
           Inr (m\<lparr>async_loggings := (async_loggings m)[i := Some a']\<rparr>)))"

fun manager_loop ::
  "nat \<Rightarrow> (nat \<Rightarrow> char) \<Rightarrow> string \<Rightarrow> nat list \<Rightarrow> AsyncLoggingManager \<Rightarrow> AsyncLoggingManager cxx" where
  "manager_loop N garbage msg [] m = Inr m"
| "manager_loop N garbage msg (i # is) m =
     cxx_bind (manager_slot N garbage msg m i) (manager_loop N garbage msg is)"

definition Manager_Append ::
  "nat \<Rightarrow> (nat \<Rightarrow> char) \<Rightarrow> string \<Rightarrow> LogSeverity \<Rightarrow> AsyncLoggingManager \<Rightarrow> AsyncLoggingManager cxx" where
  "Manager_Append N garbage msg sev m =
     (let log_idx = GetLogFileSeverityIndex sev in
      if log_idx \<le> LOG_FILE_SEVERITIES then manager_loop N garbage msg [0..<Suc log_idx] m
      else Inl Assertion_Failed)"

text \<open>
  The destructor deletes the loggers in order; \<open>exited\<close> tells for each whether its consumer has
  ended when it is joined.
\<close>

fun Manager_destroy :: "bool list \<Rightarrow> AsyncLogging option list \<Rightarrow> unit cxx option" where
  "Manager_destroy (e # es) (Some a # as) = (case Async_destroy e a of
     Some (Inr _) \<Rightarrow> Manager_destroy es as
   | r \<Rightarrow> r)"
| "Manager_destroy (e # es) (None # as) = Manager_destroy es as"
| "Manager_destroy _ _ = Some (Inr ())"

lemma Manager_destroy_ends:
  "list_all (\<lambda>x. case x of None \<Rightarrow> True | Some a \<Rightarrow> stop a \<noteq> thread_joinable a) as \<Longrightarrow>
    Manager_destroy (replicate (length as) True) as = Some (Inr ())"
  by (induction as)
    (auto simp: Async_destroy_def Async_join_def Async_Stop_def split: option.splits)

text \<open>The text that logger \<open>i\<close> currently buffers.\<close>

definition buffered :: "AsyncLoggingManager \<Rightarrow> nat \<Rightarrow> string" where
  "buffered m i = (case async_loggings m ! i of
     None \<Rightarrow> [] | Some a \<Rightarrow> concat (map contents (buffers a)) @
       (case current_buf a of None \<Rightarrow> [] | Some c \<Rightarrow> contents c))"

definition manager_inv :: "nat \<Rightarrow> AsyncLoggingManager \<Rightarrow> bool" where
  "manager_inv N m \<longleftrightarrow> length (async_loggings m) = LOG_FILE_SEVERITIES
     \<and> (\<forall>i a. i < LOG_FILE_SEVERITIES \<longrightarrow> async_loggings m ! i = Some a \<longrightarrow>
          logger_inv N a \<and> severity a = GetLogSeverityType (g_log_file_severity_names ! i))"

lemma Async_Append_severity: "Async_Append N msg a = Inr a' \<Longrightarrow> severity a' = severity a"
  by (auto simp: Async_Append_def Let_def split: option.splits if_splits)

lemma manager_slot_inv:
  assumes N: "0 < N" "N < 2 ^ 64" and inv: "manager_inv N m" and i: "i < LOG_FILE_SEVERITIES"
    and r: "manager_slot N g msg m i = Inr m'"
  shows "manager_inv N m' \<and> (\<forall>k < LOG_FILE_SEVERITIES. buffered m' k = buffered m k @
    (if k = i \<and> length msg < N then msg else []))"
proof -
  define a where "a = (case async_loggings m ! i of
      None \<Rightarrow> Async_Start (AsyncLogging_new N g (m_basename m) (m_bin_name m) (m_roll_size m)
                (GetLogSeverityType (g_log_file_severity_names ! i)))
    | Some a \<Rightarrow> a)"
  from r obtain a' where a': "Async_Append N msg a = Inr a'"
      "m' = m\<lparr>async_loggings := (async_loggings m)[i := Some a']\<rparr>"
    by (auto simp: manager_slot_def Let_def cxx_bind_eq_Inr a_def)
  have "logger_inv N a \<and> severity a = GetLogSeverityType (g_log_file_severity_names ! i)
      \<and> buffered m i = concat (map contents (buffers a)) @
          (case current_buf a of None \<Rightarrow> [] | Some c \<Rightarrow> contents c)"
    using inv i N
    by (cases "async_loggings m ! i")
      (auto simp: a_def manager_inv_def buffered_def Async_Start_def AsyncLogging_new_def
        logger_inv_def SetZero_def DataBuffer_new_def)
  with Async_Append_inv [OF N(2) _ a'(1)] Async_Append_severity [OF a'(1)] inv i a'(2) show ?thesis
    by (auto simp: manager_inv_def buffered_def nth_list_update)
qed

lemma manager_loop_inv:
  assumes N: "0 < N" "N < 2 ^ 64" and "manager_inv N m" "set is \<subseteq> {..<LOG_FILE_SEVERITIES}" "distinct is"
    and "manager_loop N g msg is m = Inr m'"
  shows "manager_inv N m' \<and> (\<forall>k < LOG_FILE_SEVERITIES. buffered m' k = buffered m k @
    (if k \<in> set is \<and> length msg < N then msg else []))"
  using assms(3-)
proof (induction "is" arbitrary: m)
  case (Cons i "is")
  from Cons.prems obtain m1 where m1: "manager_slot N g msg m i = Inr m1"
      "manager_loop N g msg is m1 = Inr m'"
    by (auto simp: cxx_bind_eq_Inr)
  from manager_slot_inv [OF N Cons.prems(1) _ m1(1)] Cons.prems(2)
  have s: "manager_inv N m1" "\<forall>k < LOG_FILE_SEVERITIES. buffered m1 k = buffered m k @
      (if k = i \<and> length msg < N then msg else [])" by auto
  with Cons.IH [OF s(1) _ _ m1(2)] Cons.prems(2,3) show ?case by auto
qed simp

lemma Manager_buffers:
  assumes "0 < N" "N < 2 ^ 64" "manager_inv N m" and "Manager_Append N g msg sev m = Inr m'"
    and "k < LOG_FILE_SEVERITIES"
  shows "manager_inv N m' \<and> buffered m' k =
    buffered m k @ (if k \<le> GetLogFileSeverityIndex sev \<and> length msg < N then msg else [])"
proof -
  have "set [0..<Suc (GetLogFileSeverityIndex sev)] \<subseteq> {..<LOG_FILE_SEVERITIES}"
    using severity_index_less [of sev] by auto
  with manager_loop_inv [OF assms(1-3), of "[0..<Suc (GetLogFileSeverityIndex sev)]" g msg m'] assms(4,5)
    severity_index_less [of sev]
  show ?thesis by (auto simp: Manager_Append_def Let_def)
qed

text \<open>
  A message handed to the manager is buffered, once, by the logger of its severity class and by
  those of the lower classes, and by no other; one that fills a whole buffer is dropped.
\<close>

lemma Manager_Append_routes:
  assumes "0 < N" "N < 2 ^ 64" "manager_inv N m" and "Manager_Append N g msg sev m = Inr m'"
    and "k < LOG_FILE_SEVERITIES"
  shows "manager_inv N m' \<and> buffered m' k =
    buffered m k @ (if k \<le> GetLogFileSeverityIndex sev \<and> length msg < N then msg else [])"
  by (rule Manager_buffers [OF assms])

lemma Manager_Append_routes_witness:
  "let m = fst (AsyncLoggingManager_new ''log'' ''prog'' 1024) in
   \<exists>m'. Manager_Append 8 (\<lambda>_. NUL) ''hello'' WARN m = Inr m'
     \<and> buffered m' 0 = ''hello'' \<and> buffered m' 1 = ''hello'' \<and> buffered m' 2 = ''''"
proof -
  define m where "m = fst (AsyncLoggingManager_new ''log'' ''prog'' 1024)"
  have m: "manager_inv 8 m" "buffered m k = []" if "k < 3" for k
    using that
    by (auto simp: m_def AsyncLoggingManager_new_def manager_inv_def buffered_def LOG_FILE_SEVERITIES_def)
  have "\<not> is_error (Manager_Append 8 (\<lambda>_. NUL) ''hello'' WARN m)"
    by (simp add: m_def AsyncLoggingManager_new_def Manager_Append_def LOG_FILE_SEVERITIES_def upt_rec
        manager_slot_def async_run_simps Async_Start_def numeral_3_eq_3)
  then obtain m' where r: "Manager_Append 8 (\<lambda>_. NUL) ''hello'' WARN m = Inr m'"
    by (cases "Manager_Append 8 (\<lambda>_. NUL) ''hello'' WARN m") auto
  show ?thesis
    unfolding Let_def m_def [symmetric]
    using Manager_Append_routes [OF _ _ m(1) r, of 0 0] Manager_Append_routes [OF _ _ m(1) r, of 0 1]
      Manager_Append_routes [OF _ _ m(1) r, of 0 2] r m(2)
    by (simp add: LOG_FILE_SEVERITIES_def)
qed

end
