(* ===== verification/Async_Pipeline.thy ===== *)
theory Async_Pipeline
  imports Async_Manager "HOL-Library.Multiset"
begin

text \<open>
  The manager with its loggers as one system of threads (base/async_logging.h): any number of threads are
  in \<open>AsyncLoggingManager::Append\<close>, which takes no lock; each makes the loggers it needs and appends to one
  after the other, while the constructors and consumers of the loggers run. What can go wrong in a step
  ends the system.
\<close>

section \<open>The system\<close>

text \<open>
  \<open>calls\<close>: for each thread the message it is appending, its \<open>log_idx\<close>, and the \<open>i\<close> it has come to.
  \<open>handed\<close>: the messages that were handed to the manager, with their \<open>log_idx\<close>, in order.
  \<open>overlapped\<close>: some call has begun while another one was not finished.
\<close>

type_synonym append_call = "string \<times> nat \<times> nat"

record pipeline =
  loggers :: "async_system option list"
  calls :: "append_call option list"
  handed :: "(string \<times> nat) list"
  overlapped :: bool
  crash :: "(culprit \<times> cxx_error) option"

definition pipeline_init :: "nat \<Rightarrow> pipeline" where
  "pipeline_init n = \<lparr>loggers = replicate LOG_FILE_SEVERITIES None, calls = replicate n None,
     handed = [], overlapped = False, crash = None\<rparr>"

definition new_logger ::
  "nat \<Rightarrow> (nat \<Rightarrow> char) \<Rightarrow> bool \<Rightarrow> string \<Rightarrow> string \<Rightarrow> string \<Rightarrow> int \<Rightarrow> nat \<Rightarrow> async_system" where
  "new_logger N garbage stop0 junk base bin roll i =
     async_init N garbage stop0 junk base bin roll (GetLogSeverityType (g_log_file_severity_names ! i))"

definition calling :: "append_call option \<Rightarrow> bool" where
  "calling c \<longleftrightarrow> c \<noteq> None"

definition idle :: "pipeline \<Rightarrow> bool" where
  "idle p \<longleftrightarrow> list_all (\<lambda>c. \<not> calling c) (calls p)"

definition enter_call :: "nat \<Rightarrow> string \<Rightarrow> nat \<Rightarrow> pipeline \<Rightarrow> pipeline" where
  "enter_call t msg log_idx p =
     p\<lparr>calls := (calls p)[t := Some (msg, log_idx, 0)], handed := handed p @ [(msg, log_idx)],
       overlapped := overlapped p \<or> \<not> idle p\<rparr>"

definition next_call :: "append_call \<Rightarrow> append_call option" where
  "next_call = (\<lambda>(msg, log_idx, i). if i < log_idx then Some (msg, log_idx, Suc i) else None)"

text \<open>
  Two threads are at logger \<open>i\<close>, and it is not there yet or still being made: one may read the
  pointer while the other one writes it.
\<close>

definition calls_at :: "pipeline \<Rightarrow> nat \<Rightarrow> append_call option list" where
  "calls_at p i = filter (\<lambda>c. case c of None \<Rightarrow> False | Some (msg, x, j) \<Rightarrow> j = i) (calls p)"

definition creation_race :: "pipeline \<Rightarrow> nat \<Rightarrow> bool" where
  "creation_race p i \<longleftrightarrow> 2 \<le> length (calls_at p i)
     \<and> (case loggers p ! i of None \<Rightarrow> True | Some s \<Rightarrow> built s < 3)"

text \<open>
  How a step of the system can fail: in a thread that appends, or in the constructor or the
  consumer of a logger.
\<close>

inductive pipeline_failure :: "nat \<Rightarrow> pipeline \<Rightarrow> culprit \<Rightarrow> cxx_error \<Rightarrow> bool" for N where
  creation: "i < length (loggers p) \<Longrightarrow> creation_race p i \<Longrightarrow> pipeline_failure N p Client Undefined_Behaviour"
| append_fails: "t < length (calls p) \<Longrightarrow> calls p ! t = Some (msg, log_idx, i) \<Longrightarrow> loggers p ! i = Some s \<Longrightarrow>
    pc s \<noteq> Aborted \<Longrightarrow> built s = 3 \<Longrightarrow> Async_Append N msg (logger s) = Inl e \<Longrightarrow> pipeline_failure N p Client e"
| own_failure: "k < length (loggers p) \<Longrightarrow> loggers p ! k = Some s \<Longrightarrow> async_failure N s who e \<Longrightarrow>
    who \<noteq> Client \<Longrightarrow> pipeline_failure N p who e"

inductive_simps pipeline_failure_iff: "pipeline_failure N p who e"

text \<open>
  The steps: a thread enters \<open>Append\<close>; it makes a missing logger; it appends to a logger and goes on
  to the next one or leaves; any logger takes a step of its own, that is, any step but an
  \<open>Append\<close> (so also the rest of its constructor, \<open>Start\<close>, and steps that this manager does not make); or
  something fails, and that is the end.
\<close>

inductive pipeline_step ::
  "nat \<Rightarrow> string \<Rightarrow> string \<Rightarrow> int \<Rightarrow> pipeline \<Rightarrow> pipeline \<Rightarrow> bool" for N base bin roll where
  enter: "crash p = None \<Longrightarrow> t < length (calls p) \<Longrightarrow> calls p ! t = None \<Longrightarrow> log_idx < LOG_FILE_SEVERITIES \<Longrightarrow>
    pipeline_step N base bin roll p (enter_call t msg log_idx p)"
| create: "crash p = None \<Longrightarrow> t < length (calls p) \<Longrightarrow> calls p ! t = Some (msg, log_idx, i) \<Longrightarrow>
    loggers p ! i = None \<Longrightarrow> \<not> creation_race p i \<Longrightarrow>
    pipeline_step N base bin roll p
      (p\<lparr>loggers := (loggers p)[i := Some (new_logger N garbage stop0 junk base bin roll i)]\<rparr>)"
| append: "crash p = None \<Longrightarrow> t < length (calls p) \<Longrightarrow> calls p ! t = Some (msg, log_idx, i) \<Longrightarrow>
    loggers p ! i = Some s \<Longrightarrow> pc s \<noteq> Aborted \<Longrightarrow> built s = 3 \<Longrightarrow> Async_Append N msg (logger s) = Inr a \<Longrightarrow>
    pipeline_step N base bin roll p
      (p\<lparr>loggers := (loggers p)[i := Some (s\<lparr>logger := a, accepted := accepted s @ [msg]\<rparr>)],
         calls := (calls p)[t := next_call (msg, log_idx, i)]\<rparr>)"
| own_step: "crash p = None \<Longrightarrow> k < length (loggers p) \<Longrightarrow> loggers p ! k = Some s \<Longrightarrow>
    async_step N s s' \<Longrightarrow> accepted s' = accepted s \<Longrightarrow>
    pipeline_step N base bin roll p (p\<lparr>loggers := (loggers p)[k := Some s']\<rparr>)"
| fails: "crash p = None \<Longrightarrow> pipeline_failure N p who e \<Longrightarrow>
    pipeline_step N base bin roll p (p\<lparr>crash := Some (who, e)\<rparr>)"

section \<open>The invariant\<close>

text \<open>The messages for logger \<open>k\<close>, those that it has accepted, and those on their way to it.\<close>

definition for_logger :: "nat \<Rightarrow> (string \<times> nat) list \<Rightarrow> string list" where
  "for_logger k ms = map fst (filter (\<lambda>m. k \<le> snd m) ms)"

definition accepted_by :: "pipeline \<Rightarrow> nat \<Rightarrow> string list" where
  "accepted_by p k = (case loggers p ! k of None \<Rightarrow> [] | Some s \<Rightarrow> accepted s)"

definition pending_call :: "nat \<Rightarrow> append_call option \<Rightarrow> string list" where
  "pending_call k c = (case c of None \<Rightarrow> []
     | Some (msg, log_idx, i) \<Rightarrow> if i \<le> k \<and> k \<le> log_idx then [msg] else [])"

definition pending :: "pipeline \<Rightarrow> nat \<Rightarrow> string list" where
  "pending p k = concat (map (pending_call k) (calls p))"

definition logger_of :: "nat \<Rightarrow> string \<Rightarrow> string \<Rightarrow> int \<Rightarrow> nat \<Rightarrow> async_system \<Rightarrow> bool" where
  "logger_of N base bin roll k s \<longleftrightarrow>
     (\<exists>g b j. reach (\<lambda>s. s = new_logger N g b j base bin roll k) (async_step N) s)"

definition call_ok :: "append_call option \<Rightarrow> bool" where
  "call_ok c \<longleftrightarrow> (case c of None \<Rightarrow> True
     | Some (msg, log_idx, i) \<Rightarrow> i \<le> log_idx \<and> log_idx < LOG_FILE_SEVERITIES)"

text \<open>Calls that have not overlapped: there is at most one, and the messages keep their order.\<close>

definition one_by_one :: "pipeline \<Rightarrow> bool" where
  "one_by_one p \<longleftrightarrow> length (filter calling (calls p)) \<le> 1
     \<and> (\<forall>k < LOG_FILE_SEVERITIES. accepted_by p k @ pending p k = for_logger k (handed p))
     \<and> (\<forall>msg log_idx i. Some (msg, log_idx, i) \<in> set (calls p) \<longrightarrow>
          handed p \<noteq> [] \<and> last (handed p) = (msg, log_idx))"

definition pipeline_inv :: "nat \<Rightarrow> string \<Rightarrow> string \<Rightarrow> int \<Rightarrow> pipeline \<Rightarrow> bool" where
  "pipeline_inv N base bin roll p \<longleftrightarrow> length (loggers p) = LOG_FILE_SEVERITIES
     \<and> (\<forall>c \<in> set (calls p). call_ok c)
     \<and> (\<forall>k < LOG_FILE_SEVERITIES. \<forall>s. loggers p ! k = Some s \<longrightarrow> logger_of N base bin roll k s)
     \<and> (\<forall>k < LOG_FILE_SEVERITIES. mset (accepted_by p k) + mset (pending p k) = mset (for_logger k (handed p)))
     \<and> (overlapped p \<or> one_by_one p)"

lemma for_logger_snoc [simp]:
  "for_logger k (ms @ [(msg, x)]) = for_logger k ms @ (if k \<le> x then [msg] else [])"
  by (simp add: for_logger_def)

lemma for_logger_Nil [simp]: "for_logger k [] = []"
  by (simp add: for_logger_def)

lemma pending_call_simps [simp]:
  "pending_call k None = []"
  "pending_call k (Some (msg, x, i)) = (if i \<le> k \<and> k \<le> x then [msg] else [])"
  by (simp_all add: pending_call_def)

lemma pending_next: "i \<le> x \<Longrightarrow>
  pending_call k (Some (msg, x, i)) = (if k = i then [msg] else []) @ pending_call k (next_call (msg, x, i))"
  by (auto simp: next_call_def)

lemma calling_simps [simp]: "\<not> calling None" "calling (Some c)"
  by (simp_all add: calling_def)

lemma split_at: "t < length cs \<Longrightarrow> cs = take t cs @ cs ! t # drop (Suc t) cs"
  by (rule id_take_nth_drop)

lemma pending_update:
  assumes "t < length (calls p)" "calls p' = (calls p)[t := c]"
  shows "mset (pending p' k) + mset (pending_call k (calls p ! t)) = mset (pending p k) + mset (pending_call k c)"
proof -
  have "calls p' = take t (calls p) @ c # drop (Suc t) (calls p)"
    using assms by (simp add: upd_conv_take_nth_drop)
  moreover have "pending p k = concat (map (pending_call k) (take t (calls p) @ calls p ! t # drop (Suc t) (calls p)))"
    unfolding pending_def using split_at [OF assms(1)] by simp
  ultimately show ?thesis by (simp add: pending_def del: append_take_drop_id)
qed

text \<open>If there is no other call, what is on its way is that of the one call.\<close>

lemma no_call_pending: "filter calling cs = [] \<Longrightarrow> concat (map (pending_call k) cs) = []"
proof (induction cs)
  case (Cons c cs)
  then show ?case by (cases c) simp_all
qed simp

lemma alone_update:
  assumes "t < length (calls p)" "calls p' = (calls p)[t := c]"
    and "filter calling (take t (calls p) @ drop (Suc t) (calls p)) = []"
  shows "pending p' k = pending_call k c" "length (filter calling (calls p')) \<le> 1"
proof -
  have e: "calls p' = take t (calls p) @ c # drop (Suc t) (calls p)"
    using assms(1,2) by (simp add: upd_conv_take_nth_drop)
  show "pending p' k = pending_call k c"
    using assms(3) no_call_pending [of "take t (calls p)" k] no_call_pending [of "drop (Suc t) (calls p)" k]
    unfolding pending_def e by (simp del: concat_eq_Nil_conv)
  show "length (filter calling (calls p')) \<le> 1" using assms(3) unfolding e by simp
qed

lemma alone:
  assumes "length (filter calling cs) \<le> 1" "t < length cs" "calling (cs ! t)"
  shows "filter calling (take t cs @ drop (Suc t) cs) = []"
proof -
  have "length (filter calling (take t cs @ cs ! t # drop (Suc t) cs)) \<le> 1"
    using assms(1) split_at [OF assms(2)] by simp
  with assms(3) show ?thesis by (auto simp del: append_take_drop_id)
qed

lemma length_calls_at:
  "length (filter (\<lambda>c. case c of None \<Rightarrow> False | Some (msg, x, j) \<Rightarrow> j = i) cs) \<le> length (filter calling cs)"
proof (induction cs)
  case (Cons c cs)
  then show ?case by (cases c) auto
qed simp

lemma length_pending: "length (concat (map (pending_call k) cs)) \<le> length (filter calling cs)"
proof (induction cs)
  case (Cons c cs)
  then show ?case by (cases c) auto
qed simp

lemma idle_iff: "idle p \<longleftrightarrow> filter calling (calls p) = []"
  by (auto simp: idle_def list_all_iff filter_empty_conv)

lemma pipeline_invD:
  assumes "pipeline_inv N base bin roll p"
  shows "k < LOG_FILE_SEVERITIES \<Longrightarrow> loggers p ! k = Some s \<Longrightarrow> logger_of N base bin roll k s"
    and "t < length (calls p) \<Longrightarrow> calls p ! t = Some (msg, log_idx, i) \<Longrightarrow> i \<le> log_idx \<and> log_idx < LOG_FILE_SEVERITIES"
    and "length (loggers p) = LOG_FILE_SEVERITIES"
    and "k < LOG_FILE_SEVERITIES \<Longrightarrow> mset (accepted_by p k) + mset (pending p k) = mset (for_logger k (handed p))"
    and "\<not> overlapped p \<Longrightarrow> one_by_one p"
    and "\<forall>c \<in> set (calls p). call_ok c"
  using assms by (auto simp: pipeline_inv_def) (fastforce simp: call_ok_def dest: nth_mem)+

lemma creation_race_overlapped:
  assumes "pipeline_inv N base bin roll p" "creation_race p i"
  shows "overlapped p"
proof (rule ccontr)
  assume "\<not> overlapped p"
  then have "length (filter calling (calls p)) \<le> 1"
    using pipeline_invD(5) [OF assms(1)] by (simp add: one_by_one_def)
  moreover have "length (calls_at p i) \<le> length (filter calling (calls p))"
    unfolding calls_at_def by (rule length_calls_at)
  ultimately show False using assms(2) by (simp add: creation_race_def)
qed

lemma logger_of_step:
  "logger_of N base bin roll k s \<Longrightarrow> async_step N s s' \<Longrightarrow> logger_of N base bin roll k s'"
  unfolding logger_of_def by (blast intro: reach_step)

text \<open>A step that changes one logger and none of its messages.\<close>

lemma pipeline_inv_logger:
  assumes inv: "pipeline_inv N base bin roll p" and i: "i < LOG_FILE_SEVERITIES"
    and s: "logger_of N base bin roll i s" "accepted s = accepted_by p i"
  shows "pipeline_inv N base bin roll (p\<lparr>loggers := (loggers p)[i := Some s]\<rparr>)"
proof -
  let ?p = "p\<lparr>loggers := (loggers p)[i := Some s]\<rparr>"
  have a: "accepted_by ?p k = accepted_by p k" if "k < LOG_FILE_SEVERITIES" for k
    using that i s(2) pipeline_invD(3) [OF inv] by (simp add: accepted_by_def nth_list_update)
  have "pending ?p k = pending p k" for k by (simp add: pending_def)
  then have "overlapped p \<or> one_by_one ?p"
    using pipeline_invD(5) [OF inv] a by (auto simp: one_by_one_def)
  with inv i s a show ?thesis
    by (auto simp: pipeline_inv_def nth_list_update pending_def)
qed

lemma pipeline_inv_enter:
  assumes inv: "pipeline_inv N base bin roll p" and t: "t < length (calls p)" "calls p ! t = None"
    and x: "log_idx < LOG_FILE_SEVERITIES"
  shows "pipeline_inv N base bin roll (enter_call t msg log_idx p)"
proof -
  let ?p = "enter_call t msg log_idx p"
  have c: "calls ?p = (calls p)[t := Some (msg, log_idx, 0)]" by (simp add: enter_call_def)
  have l: "loggers ?p = loggers p" by (simp add: enter_call_def)
  have a: "accepted_by ?p k = accepted_by p k" for k by (simp add: accepted_by_def l)
  have m: "mset (accepted_by ?p k) + mset (pending ?p k) = mset (for_logger k (handed ?p))"
    if "k < LOG_FILE_SEVERITIES" for k
    using pipeline_invD(4) [OF inv that] pending_update [OF t(1) c, of k] t(2) a [of k]
    by (simp add: enter_call_def flip: add.assoc)
  have "one_by_one ?p" if "\<not> overlapped ?p"
  proof -
    have o: "one_by_one p" "filter calling (calls p) = []"
      using that pipeline_invD(5) [OF inv] by (simp_all add: enter_call_def idle_iff)
    then have "filter calling (take t (calls p) @ drop (Suc t) (calls p)) = []"
      using set_take_subset [of t "calls p"] set_drop_subset [of "Suc t" "calls p"]
      by (auto simp: filter_empty_conv)
    note u = alone_update [OF t(1) c this]
    have "pending p k = []" for k using no_call_pending [OF o(2)] by (simp add: pending_def)
    moreover have "handed ?p \<noteq> [] \<and> last (handed ?p) = (m, x)" if "Some (m, x, i) \<in> set (calls ?p)" for m x i
      using that o(2) by (auto simp: c enter_call_def filter_empty_conv dest!: set_update_subset_insert [THEN subsetD])
    moreover have "handed ?p = handed p @ [(msg, log_idx)]" by (simp add: enter_call_def)
    ultimately show ?thesis using u o(1) a by (auto simp: one_by_one_def)
  qed
  moreover have "\<forall>c \<in> set (calls ?p). call_ok c"
    using pipeline_invD(6) [OF inv] x set_update_subset_insert [of "calls p" t "Some (msg, log_idx, 0)"]
    by (auto simp: c call_ok_def)
  ultimately show ?thesis
    using inv m unfolding pipeline_inv_def l by auto
qed

lemma pipeline_inv_append:
  assumes inv: "pipeline_inv N base bin roll p"
    and t: "t < length (calls p)" "calls p ! t = Some (msg, log_idx, i)"
    and s: "loggers p ! i = Some s" "logger_of N base bin roll i s'" "accepted s' = accepted s @ [msg]"
  shows "pipeline_inv N base bin roll
    (p\<lparr>loggers := (loggers p)[i := Some s'], calls := (calls p)[t := next_call (msg, log_idx, i)]\<rparr>)"
proof -
  define p' where "p' = p\<lparr>loggers := (loggers p)[i := Some s'], calls := (calls p)[t := next_call (msg, log_idx, i)]\<rparr>"
  have p': "loggers p' = (loggers p)[i := Some s']" "calls p' = (calls p)[t := next_call (msg, log_idx, i)]"
    "handed p' = handed p" "overlapped p' = overlapped p" by (simp_all add: p'_def)
  note i = pipeline_invD(2) [OF inv t] and len = pipeline_invD(3) [OF inv]
  have a: "accepted_by p' k = accepted_by p k @ (if k = i then [msg] else [])" if "k < LOG_FILE_SEVERITIES" for k
    using that i len s(1,3) p'(1) by (auto simp: accepted_by_def nth_list_update)
  have e: "pending_call k (calls p ! t) = (if k = i then [msg] else []) @ pending_call k (next_call (msg, log_idx, i))" for k
    unfolding t(2) using i by (intro pending_next) simp
  have m: "mset (accepted_by p' k) + mset (pending p' k) = mset (for_logger k (handed p'))"
    if "k < LOG_FILE_SEVERITIES" for k
  proof -
    have "mset (pending p' k) + mset (if k = i then [msg] else []) = mset (pending p k)"
      using pending_update [OF t(1) p'(2), of k] unfolding e by simp
    with pipeline_invD(4) [OF inv that] a [OF that] show ?thesis by (simp add: p'(3) ac_simps)
  qed
  have "one_by_one p'" if "\<not> overlapped p'"
  proof -
    have o: "one_by_one p" using that pipeline_invD(5) [OF inv] p'(4) by simp
    then have f: "filter calling (take t (calls p) @ drop (Suc t) (calls p)) = []"
      using t by (intro alone) (auto simp: one_by_one_def)
    have "calls p = (calls p)[t := calls p ! t]" by simp
    note old = alone_update(1) [OF t(1) this f] and new = alone_update [OF t(1) p'(2) f]
    have "handed p \<noteq> [] \<and> last (handed p) = (m, x)" if "Some (m, x, j) \<in> set (calls p')" for m x j
    proof -
      have "Some (m, x, j) = next_call (msg, log_idx, i) \<or> Some (m, x, j) \<in> set (calls p)"
        using that set_update_subset_insert [of "calls p" t "next_call (msg, log_idx, i)"] by (auto simp: p'(2))
      moreover have "Some (msg, log_idx, i) \<in> set (calls p)" using t nth_mem by metis
      ultimately show ?thesis
        using o by (auto simp: one_by_one_def next_call_def split: if_splits)
    qed
    with o new a e show ?thesis by (auto simp: one_by_one_def old p'(3))
  qed
  moreover have "\<forall>c \<in> set (calls p'). call_ok c"
    using pipeline_invD(6) [OF inv] i set_update_subset_insert [of "calls p" t "next_call (msg, log_idx, i)"]
    by (auto simp: p'(2) call_ok_def next_call_def split: if_splits)
  moreover have "logger_of N base bin roll k u" if "k < LOG_FILE_SEVERITIES" "loggers p' ! k = Some u" for k u
    using that pipeline_invD(1) [OF inv] s(2) len by (cases "k = i") (simp_all add: p'(1))
  ultimately show ?thesis
    using len m by (auto simp: pipeline_inv_def p'(1) simp flip: p'_def)
qed

lemma pipeline_inv_step:
  "pipeline_step N base bin roll p p' \<Longrightarrow> pipeline_inv N base bin roll p \<Longrightarrow> pipeline_inv N base bin roll p'"
proof (induction rule: pipeline_step.induct)
  case (enter p t log_idx msg)
  then show ?case by (intro pipeline_inv_enter)
next
  case (create p t msg log_idx i garbage stop0 junk)
  have "i < LOG_FILE_SEVERITIES" using pipeline_invD(2) [OF create(6,2,3)] by linarith
  moreover have "logger_of N base bin roll i (new_logger N garbage stop0 junk base bin roll i)"
    unfolding logger_of_def by (blast intro: reach_init)
  ultimately show ?case
    using create by (intro pipeline_inv_logger) (simp_all add: accepted_by_def new_logger_def async_init_def)
next
  case (append p t msg log_idx i s a)
  have "i < LOG_FILE_SEVERITIES" using pipeline_invD(2) [OF append(8,2,3)] by linarith
  with append have "logger_of N base bin roll i (s\<lparr>logger := a, accepted := accepted s @ [msg]\<rparr>)"
    by (intro logger_of_step [OF _ async_step.append] pipeline_invD(1) [OF append(8)])
  with append show ?case by (intro pipeline_inv_append) simp_all
next
  case (own_step p k s s')
  have k: "k < LOG_FILE_SEVERITIES" using own_step(2) pipeline_invD(3) [OF own_step(6)] by simp
  with own_step logger_of_step [OF pipeline_invD(1) [OF own_step(6) k own_step(3)] own_step(4)] show ?case
    by (intro pipeline_inv_logger) (simp_all add: accepted_by_def)
next
  case (fails p who e)
  then show ?case
    by (simp add: pipeline_inv_def one_by_one_def accepted_by_def pending_def)
qed

interpretation pipeline: inductive_invariant "\<lambda>p. p = pipeline_init n" "pipeline_step N base bin roll"
  "pipeline_inv N base bin roll" for n N base bin roll
proof (unfold_locales, goal_cases)
  case 1
  have "concat (map (pending_call k) (replicate n None)) = []" for k by (induction n) simp_all
  with 1 show ?case
    by (simp add: pipeline_inv_def one_by_one_def pipeline_init_def accepted_by_def pending_def call_ok_def)
next
  case 2
  then show ?case using pipeline_inv_step by blast
qed

lemma pipeline_logger:
  assumes "reach (\<lambda>p. p = pipeline_init n) (pipeline_step N base bin roll) p" "0 < N" "N < 2 ^ 64"
    and "k < LOG_FILE_SEVERITIES" "loggers p ! k = Some s"
  shows "async_inv N s" "\<exists>g b j. reach (\<lambda>s. s = new_logger N g b j base bin roll k) (async_step N) s"
proof -
  have "pipeline_inv N base bin roll p" by (rule pipeline.reachable_inv [OF assms(1)])
  from pipeline_invD(1) [OF this assms(4,5)]
  show r: "\<exists>g b j. reach (\<lambda>s. s = new_logger N g b j base bin roll k) (async_step N) s"
    by (simp add: logger_of_def)
  with async_reachable [OF _ assms(2,3)] show "async_inv N s" unfolding new_logger_def by blast
qed

section \<open>Properties\<close>

text \<open>
  C9. The asynchronous back end loses nothing until something fails: however many threads append, and however
  they, the constructors and the consumers interleave, the messages that a logger has accepted, together
  with those on their way to it, are exactly the messages of its class and the higher ones that
  were handed to the manager, each once; if no two calls have overlapped, they are in the order in which
  they were handed over; and what the logger has written or still buffers is the text of those that
  it has accepted and that are shorter than a buffer, in order.
\<close>

theorem async_pipeline_conserves:
  assumes "reach (\<lambda>p. p = pipeline_init n) (pipeline_step N base bin roll) p" "0 < N" "N < 2 ^ 64"
    and "k < LOG_FILE_SEVERITIES"
  shows "mset (accepted_by p k) + mset (pending p k) = mset (for_logger k (handed p))
    \<and> (\<not> overlapped p \<longrightarrow> accepted_by p k @ pending p k = for_logger k (handed p))
    \<and> (case loggers p ! k of None \<Rightarrow> accepted_by p k = []
       | Some s \<Rightarrow> concat (dest (cons s)) @ in_flight s = fitting N (accepted_by p k))"
proof -
  have inv: "pipeline_inv N base bin roll p" by (rule pipeline.reachable_inv [OF assms(1)])
  have "case loggers p ! k of None \<Rightarrow> accepted_by p k = []
      | Some s \<Rightarrow> concat (dest (cons s)) @ in_flight s = fitting N (accepted_by p k)"
    using pipeline_logger(1) [OF assms] by (auto simp: accepted_by_def async_inv_def split: option.split)
  with pipeline_invD(4) [OF inv assms(4)] pipeline_invD(5) [OF inv] assms(4) show ?thesis
    by (simp add: one_by_one_def)
qed


section \<open>Concrete runs\<close>

text \<open>
  The events of a run: a thread enters \<open>Append\<close> or takes its next step there, or a logger takes one.
\<close>

datatype pipeline_event = Hand nat string nat | Go_on nat | Logger nat async_event

definition is_own :: "async_event \<Rightarrow> bool" where
  "is_own e = (case e of Log msg \<Rightarrow> False | _ \<Rightarrow> True)"

fun pipeline_event_step ::
  "nat \<Rightarrow> (nat \<Rightarrow> char) \<Rightarrow> string \<Rightarrow> string \<Rightarrow> int \<Rightarrow> pipeline \<Rightarrow> pipeline_event \<Rightarrow> pipeline" where
  "pipeline_event_step N g base bin roll p (Hand t msg x) =
     (if t < length (calls p) \<and> calls p ! t = None \<and> x < LOG_FILE_SEVERITIES then enter_call t msg x p else p)"
| "pipeline_event_step N g base bin roll p (Go_on t) = (if t < length (calls p) then case calls p ! t of
     None \<Rightarrow> p
   | Some (msg, x, i) \<Rightarrow> (case loggers p ! i of
       None \<Rightarrow> if creation_race p i then p
         else p\<lparr>loggers := (loggers p)[i := Some (new_logger N g True ''junk'' base bin roll i)]\<rparr>
     | Some s \<Rightarrow> if pc s = Aborted \<or> built s \<noteq> 3 then p else (case Async_Append N msg (logger s) of
         Inl _ \<Rightarrow> p
       | Inr a \<Rightarrow> p\<lparr>loggers := (loggers p)[i := Some (s\<lparr>logger := a, accepted := accepted s @ [msg]\<rparr>)],
             calls := (calls p)[t := next_call (msg, x, i)]\<rparr>)) else p)"
| "pipeline_event_step N g base bin roll p (Logger k e) =
     (if k < length (loggers p) \<and> is_own e then case loggers p ! k of
        None \<Rightarrow> p | Some s \<Rightarrow> p\<lparr>loggers := (loggers p)[k := Some (async_schedule N s e)]\<rparr>
      else p)"

definition pipeline_schedule ::
  "nat \<Rightarrow> (nat \<Rightarrow> char) \<Rightarrow> string \<Rightarrow> string \<Rightarrow> int \<Rightarrow> pipeline \<Rightarrow> pipeline_event \<Rightarrow> pipeline" where
  "pipeline_schedule N g base bin roll p x =
     (if crash p = None then pipeline_event_step N g base bin roll p x else p)"

lemma consume_accepted: "accepted (consume s) = accepted s"
  by (auto simp: consume_def take_buffers_def split: pc.split sum.split)

lemma own_accepted: "is_own e \<Longrightarrow> accepted (async_schedule N s e) = accepted s"
  by (cases e) (auto simp: is_own_def call_logger_def consume_accepted split: option.split sum.split)

lemma pipeline_schedule_step:
  "pipeline_step N base bin roll p (pipeline_schedule N g base bin roll p e) \<or>
    pipeline_schedule N g base bin roll p e = p"
proof (cases "crash p = None")
  case alive: True
  show ?thesis
  proof (cases e)
    case (Hand t msg x)
    with alive show ?thesis by (auto simp: pipeline_schedule_def intro: pipeline_step.enter)
  next
    case (Go_on t)
    with alive show ?thesis
      by (auto simp: pipeline_schedule_def split: option.split sum.split intro: pipeline_step.create pipeline_step.append)
  next
    case (Logger k x)
    show ?thesis
    proof (cases "\<exists>s. k < length (loggers p) \<and> is_own x \<and> loggers p ! k = Some s \<and> async_schedule N s x \<noteq> s")
      case True
      then obtain s where s: "k < length (loggers p)" "is_own x" "loggers p ! k = Some s"
          "async_schedule N s x \<noteq> s" by blast
      with async_schedule_step [of N s x] own_accepted [OF s(2)] Logger alive show ?thesis
        by (auto simp: pipeline_schedule_def intro: pipeline_step.own_step)
    next
      case False
      have "p\<lparr>loggers := (loggers p)[k := Some s]\<rparr> = p" if "loggers p ! k = Some s" for s
        using that list_update_id [of "loggers p" k] by simp
      with False Logger show ?thesis by (auto simp: pipeline_schedule_def split: option.split)
    qed
  qed
qed (auto simp: pipeline_schedule_def)

lemma pipeline_schedule_reach:
  "reach (\<lambda>p. p = pipeline_init n) (pipeline_step N base bin roll)
     (foldl (pipeline_schedule N g base bin roll) (pipeline_init n) es)"
  by (rule reach_foldl) (simp_all add: pipeline_schedule_step reach_init)

lemmas pipeline_run_simps = pipeline_schedule_def pipeline_init_def LOG_FILE_SEVERITIES_def numeral_3_eq_3
  enter_call_def next_call_def idle_def calling_def creation_race_def calls_at_def is_own_def new_logger_def

text \<open>
  Buffers of four characters and two threads: the first message is for two loggers; while it is on
  its way to the second one, another thread appends to the first one, whose consumer writes both out.
\<close>

definition pipeline_example :: pipeline where
  "pipeline_example = foldl (pipeline_schedule 4 (\<lambda>_. NUL) ''log'' ''prog'' 1024) (pipeline_init 2)
     [Hand 0 ''ab'' 1, Go_on 0, Logger 0 Construct, Logger 0 Construct, Logger 0 Construct, Go_on 0,
      Hand 1 ''cd'' 0, Go_on 1, Logger 0 Consume, Logger 0 Consume, Logger 0 Consume, Logger 0 Consume]"

lemma pipeline_example_reach:
  "reach (\<lambda>p. p = pipeline_init 2) (pipeline_step 4 ''log'' ''prog'' 1024) pipeline_example"
  unfolding pipeline_example_def by (rule pipeline_schedule_reach)

lemma pipeline_example_state:
  "handed pipeline_example = [(''ab'', 1), (''cd'', 0)] \<and> overlapped pipeline_example
   \<and> pending pipeline_example 1 = [''ab'']
   \<and> map_option (\<lambda>s. dest (cons s)) (loggers pipeline_example ! 0) = Some [''ab'', ''cd'']"
  by (simp add: pipeline_example_def pipeline_run_simps async_run_simps contents_def upt_rec replicate_2 pending_def)

lemma async_pipeline_conserves_witness:
  "\<exists>s. loggers pipeline_example ! 0 = Some s \<and> dest (cons s) = [''ab'', ''cd'']
     \<and> concat (dest (cons s)) @ in_flight s = fitting 4 (accepted_by pipeline_example 0)
     \<and> accepted_by pipeline_example 1 = []"
proof -
  obtain s where s: "loggers pipeline_example ! 0 = Some s" "dest (cons s) = [''ab'', ''cd'']"
    using pipeline_example_state by auto
  from async_pipeline_conserves [OF pipeline_example_reach, of 0] async_pipeline_conserves [OF pipeline_example_reach, of 1]
    s pipeline_example_state
  show ?thesis by (auto simp: LOG_FILE_SEVERITIES_def for_logger_def)
qed

text \<open>Two threads that append their first messages at the same time.\<close>

definition pipeline_race_example :: pipeline where
  "pipeline_race_example = foldl (pipeline_schedule 4 (\<lambda>_. NUL) ''log'' ''prog'' 1024) (pipeline_init 2)
     [Hand 0 ''ab'' 0, Hand 1 ''cd'' 0]"


end
