(* ===== verification/Log_Pipeline.thy ===== *)
theory Log_Pipeline
  imports Log_Threads Async_Pipeline
begin

text \<open>
  The threads of \<^theory_text>\<open>Log_Threads\<close> with the asynchronous manager as their send method (base/logging.cc
  with base/async_logging.h): the calls that \<open>Flush\<close> makes are the calls of \<open>Append\<close> of
  \<^theory_text>\<open>Async_Pipeline\<close>. The manager has no lock of its own for them; it is shown that the lock of
  \<open>Flush\<close> keeps them apart, but for the warnings that \<open>Flush\<close> sends after it has released it.
\<close>

section \<open>The system\<close>

record async_logging =
  log_side :: log_threads
  pipe :: pipeline

definition async_logging_init :: "nat \<Rightarrow> logging \<Rightarrow> async_logging" where
  "async_logging_init n g = \<lparr>log_side = threads_start n g, pipe = pipeline_init n\<rparr>"

text \<open>Two threads have been in \<open>Append\<close> at the same time.\<close>

definition raced :: "async_logging \<Rightarrow> bool" where
  "raced a \<longleftrightarrow> overlapped (pipe a)"

text \<open>A step of thread \<open>t\<close> leaves the other threads' messages alone.\<close>

definition step_of :: "nat \<Rightarrow> log_threads \<Rightarrow> log_threads \<Rightarrow> bool" where
  "step_of t s s' \<longleftrightarrow> (\<forall>u < length (stacks s). u \<noteq> t \<longrightarrow> stacks s' ! u = stacks s ! u)"

text \<open>
  A thread calls the send method, so it enters \<open>Append\<close>; a thread that is not in \<open>Append\<close> takes another
  step; the manager, the loggers and their consumers take steps. The end of the program on
  either side ends all of it.
\<close>

inductive async_logging_step ::
  "nat \<Rightarrow> string \<Rightarrow> string \<Rightarrow> int \<Rightarrow> async_logging \<Rightarrow> async_logging \<Rightarrow> bool" for N base bin roll where
  call: "crash (pipe a) = None \<Longrightarrow> t < length (calls (pipe a)) \<Longrightarrow> calls (pipe a) ! t = None \<Longrightarrow>
    log_step (log_side a) s \<Longrightarrow> step_of t (log_side a) s \<Longrightarrow>
    sent (shared s) = sent (shared (log_side a)) @ [(f, msg, sev)] \<Longrightarrow>
    async_logging_step N base bin roll a
      (a\<lparr>log_side := s, pipe := enter_call t msg (GetLogFileSeverityIndex sev) (pipe a)\<rparr>)"
| other: "crash (pipe a) = None \<Longrightarrow> t < length (calls (pipe a)) \<Longrightarrow> calls (pipe a) ! t = None \<Longrightarrow>
    log_step (log_side a) s \<Longrightarrow> step_of t (log_side a) s \<Longrightarrow>
    sent (shared s) = sent (shared (log_side a)) \<Longrightarrow>
    async_logging_step N base bin roll a (a\<lparr>log_side := s\<rparr>)"
| manager: "fault (log_side a) = None \<Longrightarrow> pipeline_step N base bin roll (pipe a) p \<Longrightarrow>
    handed p = handed (pipe a) \<Longrightarrow> async_logging_step N base bin roll a (a\<lparr>pipe := p\<rparr>)"

section \<open>The lock keeps the calls apart\<close>

text \<open>Messages that get no warning.\<close>

definition no_warning :: "statement \<Rightarrow> bool" where
  "no_warning x \<longleftrightarrow> length (statement_output x) \<le> kMaxLogMessageLen - 10"

definition handed_over :: "(nat \<times> frame) option \<Rightarrow> statement list \<Rightarrow> statement list" where
  "handed_over h xs = (case h of
     Some (t, fr) \<Rightarrow> if phase fr = Sending then butlast xs else xs | None \<Rightarrow> xs)"

definition frame_ok :: "frame \<Rightarrow> bool" where
  "frame_ok fr \<longleftrightarrow> lmsg fr = statement_lmsg (stmt fr) \<and> phase fr \<noteq> Warning \<and> phase fr \<noteq> Warned"

definition sender_ok :: "(nat \<times> frame) option \<Rightarrow> statement list \<Rightarrow> bool" where
  "sender_ok h xs = (case h of None \<Rightarrow> True | Some (t, fr) \<Rightarrow>
     phase fr \<in> {Sending, In_send, Leaving} \<and> xs \<noteq> [] \<and> last xs = stmt fr)"

definition threads_async :: "(nat \<times> frame) option \<Rightarrow> log_threads \<Rightarrow> bool" where
  "threads_async h s \<longleftrightarrow> date_alive (shared s) \<and> g_async (shared s)
     \<and> (\<forall>st \<in> set (stacks s). \<forall>fr \<in> set st. frame_ok fr)
     \<and> holds_lock s h \<and> sender_ok h (committed s)"

text \<open>What a step of the threads does to the calls, as long as no message is nearly too long.\<close>

lemma threads_async_stack:
  assumes "threads_async h s" "t < length (stacks s)" "\<forall>fr \<in> set st. frame_ok fr"
    and "filter in_section st = filter in_section (stacks s ! t)"
  shows "threads_async h (set_stack t st s)"
  using assms holds_lock_same [of s h t st]
  by (auto simp: threads_async_def dest!: set_update_subset_insert [THEN subsetD])

lemma threads_asyncD:
  assumes "threads_async h s" "t < length (stacks s)" "stacks s ! t = fr # rest"
  shows "frame_ok fr" "\<forall>x \<in> set rest. frame_ok x"
proof -
  have "\<forall>x \<in> set (stacks s ! t). frame_ok x"
    using assms(1,2) nth_mem unfolding threads_async_def by blast
  with assms(3) show "frame_ok fr" "\<forall>x \<in> set rest. frame_ok x" by simp_all
qed

text \<open>The thread that is in the send method under the lock.\<close>

definition in_append :: "(nat \<times> frame) option \<Rightarrow> nat option" where
  "in_append h = (case h of Some (t, fr) \<Rightarrow> if phase fr = In_send then Some t else None | None \<Rightarrow> None)"

text \<open>The lock is taken, the thread that has it goes on, and it leaves.\<close>

lemma threads_async_take:
  assumes "threads_async h s" "t < length (stacks s)" "stacks s ! t = fr # rest" "lock_owner s = None"
  shows "threads_async (Some (t, fr\<lparr>phase := Sending\<rparr>)) (set_stack t (fr\<lparr>phase := Sending\<rparr> # rest)
    (s\<lparr>lock_owner := Some t, committed := committed s @ [stmt fr]\<rparr>))" and "h = None"
proof -
  let ?s = "s\<lparr>lock_owner := Some t, committed := committed s @ [stmt fr]\<rparr>" and ?fr = "fr\<lparr>phase := Sending\<rparr>"
  have h: "holds_lock s h" using assms(1) by (simp add: threads_async_def)
  with assms(4) show n: "h = None" by (cases h) (auto simp: holds_lock_def)
  with h assms(2,3) have "filter in_section rest = []" by (auto simp: holds_lock_def split: if_splits)
  then have "holds_lock (set_stack t (?fr # rest) ?s) (Some (t, ?fr))"
    using h n assms(2) by (intro holds_lock_take) (simp_all add: in_section_def)
  then show "threads_async (Some (t, ?fr)) (set_stack t (?fr # rest) ?s)"
    using assms(1) threads_asyncD [OF assms(1-3)]
    by (auto simp: threads_async_def sender_ok_def frame_ok_def
        dest!: set_update_subset_insert [THEN subsetD])
qed

lemma threads_async_go_on:
  assumes "threads_async (Some (t, fr)) s" "t < length (stacks s)" "stacks s ! t = fr # rest" "in_section fr"
    and "p \<in> {Sending, In_send, Leaving}" "date_alive g" "g_async g"
  shows "threads_async (Some (t, fr\<lparr>phase := p\<rparr>)) (set_stack t (fr\<lparr>phase := p\<rparr> # rest) (s\<lparr>shared := g\<rparr>))"
proof -
  have h: "holds_lock s (Some (t, fr))" using assms(1) by (simp add: threads_async_def)
  have "holds_lock (set_stack t (fr\<lparr>phase := p\<rparr> # rest) (s\<lparr>shared := g\<rparr>)) (Some (t, fr\<lparr>phase := p\<rparr>))"
    using h holds_lock_top(2) [OF h assms(2-4)] assms(5)
    by (intro holds_lock_go_on [of _ t fr]) (auto simp: in_section_def)
  then show ?thesis
    using assms threads_asyncD [OF assms(1-3)]
    by (auto simp: threads_async_def sender_ok_def frame_ok_def dest!: set_update_subset_insert [THEN subsetD])
qed

lemma threads_async_leave:
  assumes "threads_async (Some (t, fr)) s" "t < length (stacks s)" "stacks s ! t = fr # rest" "in_section fr"
  shows "threads_async None (set_stack t rest (s\<lparr>lock_owner := None\<rparr>))"
proof -
  have h: "holds_lock s (Some (t, fr))" using assms(1) by (simp add: threads_async_def)
  have "holds_lock (set_stack t rest (s\<lparr>lock_owner := None\<rparr>)) None"
    using h holds_lock_top(2) [OF h assms(2-4)] by (intro holds_lock_leave [of _ t fr]) simp_all
  then show ?thesis
    using assms(1) threads_asyncD [OF assms(1-3)]
    by (auto simp: threads_async_def sender_ok_def dest!: set_update_subset_insert [THEN subsetD])
qed

lemma frame_sending: "phase (fr\<lparr>phase := p\<rparr>) = p"
  by simp

lemma flush_next_async:
  assumes inv: "threads_async h s" and t: "t < length (stacks s)" "stacks s ! t = fr # rest"
    and r: "flush_next e t fr (phase fr) s = Some r"
    and short: "\<And>s'. r = Inr s' \<Longrightarrow> list_all no_warning (committed s')"
  obtains (quiet) s' h' where "r = Inr s'" "threads_async h' s'" "sent (shared s') = sent (shared s)"
      "handed_over h' (committed s') = handed_over h (committed s)" "in_append h' = in_append h" "fault s' = fault s"
  | (return) s' h' where "r = Inr s'" "threads_async h' s'" "sent (shared s') = sent (shared s)"
      "handed_over h' (committed s') = handed_over h (committed s)" "in_append h' = None"
      "in_append h = Some t" "stacks s' ! t \<noteq> stacks s ! t" "fault s' = fault s"
  | (call) s' h' x where "r = Inr s'" "threads_async h' s'"
      "sent (shared s') = sent (shared s) @ [(sender (shared s), statement_output x, severity_of (statement_lmsg x))]"
      "handed_over h' (committed s') = handed_over h (committed s) @ [x]" "in_append h = None"
      "in_append h' = Some t" "stacks s' ! t \<noteq> stacks s ! t" "fault s' = fault s"
  | (fatal) "r = Inl Terminated" "severity_of (lmsg fr) = FATAL"
proof -
  note fr = threads_asyncD [OF inv t]
  then have l: "lmsg fr = statement_lmsg (stmt fr)" by (simp add: frame_ok_def)
  have h: "holds_lock s h" "sender_ok h (committed s)" using inv by (simp_all add: threads_async_def)
  have top: "h = Some (t, fr)" if "in_section fr" using holds_lock_top(1) [OF h(1) t that] .
  show thesis
  proof (cases "phase fr")
    case Building
    show thesis
    proof (cases "severity_of (lmsg fr) = FATAL \<and> \<not> unwinds_stack e")
      case True
      with r Building show thesis by (intro fatal) simp_all
    next
      case False
      have ta: "threads_async h (set_stack t (fr\<lparr>phase := At_lock\<rparr> # rest) s)"
        using fr Building t by (intro threads_async_stack [OF inv]) (simp_all add: frame_ok_def in_section_def)
      have rr: "r = Inr (set_stack t (fr\<lparr>phase := At_lock\<rparr> # rest) s)"
        using r Building False l statement_lmsg_facts(1) [of "stmt fr"]
        by (auto simp: set_phase_eq [OF t(2)] split: if_splits)
      show thesis by (rule quiet [OF rr ta]) simp_all
    qed
  next
    case At_lock
    let ?s = "s\<lparr>lock_owner := Some t, committed := committed s @ [stmt fr]\<rparr>" and ?fr = "fr\<lparr>phase := Sending\<rparr>"
    have o: "lock_owner s = None" using r At_lock by (auto split: if_splits)
    note ta = threads_async_take [OF inv t o]
    have "locked_phase (shared s) (lmsg fr) = Sending"
      using inv by (simp add: threads_async_def locked_phase_def)
    then have rr: "r = Inr (set_stack t (?fr # rest) ?s)"
      using r At_lock o t(2) set_phase_eq [of ?s t fr rest] by simp
    show thesis
      by (rule quiet [OF rr ta(1)]) (simp_all add: ta(2) handed_over_def in_append_def)
  next
    case (Writing "is")
    then show thesis using top h(2) by (auto simp: in_section_def sender_ok_def)
  next
    case Sending
    let ?x = "stmt fr" and ?fr = "fr\<lparr>phase := In_send\<rparr>"
    let ?g = "send_method (statement_output ?x) (severity_of (statement_lmsg ?x)) (shared s)"
    have sec: "in_section fr" using Sending by (simp add: in_section_def)
    have rr: "r = Inr (set_stack t (?fr # rest) (s\<lparr>shared := ?g\<rparr>))"
      using r Sending t(2) inv set_phase_eq [of "s\<lparr>shared := ?g\<rparr>" t fr rest]
      by (simp add: l statement_lmsg_facts(3) threads_async_def)
    have ta: "threads_async (Some (t, ?fr)) (set_stack t (?fr # rest) (s\<lparr>shared := ?g\<rparr>))"
      using inv top [OF sec] t sec
      by (intro threads_async_go_on) (simp_all add: threads_async_def send_method_def)
    have "committed s \<noteq> []" "last (committed s) = ?x"
      using h(2) top [OF sec] by (simp_all add: sender_ok_def)
    then have "committed s = butlast (committed s) @ [?x]" by (metis append_butlast_last_id)
    moreover have "?fr # rest \<noteq> stacks s ! t" using t(2) Sending by (metis list.inject phase.distinct frame_sending)
    ultimately show thesis
      using top [OF sec] Sending t(1)
      by (intro call [OF rr ta]) (auto simp: handed_over_def in_append_def send_method_def)
  next
    case In_send
    have sec: "in_section fr" using In_send by (simp add: in_section_def)
    let ?st = "fr\<lparr>phase := Leaving\<rparr> # rest"
    have rr: "r = Inr (set_stack t ?st s)" using r In_send by (simp add: set_phase_eq [OF t(2)])
    have ta: "threads_async (Some (t, fr\<lparr>phase := Leaving\<rparr>)) (set_stack t ?st s)"
      using threads_async_go_on [of t fr s rest Leaving "shared s"] inv top [OF sec] t sec
      by (simp add: threads_async_def)
    have "?st \<noteq> stacks s ! t" using t(2) In_send by (metis list.inject phase.distinct frame_sending)
    with top [OF sec] In_send t(1) show thesis
      by (intro return [OF rr ta]) (simp_all add: handed_over_def in_append_def)
  next
    case Leaving
    have sec: "in_section fr" using Leaving by (simp add: in_section_def)
    note top = top [OF sec]
    have c: "committed s \<noteq> []" "last (committed s) = stmt fr"
      using h(2) top by (simp_all add: sender_ok_def)
    have n: "no_warning (stmt fr)"
    proof (rule ccontr)
      assume "\<not> no_warning (stmt fr)"
      moreover from this have "r = Inr (set_phase t Warning (s\<lparr>lock_owner := None\<rparr>))"
        using r Leaving by (simp add: l statement_lmsg_facts(3) no_warning_def)
      then have "list_all no_warning (committed s)"
        using short [of "set_phase t Warning (s\<lparr>lock_owner := None\<rparr>)"] t(2) by (simp add: set_phase_def)
      ultimately show False using c by (metis last_in_set list_all_iff)
    qed
    show thesis
    proof (cases "severity_of (lmsg fr) = FATAL")
      case True
      with n r Leaving show thesis
        by (intro fatal) (simp_all add: l statement_lmsg_facts(3) no_warning_def end_statement_def)
    next
      case False
      with n have rr: "r = Inr (set_stack t rest (s\<lparr>lock_owner := None\<rparr>))"
        using r Leaving t(2) by (simp add: l statement_lmsg_facts(3) no_warning_def end_statement_def)
      have ta: "threads_async None (set_stack t rest (s\<lparr>lock_owner := None\<rparr>))"
        using inv t sec unfolding top by (rule threads_async_leave)
      show thesis
        using top Leaving by (intro quiet [OF rr ta]) (simp_all add: handed_over_def in_append_def)
    qed
  qed (use fr(1) in \<open>simp_all add: frame_ok_def\<close>)
qed

text \<open>The same for all steps of the threads.\<close>

lemma log_step_async:
  assumes "log_step s s'" "threads_async h s" "list_all no_warning (committed s')"
  obtains (quiet) h' where "threads_async h' s'" "sent (shared s') = sent (shared s)"
      "handed_over h' (committed s') = handed_over h (committed s)" "in_append h' = in_append h" "only_fatal s'"
  | (return) h' t where "threads_async h' s'" "sent (shared s') = sent (shared s)"
      "handed_over h' (committed s') = handed_over h (committed s)" "in_append h' = None"
      "in_append h = Some t" "t < length (stacks s)" "stacks s' ! t \<noteq> stacks s ! t" "only_fatal s'"
  | (call) h' x t where "threads_async h' s'"
      "sent (shared s') = sent (shared s) @ [(sender (shared s), statement_output x, severity_of (statement_lmsg x))]"
      "handed_over h' (committed s') = handed_over h (committed s) @ [x]" "in_append h = None"
      "in_append h' = Some t" "t < length (stacks s)" "stacks s' ! t \<noteq> stacks s ! t" "only_fatal s'"
  using assms(1)
proof cases
  case (begin_log t e f line sev m)
  have "threads_async h s'"
    unfolding begin_log(1) using begin_log(3) assms(2) nth_mem
    by (intro threads_async_stack [OF assms(2)])
      (auto simp: frame_ok_def new_statement [OF begin_log(5)] in_section_def threads_async_def)
  with quiet begin_log(2) show thesis by (simp add: begin_log(1) only_fatal_def)
next
  case (begin_fails t e f line sev err)
  with assms(2) show thesis by (simp add: LogMessage_new_def threads_async_def)
next
  case (operand t fr rest x)
  have "threads_async h s'"
    unfolding operand(1) using operand(3-5) threads_asyncD [OF assms(2) operand(3,4)]
    by (intro threads_async_stack [OF assms(2)])
      (auto simp: frame_ok_def stream_put_statement in_section_def)
  with quiet operand(2) show thesis by (simp add: operand(1) only_fatal_def)
next
  case (flush t fr rest e)
  have short: "list_all no_warning (committed u)" if "Inr s' = (Inr u :: log_threads cxx)" for u
    using that assms(3) by simp
  show thesis
    by (rule flush_next_async [OF assms(2) flush(2,3,5) short])
      (use quiet return call flush(1,2) in \<open>auto simp: only_fatal_def\<close>)
next
  case (flush_fails t fr rest e err)
  have short: "list_all no_warning (committed u)" if "Inl err = (Inr u :: log_threads cxx)" for u
    using that by simp
  have ta: "threads_async h s'" using assms(2) by (simp add: flush_fails(1) threads_async_def)
  show thesis
    by (rule flush_next_async [OF assms(2) flush_fails(3,4,6) short])
      (use quiet [OF ta] flush_fails in \<open>auto simp: only_fatal_def fatal_frame_def\<close>)
qed

lemma committed_grows: "log_step s s' \<Longrightarrow> \<exists>xs. committed s' = committed s @ xs"
proof (induction rule: log_step.induct)
  case (flush s t fr rest e s')
  then show ?case
    by (cases "(e, t, fr, phase fr, s)" rule: flush_next.cases)
      (auto simp: end_statement_def set_phase_def cxx_bind_eq_Inr split: if_splits list.splits)
qed auto

lemma log_step_threads: "log_step s s' \<Longrightarrow> length (stacks s') = length (stacks s)"
proof (induction rule: log_step.induct)
  case (flush s t fr rest e s')
  then show ?case
    by (cases "(e, t, fr, phase fr, s)" rule: flush_next.cases)
      (auto simp: end_statement_def set_phase_def cxx_bind_eq_Inr split: if_splits list.splits)
qed auto

section \<open>The invariant of the whole\<close>

definition message_of :: "statement \<Rightarrow> string \<times> nat" where
  "message_of x = (statement_output x, statement_class x)"

definition async_logging_inv ::
  "nat \<Rightarrow> string \<Rightarrow> string \<Rightarrow> int \<Rightarrow> nat \<Rightarrow> (nat \<times> frame) option \<Rightarrow> async_logging \<Rightarrow> bool" where
  "async_logging_inv N base bin roll n h a \<longleftrightarrow> \<not> raced a \<and> threads_async h (log_side a) \<and> only_fatal (log_side a)
     \<and> reach (\<lambda>p. p = pipeline_init n) (pipeline_step N base bin roll) (pipe a)
     \<and> handed (pipe a) = map message_of (handed_over h (committed (log_side a)))
     \<and> (\<forall>t < length (calls (pipe a)). calls (pipe a) ! t = None \<or> in_append h = Some t)"

text \<open>Within \<open>Append\<close> no thread enters it.\<close>

lemma pipeline_busy:
  assumes "pipeline_step N base bin roll p p'" "handed p' = handed p"
  shows "overlapped p' = overlapped p \<and> length (calls p') = length (calls p)
    \<and> (\<forall>t < length (calls p). calls p' ! t \<noteq> None \<longrightarrow> calls p ! t \<noteq> None)"
  using assms by cases (auto simp: enter_call_def nth_list_update)

lemma idle_when: "(\<And>t. t < length (calls p) \<Longrightarrow> calls p ! t = None) \<Longrightarrow> idle p"
  by (auto simp: idle_def list_all_length)

lemma async_logging_inv_step:
  assumes "async_logging_step N base bin roll a b" "async_logging_inv N base bin roll n h a"
    and short: "list_all no_warning (committed (log_side b))"
  shows "\<exists>h'. async_logging_inv N base bin roll n h' b"
  using assms(1)
proof cases
  case (call t s f msg sev)
  have sa: "list_all no_warning (committed s)" "threads_async h (log_side a)"
    using short call(1) assms(2) by (simp_all add: async_logging_inv_def)
  show ?thesis
  proof (cases rule: log_step_async [OF call(5) sa(2,1)])
    case (3 h' x u)
    have e: "msg = statement_output x" "sev = severity_of (statement_lmsg x)"
      using 3(2) call(7) by simp_all
    have u: "u = t" using 3(6,7) call(6) by (auto simp: step_of_def)
    have "idle (pipe a)"
      using assms(2) 3(4) by (intro idle_when) (simp add: async_logging_inv_def)
    moreover have "pipeline_step N base bin roll (pipe a) (pipe b)"
      using pipeline_step.enter [OF call(2,3,4), of "GetLogFileSeverityIndex sev" N base bin roll msg]
        severity_index_less call(1) by simp
    moreover have "calls (pipe a) ! v = None" if "v < length (calls (pipe a))" for v
      using that assms(2) 3(4) by (auto simp: async_logging_inv_def)
    moreover have "reach (\<lambda>p. p = pipeline_init n) (pipeline_step N base bin roll) (pipe a)"
      using assms(2) by (simp add: async_logging_inv_def)
    moreover have "log_side b = s" "calls (pipe b) = (calls (pipe a))[t := Some (msg, GetLogFileSeverityIndex sev, 0)]"
      "handed (pipe b) = handed (pipe a) @ [(msg, GetLogFileSeverityIndex sev)]"
      "overlapped (pipe b) \<longleftrightarrow> overlapped (pipe a) \<or> \<not> idle (pipe a)"
      using call(1) by (simp_all add: enter_call_def)
    ultimately have "async_logging_inv N base bin roll n h' b"
      using 3(1,3,5,8) assms(2) e u reach_step [of _ "pipeline_step N base bin roll" "pipe a" "pipe b"]
      by (auto simp: async_logging_inv_def raced_def message_of_def statement_lmsg_index nth_list_update)
    then show ?thesis ..
  qed (use call in simp_all)
next
  case (other t s)
  have sa: "list_all no_warning (committed s)" "threads_async h (log_side a)"
    using short other(1) assms(2) by (simp_all add: async_logging_inv_def)
  show ?thesis
  proof (cases rule: log_step_async [OF other(5) sa(2,1)])
    case (1 h')
    with other assms(2) show ?thesis
      by (intro exI [of _ h']) (simp add: async_logging_inv_def raced_def)
  next
    case (2 h' u)
    have "u = t" using 2(6,7) other(6) by (auto simp: step_of_def)
    then have "calls (pipe a) ! v = None" if "v < length (calls (pipe a))" for v
      using that assms(2) 2(5) other(4) by (auto simp: async_logging_inv_def)
    with 2 other assms(2) show ?thesis
      by (intro exI [of _ h']) (simp add: async_logging_inv_def raced_def)
  next
    case (3 h' x u)
    with other(7) show ?thesis by simp
  qed
next
  case (manager p)
  then have b: "log_side b = log_side a" "pipe b = p" by simp_all
  have "reach (\<lambda>p. p = pipeline_init n) (pipeline_step N base bin roll) p"
    using assms(2) manager(3) by (auto simp: async_logging_inv_def intro: reach_step)
  moreover have "calls p ! t = None \<or> in_append h = Some t" if "t < length (calls p)" for t
    using assms(2) that pipeline_busy [OF manager(3,4)] unfolding async_logging_inv_def by metis
  ultimately have "async_logging_inv N base bin roll n h b"
    using assms(2) manager(4) pipeline_busy [OF manager(3,4)] by (simp add: async_logging_inv_def raced_def b)
  then show ?thesis ..
qed

lemma async_logging_reach_inv:
  assumes "reach (\<lambda>a. a = async_logging_init n g) (async_logging_step N base bin roll) a"
    and "g_async g" "date_alive g" "list_all no_warning (committed (log_side a))"
  shows "\<exists>h. async_logging_inv N base bin roll n h a"
  using assms(1,4)
proof (induction rule: reach.induct)
  case (reach_init a)
  have "async_logging_inv N base bin roll n None (async_logging_init n g)"
    using assms(2,3)
    by (simp add: async_logging_inv_def async_logging_init_def threads_async_def threads_start_def raced_def
        only_fatal_def holds_lock_def sender_ok_def handed_over_def pipeline_init_def reach.reach_init)
  with reach_init show ?case by blast
next
  case (reach_step a b)
  have "\<exists>xs. committed (log_side b) = committed (log_side a) @ xs"
    using reach_step(2) committed_grows
    by (induction rule: async_logging_step.induct) auto
  with reach_step.prems have "list_all no_warning (committed (log_side a))" by auto
  with reach_step.IH async_logging_inv_step [OF reach_step(2) _ reach_step.prems] show ?case by blast
qed

text \<open>
  What was handed to the manager are the messages that took the lock, in that order, up to the one of the
  thread that has it; and the thread in \<open>Append\<close>, if there is one, has the lock.
\<close>

lemma calls_in_order:
  assumes "reach (\<lambda>a. a = async_logging_init n g) (async_logging_step N base bin roll) a"
    and "g_async g" "date_alive g" "list_all no_warning (committed (log_side a))"
  shows "\<not> overlapped (pipe a)" "only_fatal (log_side a)"
    and "reach (\<lambda>p. p = pipeline_init n) (pipeline_step N base bin roll) (pipe a)"
    and "\<exists>xs. handed (pipe a) = map message_of xs \<and>
      (xs = committed (log_side a)
       \<or> lock_owner (log_side a) \<noteq> None \<and> idle (pipe a) \<and> xs = butlast (committed (log_side a)))"
    and "\<not> idle (pipe a) \<Longrightarrow> lock_owner (log_side a) \<noteq> None"
proof -
  obtain h where inv: "async_logging_inv N base bin roll n h a"
    using async_logging_reach_inv [OF assms] by blast
  then show "\<not> overlapped (pipe a)" "only_fatal (log_side a)"
    "reach (\<lambda>p. p = pipeline_init n) (pipeline_step N base bin roll) (pipe a)"
    by (simp_all add: async_logging_inv_def raced_def)
  have owner: "lock_owner (log_side a) = map_option fst h"
    using inv by (simp add: async_logging_inv_def threads_async_def holds_lock_def)
  have i: "idle (pipe a)" if "in_append h = None"
    using that inv by (intro idle_when) (simp add: async_logging_inv_def)
  then show "\<not> idle (pipe a) \<Longrightarrow> lock_owner (log_side a) \<noteq> None"
    using owner by (cases h) (auto simp: in_append_def)
  have "handed_over h (committed (log_side a)) = committed (log_side a)
      \<or> lock_owner (log_side a) \<noteq> None \<and> idle (pipe a)
        \<and> handed_over h (committed (log_side a)) = butlast (committed (log_side a))"
    using owner i by (auto simp: handed_over_def in_append_def split: option.split)
  then show "\<exists>xs. handed (pipe a) = map message_of xs \<and>
      (xs = committed (log_side a)
       \<or> lock_owner (log_side a) \<noteq> None \<and> idle (pipe a) \<and> xs = butlast (committed (log_side a)))"
    using inv by (auto simp: async_logging_inv_def)
qed

section \<open>Concrete runs\<close>

datatype async_logging_event = Thread log_event | Manager pipeline_event

fun thread_of :: "log_event \<Rightarrow> nat" where
  "thread_of (Begin_log t sev) = t"
| "thread_of (Operand t x) = t"
| "thread_of (Next t) = t"

definition thread_goes :: "nat \<Rightarrow> log_threads \<Rightarrow> async_logging \<Rightarrow> async_logging" where
  "thread_goes t s a =
     (let old = sent (shared (log_side a)); new = sent (shared s)
      in if crash (pipe a) = None \<and> t < length (calls (pipe a)) \<and> calls (pipe a) ! t = None
         then if new = old then a\<lparr>log_side := s\<rparr>
           else if new \<noteq> [] \<and> butlast new = old
           then (case last new of (f, msg, sev) \<Rightarrow>
             a\<lparr>log_side := s, pipe := enter_call t msg (GetLogFileSeverityIndex sev) (pipe a)\<rparr>)
           else a
         else a)"

fun async_logging_schedule ::
  "env \<Rightarrow> nat \<Rightarrow> async_logging \<Rightarrow> async_logging_event \<Rightarrow> async_logging" where
  "async_logging_schedule e N a (Thread x) = thread_goes (thread_of x) (log_schedule e (log_side a) x) a"
| "async_logging_schedule e N a (Manager x) =
     (let p = pipeline_schedule N (\<lambda>_. NUL) ''log'' ''prog'' 1024 (pipe a) x
      in if fault (log_side a) = None \<and> handed p = handed (pipe a) then a\<lparr>pipe := p\<rparr> else a)"

lemma flush_next_step_of:
  "t < length (stacks s) \<Longrightarrow> flush_next e t fr ph s = Some (Inr s') \<Longrightarrow> step_of t s s'"
  by (cases "(e, t, fr, ph, s)" rule: flush_next.cases; cases "stacks s ! t")
    (auto simp: step_of_def end_statement_def set_phase_def set_stack_def cxx_bind_eq_Inr split: if_splits)

lemma log_schedule_step_of: "step_of (thread_of x) s (log_schedule e s x)"
proof (cases x)
  case (Next t)
  then show ?thesis
    using flush_next_step_of [of t s e] by (auto simp: step_of_def split: list.split option.split sum.split)
qed (auto simp: step_of_def set_stack_def split: list.split)

lemma thread_goes_step:
  assumes "log_step (log_side a) s \<or> s = log_side a" "step_of t (log_side a) s"
  shows "async_logging_step N base bin roll a (thread_goes t s a) \<or> thread_goes t s a = a"
proof (cases "s = log_side a")
  case True
  then show ?thesis by (simp add: thread_goes_def Let_def)
next
  case False
  have "sent (shared s) = sent (shared (log_side a)) @ [last (sent (shared s))]"
    if "sent (shared s) \<noteq> []" "butlast (sent (shared s)) = sent (shared (log_side a))"
    using that by (metis append_butlast_last_id)
  with False assms show ?thesis
    by (cases "last (sent (shared s))")
      (auto simp: thread_goes_def Let_def simp del: append_butlast_last_id
        intro: async_logging_step.call async_logging_step.other)
qed

lemma async_logging_schedule_step:
  assumes "env_ok e"
  shows "async_logging_step N ''log'' ''prog'' 1024 a (async_logging_schedule e N a x)
    \<or> async_logging_schedule e N a x = a"
proof (cases x)
  case (Thread y)
  have "log_step (log_side a) (log_schedule e (log_side a) y) \<or> log_schedule e (log_side a) y = log_side a"
    by (rule log_schedule_step [OF assms])
  with thread_goes_step [of a "log_schedule e (log_side a) y"] log_schedule_step_of [of y "log_side a" e] Thread
  show ?thesis by auto
next
  case (Manager y)
  with pipeline_schedule_step [of N "''log''" "''prog''" 1024 "pipe a" "\<lambda>_. NUL" y] show ?thesis
    by (auto simp: Let_def intro: async_logging_step.manager)
qed

lemma async_logging_schedule_reach:
  assumes "env_ok e"
  shows "reach (\<lambda>a. a = async_logging_init n g) (async_logging_step N ''log'' ''prog'' 1024)
    (foldl (async_logging_schedule e N) (async_logging_init n g) xs)"
  by (rule reach_foldl) (simp_all add: async_logging_schedule_step [OF assms] reach_init)

text \<open>One statement from its beginning until the manager has it and the lock is free again.\<close>

definition async_logging_example :: "nat \<Rightarrow> async_logging" where
  "async_logging_example N = foldl (async_logging_schedule example_env N)
     (async_logging_init 2 ((logging_start example_fs)\<lparr>g_async := True, sender := Some 1\<rparr>))
     [Thread (Begin_log 0 INFO), Thread (Operand 0 ''hello''), Thread (Next 0), Thread (Next 0), Thread (Next 0),
      Manager (Go_on 0), Manager (Logger 0 Construct), Manager (Logger 0 Construct), Manager (Logger 0 Construct),
      Manager (Go_on 0), Thread (Next 0), Thread (Next 0)]"

definition async_example_statement :: statement where
  "async_example_statement = (example_env, 0, ''a.cc'', 12, INFO, [''hello''])"

lemma async_example_short: "no_warning async_example_statement" "length (statement_output async_example_statement) < kLargeBuffer"
proof -
  let ?m = "statement_lmsg async_example_statement"
  have "length (stream ?m) \<le> length (concat (prefix_parts example_env 0 ''a.cc'' 12 INFO) @ '' '' @ concat [''hello''])"
    by (simp add: statement_lmsg_def async_example_statement_def statement_text del: length_append take_append)
  also have "\<dots> < 100" by code_simp
  finally show "no_warning async_example_statement" "length (statement_output async_example_statement) < kLargeBuffer"
    by (simp_all add: no_warning_def kMaxLogMessageLen_def kLargeBuffer_def message_output_def
        flip: statement_lmsg_facts(3))
qed

lemma async_logging_example_state:
  assumes "length (statement_output async_example_statement) < N" "N < 2 ^ 64"
  shows "committed (log_side (async_logging_example N)) = [async_example_statement]
    \<and> lock_owner (log_side (async_logging_example N)) = None
    \<and> (\<exists>s. loggers (pipe (async_logging_example N)) ! 0 = Some s \<and> dest (cons s) = [])"
proof -
  have "GetLogFileSeverityIndex INFO = 0" by code_simp
  moreover have "\<not> kMaxLogMessageLen - 10 < length (statement_output async_example_statement)"
    using async_example_short(1) by (simp add: no_warning_def)
  ultimately show ?thesis
    using assms
    by (simp add: async_logging_example_def async_logging_init_def thread_goes_def Let_def log_run_simps
        replicate_2 stream_put_statement statement_lmsg_facts async_example_statement_def
        pipeline_run_simps async_run_simps end_statement_def)
qed

text \<open>
  A statement that is nearly too long in thread 0, and another in thread 1, which calls the send method
  between the release of the lock by thread 0 and the warning that thread 0 sends.
\<close>

definition long_operand :: string where
  "long_operand = replicate 262144 CHR ''x''"

definition long_statement :: statement where
  "long_statement = (example_env, 0, ''a.cc'', 12, INFO, [long_operand])"

lemma long_statement_facts:
  "\<not> no_warning long_statement" "length (statement_output long_statement) < kLargeBuffer"
proof -
  let ?m = "statement_lmsg long_statement"
  have "length (stream ?m) = 262142"
    by (simp add: statement_lmsg_def long_statement_def long_operand_def statement_text kMaxLogMessageLen_def
        del: take_append)
  then show "\<not> no_warning long_statement" "length (statement_output long_statement) < kLargeBuffer"
    by (simp_all add: no_warning_def kMaxLogMessageLen_def kLargeBuffer_def message_output_def
        flip: statement_lmsg_facts(3))
qed

definition race_example :: "nat \<Rightarrow> async_logging" where
  "race_example N = foldl (async_logging_schedule example_env N)
     (async_logging_init 2 ((logging_start example_fs)\<lparr>g_async := True, sender := Some 1\<rparr>))
     [Thread (Begin_log 0 INFO), Thread (Operand 0 long_operand), Thread (Next 0), Thread (Next 0),
      Thread (Next 0), Manager (Go_on 0), Manager (Logger 0 Construct), Manager (Logger 0 Construct),
      Manager (Logger 0 Construct), Manager (Go_on 0), Thread (Next 0), Thread (Next 0),
      Thread (Begin_log 1 INFO), Thread (Next 1), Thread (Next 1), Thread (Next 1), Thread (Next 0)]"

lemma race_example_raced:
  assumes "length (statement_output long_statement) < N" "N < 2 ^ 64"
  shows "raced (race_example N)"
proof -
  have "GetLogFileSeverityIndex INFO = 0" by code_simp
  moreover have "kMaxLogMessageLen - 10 < length (statement_output long_statement)"
    using long_statement_facts(1) by (simp add: no_warning_def)
  ultimately show ?thesis
    using assms
    by (simp add: raced_def race_example_def async_logging_init_def thread_goes_def Let_def log_run_simps
        replicate_2 stream_put_statement statement_lmsg_facts long_statement_def
        pipeline_run_simps async_run_simps end_statement_def)
qed

text \<open>
  C36. The warning about a nearly full message is sent without the lock: in some interleaving of two
  threads it enters the manager's \<open>Append\<close>, which takes no lock, while the other thread is inside.
\<close>

theorem overflow_warning_races:
  "\<exists>a. reach (\<lambda>a. a = async_logging_init 2 ((logging_start example_fs)\<lparr>g_async := True, sender := Some 1\<rparr>))
      (async_logging_step kLargeBuffer ''log'' ''prog'' 1024) a \<and> raced a"
proof -
  have "env_ok example_env" "kLargeBuffer < 2 ^ 64" by (simp_all add: example_log_simps kLargeBuffer_def)
  with race_example_raced [OF long_statement_facts(2)] show ?thesis
    using async_logging_schedule_reach [of example_env] unfolding race_example_def by blast
qed

end
