(* ===== verification/Spec2Isabelle.thy ===== *)
theory Spec2Isabelle
  imports Prelude Decimal Status Bit_Op Text_Util Hash_Murmur3 Calendar Shared_Array
    Array_Program Array_Cast Static_Storage Fifo_Spec Blocking_Queue Thread_Pool Task_Future
    Synchronizer Refcount
    Thread_Local Registry Timer System_Info File_IO Protobuf_Op Log_Internal Log_Severity Log_File Log_Disk
    Log_Message Log_Buffer Log_Session Log_Delivery Log_Threads Log_Concurrent Async_Log Async_Stop Async_Progress Async_Manager
    Async_Pipeline Log_Pipeline
begin

text \<open>
  Verification of openmi-base, the C++ base library of OpenMI (src/base): status values, string and
  bit utilities, hashes, shared arrays, blocking queues and a thread pool, reference counts,
  registries, file access, and a logging library with a synchronous and an asynchronous back end.

  \<^bold>\<open>How the parts interact.\<close> The thread pool keeps its tasks in a blocking queue. The logging
  macros build a message (stamped with the date and a thread-local buffer for it), and \<open>Flush\<close>
  either sends it to the send method (asynchronous mode: the manager of the asynchronous loggers) or
  writes it to log files, which write through \<open>WriteOp\<close> and roll over. The allocators are found
  through the register. CHECK, which other parts use, ends in a fatal log message: the destructor of
  LOG(FATAL) throws and so terminates the program; whether the message is flushed before that depends on
  whether the implementation unwinds the stack, which the environment of a statement tells.

  \<^bold>\<open>Theories.\<close>
  \<^item> Prelude: abnormal ends of a computation (\<open>'a cxx\<close>), integer conversions, reachability, the
    locale \<open>inductive_invariant\<close> by which every concurrent component is proved, and the locale
    \<open>refinement_mapping\<close> by which a system is shown to implement an abstract one. Decimal: printing
    of integers. Fifo_Spec: the abstract first-in first-out channel.
  \<^item> Status: \<open>Status\<close> of base/status.h, base/status.cc and the constructors of base/errors.h.
  \<^item> Bit_Op: base/bit_op.h on machine words. Hash_Murmur3: base/hash_murmur3.cc on machine words,
    over the list of the key's bytes.
  \<^item> Text_Util: \<open>Split\<close> (base/dstring.h), \<open>StringToNum\<close>, \<open>NumToString\<close> (base/type_conversion.h),
    \<open>Exec\<close> (base/shell_util.h); getline and fgets as functions on the rest of the input.
  \<^item> Calendar: \<open>Date\<close> of base/date.h and of base/logging.cc, compared with a reference calendar.
  \<^item> Shared_Array: \<open>SArray\<close> of base/sarray.h over an explicit store of memory blocks, so that sharing,
    overlap and references into released blocks are visible, with sizes that wrap around.
    Array_Program: programs of its operations, compared with the same operations on lists, and
    elements of arrays as arguments of \<open>push_back\<close>. Array_Cast: casts between element types, over a store of bytes.
  \<^item> Blocking_Queue: base/threadsafe_queue.h; locales \<open>fifo_monitor\<close> and \<open>bounded_fifo_monitor\<close> for the
    contract, interpreted on both queues. Thread_Pool: base/thread_pool.h over that queue. Task_Future: the
    results of its tasks, with what a task computes as a parameter.
  \<^item> Synchronizer: base/synchronizer.h and .cc. Refcount: base/refcount.h. Thread_Local:
    base/thread_local.h. Timer: base/timer.h. System_Info: base/system_info.h. Static_Storage:
    base/singleton.h and base/random.h, with the standard library's generators as arguments.
  \<^item> Registry: base/register.h, base/allocator.h, base/allocator.cc, base/allocator_registry.h,
    base/general_factory.h; locales \<open>name_table\<close>, \<open>last_wins_table\<close> and \<open>first_wins_table\<close>.
  \<^item> File_IO: base/write_op.h and .cc, base/read_op.h and .cc, base/file_op.h, over a file
    system of names, files and directories. Protobuf_Op: base/protobuf_op.h, with the protobuf library as an argument.
  \<^item> Log_Internal: the copies of \<open>Write\<close> and \<open>SystemInfo\<close> in base/logging.cc, which the log files use.
    Log_Severity: the severities of base/logging.h. Log_File: \<open>LogFile\<close> of base/logging.cc. Log_Disk:
    sequences of writes to a log file, and what it means that messages stand in files whole and in
    order. Log_Message: the messages, the destinations and the CHECK macros of base/logging.h and
    base/logging.cc; the locale \<open>log_sink\<close> is what a message expects of a log file. Log_Buffer: the
    message's array, \<open>LogStreamBuf\<close>, \<open>NullStream\<close> and \<open>LogCheckError\<close> at the level of memory.
    Log_Session: what the log files hold after the first statement of a program. Log_Delivery: where the
    texts of all its statements are found; the locale \<open>named_sink\<close> extends \<open>log_sink\<close>.
  \<^item> Log_Threads: LOG statements in several threads, with the lock of base/logging.cc and a stack of
    messages for each thread; a send method that logs. Log_Concurrent: where the texts are found in
    every interleaving, and that no message is held up.
  \<^item> Async_Log: base/async_logging.h: \<open>DataBuffer\<close>, \<open>AsyncLogging\<close> from its constructor to its
    destructor with its consumer, which runs beside the constructor; \<open>async_failure\<close> says what can go
    wrong in a state. Async_Stop: its end, its memory, its losses. Async_Progress: the time
    until a message is written. Async_Manager: \<open>AsyncLoggingManager\<close>. Async_Pipeline: the manager, any
    number of threads in its \<open>Append\<close>, and its loggers as one system, which a failure ends. Log_Pipeline: the threads of Log_Threads with that system as
    their send method.

  \<^bold>\<open>State and steps.\<close> Objects are records with the fields of the class. Operations are functions from
  state to state, with a sum type where the code can fail. Where threads matter there is an
  inductive step relation with one rule for each section a thread executes under the lock (or for
  each atomic access), and a function (\<open>schedule\<close> and the like) that computes concrete runs. The
  records of the threads' systems also hold the history of calls that the properties speak about.
  The theorems quantify over all interleavings, all numbers of threads and all buffer sizes; nothing
  is bounded and no function needs fuel.

  \<^bold>\<open>What is shown.\<close> For the queues, the pool and the asynchronous logger: they implement the abstract
  channel (order, nothing lost or duplicated, as library lemmas beside the properties), no wakeup is lost, and the workers and the consumer
  end after \<open>Stop\<close>; every future of the pool gets the result of its own task; the logger's memory is
  bounded, and what it accepts is written within a bounded number of the consumer's steps; for the synchronizer and the reference count: what a waiter or an owner may rely
  on; for the log files and messages: that the memory of a message is safe, where its text goes, that files
  only grow, and that the texts of all statements of any number of threads, synchronous or
  asynchronous, are found in the log files of their classes, in the order in which they took the lock;
  for the arrays: their well-formedness under every operation, and that an array with memory of its own is a vector; for the
  files, registers and utilities: the functional behaviour, with round trips where two operations
  are inverse. Where the code does less than it means to, the exact condition is proved (the dates,
  the 128-bit hash, the asynchronous logger and its manager, \<open>push_back\<close> of an element, \<open>Unref\<close>, the pool's destructor, the constructor of a
  log file, \<open>OsName\<close>, \<open>SerializeToOstream\<close>, the send method that is called under the lock and the
  warning that is sent without it).

  \<^bold>\<open>Not modelled.\<close> Weak memory ordering (a data race is the state in which both accesses are next), \<open>ShutdownLogging\<close> while other threads log, allocation failure (but for sizes that no
  address space has), the buffers of the standard streams,
  the text of the log messages the library itself writes, the printing on the standard output,
  and the macros that only define names (\<open>REGISTER_CLASS\<close>, the link tags). The tests under base/test are not part of the library.
\<close>

section \<open>From a log statement to the asynchronous loggers\<close>

lemma output_fits_buffer:
  "length (message_output (statement_message e tid f line sev parts)) < kLargeBuffer"
proof -
  have "length (message_output (statement_message e tid f line sev parts)) \<le> 262143"
    by (rule log_statement_text_facts(2))
  then show ?thesis by (simp add: kLargeBuffer_def)
qed

text \<open>
  With an asynchronous logger a LOG statement that is not fatal never fails and leaves the log files alone; it
  hands its text with its severity to the send method, and if that is the manager's \<open>Append\<close> and the
  manager accepts it, the text is buffered by the loggers of its severity and of the lower
  classes and by no other. No message is too long for the buffers.
\<close>

lemma async_logging_end_to_end:
  assumes "date_alive g" "g_async g" "sev \<noteq> FATAL" and "manager_inv kLargeBuffer m"
    and out: "out = message_output (statement_message e tid f line sev parts)"
    and "Manager_Append kLargeBuffer garbage out sev m = Inr m'" and "k < LOG_FILE_SEVERITIES"
  shows "(\<exists>g' warning. log_statement e tid f line sev parts g = Inr g'
      \<and> sent g' = sent g @ (sender g, out, sev) # warning \<and> files g' = files g)
    \<and> buffered m' k = buffered m k @ (if k \<le> GetLogFileSeverityIndex sev then out else [])"
proof -
  have "(0 :: nat) < kLargeBuffer" "kLargeBuffer < 2 ^ 64" by (simp_all add: kLargeBuffer_def)
  from Manager_buffers [OF this assms(4,6,7)] output_fits_buffer [of e tid f line sev parts] out
    log_statement_async [OF assms(1-3) out]
  show ?thesis by auto
qed

lemma async_logging_end_to_end_witness:
  "let g = (logging_start example_fs)\<lparr>g_async := True\<rparr>;
       m = fst (AsyncLoggingManager_new ''log'' ''prog'' 1024);
       out = message_output (statement_message example_env 7 ''a.cc'' 12 WARN [''hello''])
   in \<exists>g' m'. log_statement example_env 7 ''a.cc'' 12 WARN [''hello''] g = Inr g'
        \<and> Manager_Append kLargeBuffer (\<lambda>_. NUL) out WARN m = Inr m' \<and> buffered m' 1 = out"
proof -
  define g where "g = (logging_start example_fs)\<lparr>g_async := True\<rparr>"
  define m where "m = fst (AsyncLoggingManager_new ''log'' ''prog'' 1024)"
  define out where "out = message_output (statement_message example_env 7 ''a.cc'' 12 WARN [''hello''])"
  have m: "manager_inv kLargeBuffer m" "buffered m 1 = []"
    by (auto simp: m_def AsyncLoggingManager_new_def manager_inv_def buffered_def LOG_FILE_SEVERITIES_def)
  have "length out < 4096000"
    using output_fits_buffer [of example_env 7 "''a.cc''" 12 WARN "[''hello'']"]
    by (simp add: out_def kLargeBuffer_def)
  then have "\<not> is_error (Manager_Append kLargeBuffer (\<lambda>_. NUL) out WARN m)"
    by (simp add: m_def AsyncLoggingManager_new_def Manager_Append_def LOG_FILE_SEVERITIES_def upt_rec
        manager_slot_def async_run_simps Async_Start_def numeral_3_eq_3 kLargeBuffer_def)
  then obtain m' where r: "Manager_Append kLargeBuffer (\<lambda>_. NUL) out WARN m = Inr m'"
    by (cases "Manager_Append kLargeBuffer (\<lambda>_. NUL) out WARN m") auto
  have g: "date_alive g" "g_async g" by (simp_all add: g_def logging_start_def)
  have "1 < LOG_FILE_SEVERITIES" by (simp add: LOG_FILE_SEVERITIES_def)
  from async_logging_end_to_end [OF g _ m(1) out_def r this] m(2) r
  show ?thesis unfolding Let_def g_def [symmetric] m_def [symmetric] out_def [symmetric] by auto
qed

section \<open>From the asynchronous logger to the log files\<close>

lemma consumer_writes_reach_files:
  assumes "async_inv N s" "N < 2 ^ 31"
    and "fs_ready fs" "dirs fs base" "env_ok e" "list_all env_ok es" "length es = length (dest (cons s))"
  shows "\<exists>fs' lf' targets.
      cxx_bind (LogFile_new e base bin roll name False fs) (write_all (zip es (dest (cons s)))) = Inr (fs', lf')
    \<and> length targets = length (dest (cons s))
    \<and> (\<forall>f. in_order (part f targets (dest (cons s))) (data fs' f))"
proof -
  have "list_all (\<lambda>d. length d < 2 ^ 31) (dest (cons s))"
    using assms(1,2) by (fastforce simp: async_inv_def list_all_iff)
  with assms(6,7) have "list_all (\<lambda>x. env_ok (fst x) \<and> length (snd x) < 2 ^ 31) (zip es (dest (cons s)))"
    by (auto simp: list_all_iff dest: set_zip_leftD set_zip_rightD)
  from log_session [OF assms(5,3) this assms(4), of bin roll name False] assms(7)
  show ?thesis by simp
qed

text \<open>
  What the consumer of an asynchronous logger writes reaches the log files: if their directory exists, on a disk that takes
  every file, its log file can be made and none of its writes fails, whatever the clock does and
  however often it rolls; each write goes to one file, where it stands after the earlier ones,
  and the writes together are the accepted messages, in order, up to the part still buffered.
\<close>

lemma async_writes_reach_files:
  assumes "reach (\<lambda>s. s = async_init N g b j base bin roll sev) (async_step N) s" "0 < N" "N < 2 ^ 31"
    and "fs_ready fs" "dirs fs base" "env_ok e" "list_all env_ok es" "length es = length (dest (cons s))"
  shows "\<exists>fs' lf' targets.
      cxx_bind (LogFile_new e base bin roll (g_log_file_severity_names ! GetLogFileSeverityIndex sev) False fs)
        (write_all (zip es (dest (cons s)))) = Inr (fs', lf')
    \<and> length targets = length (dest (cons s))
    \<and> (\<forall>f. in_order (part f targets (dest (cons s))) (data fs' f))
    \<and> concat (dest (cons s)) @ in_flight s = fitting N (accepted s)"
proof -
  have "N < 2 ^ 64" using assms(3) by simp
  note inv = async_reachable [OF assms(1,2) this]
  from consumer_writes_reach_files [OF inv assms(3-8)] inv show ?thesis by (simp add: async_inv_def)
qed

lemma async_writes_reach_files_witness:
  "\<exists>fs' lf' targets.
      cxx_bind (LogFile_new example_env ''log'' ''prog'' 1024 ''INFO'' False example_fs)
        (write_all [(example_env, ''ab''), (example_env, ''cd'')]) = Inr (fs', lf')
    \<and> (\<forall>f. in_order (part f targets [''ab'', ''cd'']) (data fs' f))"
proof -
  have r: "fs_ready example_fs" "dirs example_fs ''log''" "env_ok example_env"
    by (auto simp: fs_ready_def example_log_simps)
  have n: "g_log_file_severity_names ! GetLogFileSeverityIndex INFO = ''INFO''" by code_simp
  show ?thesis
    using async_writes_reach_files [OF async_example_reach _ _ r, of "[example_env, example_env]"]
      r async_example_result n
    by auto
qed

section \<open>From the log statements to the log files, asynchronously\<close>

lemma for_logger_statements:
  "for_logger k (map (\<lambda>x. (statement_output x, statement_class x)) xs) = texts_of_class k xs"
  by (induction xs) (auto simp: for_logger_def texts_of_class_def statement_class_def)

lemma fitting_statements: "fitting kLargeBuffer (texts_of_class k xs) = concat (texts_of_class k xs)"
proof -
  have "length (statement_output x) < kLargeBuffer" for x
    using output_fits_buffer by (cases x) (simp add: statement_output_def)
  then have "filter (\<lambda>m. length m < kLargeBuffer) (map statement_output ys) = map statement_output ys" for ys
    by (induction ys) simp_all
  then show ?thesis by (simp add: fitting_def texts_of_class_def)
qed

section \<open>All threads with the asynchronous back end\<close>

text \<open>What a logger has accepted are the statements that took the lock, perhaps without the last one.\<close>

lemma accepted_statements:
  assumes "reach (\<lambda>a. a = async_logging_init n g) (async_logging_step kLargeBuffer base bin roll) a"
    and "g_async g" "date_alive g" "list_all no_warning (committed (log_side a))" "k < LOG_FILE_SEVERITIES"
  shows "\<exists>xs. accepted_by (pipe a) k = texts_of_class k xs
    \<and> (xs = committed (log_side a) \<or> lock_owner (log_side a) \<noteq> None \<and> xs = butlast (committed (log_side a)))"
proof -
  note c = calls_in_order [OF assms(1-4)]
  have inv: "pipeline_inv kLargeBuffer base bin roll (pipe a)" by (rule pipeline.reachable_inv [OF c(3)])
  obtain xs where xs: "handed (pipe a) = map message_of xs"
    "xs = committed (log_side a)
      \<or> lock_owner (log_side a) \<noteq> None \<and> idle (pipe a) \<and> xs = butlast (committed (log_side a))"
    using c(4) by blast
  have o: "one_by_one (pipe a)" using pipeline_invD(5) [OF inv c(1)] .
  then have eq: "accepted_by (pipe a) k @ pending (pipe a) k = texts_of_class k xs"
    using assms(5) by (simp add: one_by_one_def xs(1) message_of_def [abs_def] for_logger_statements)
  show ?thesis
  proof (cases "pending (pipe a) k = []")
    case True
    with eq xs(2) show ?thesis by (intro exI [of _ xs]) auto
  next
    case False
    then have "\<not> idle (pipe a)" using no_call_pending by (auto simp: idle_iff pending_def)
    with xs(2) c(5) have l: "lock_owner (log_side a) \<noteq> None" "xs = committed (log_side a)" by auto
    have "length (pending (pipe a) k) \<le> 1"
      using o length_pending [of k "calls (pipe a)"] by (simp add: one_by_one_def pending_def)
    with False have "\<exists>m. pending (pipe a) k = [m]" by (cases "pending (pipe a) k") auto
    then obtain m where m: "texts_of_class k xs = accepted_by (pipe a) k @ [m]" using eq by metis
    obtain c where c: "c \<in> set (calls (pipe a))" "pending_call k c \<noteq> []"
      using False by (auto simp: pending_def)
    obtain msg x i where x: "c = Some (msg, x, i)" "k \<le> x"
      using c(2) by (cases c) (auto split: if_splits)
    with o c(1) have "handed (pipe a) \<noteq> [] \<and> last (handed (pipe a)) = (msg, x)"
      unfolding one_by_one_def by blast
    then have "xs \<noteq> []" "statement_class (last xs) = x" by (auto simp: xs(1) last_map message_of_def)
    with x(2) have "xs \<noteq> []" "k \<le> statement_class (last xs)" by simp_all
    then have "texts_of_class k xs = texts_of_class k (butlast xs) @ [statement_output (last xs)]"
      by (subst append_butlast_last_id [symmetric, of xs])
        (auto simp: texts_of_class_def statement_class_def simp del: append_butlast_last_id split: prod.splits)
    with m have "accepted_by (pipe a) k = texts_of_class k (butlast xs)" by simp
    with l show ?thesis by (intro exI [of _ "butlast xs"]) simp
  qed
qed



end
